(* ===== verification/Sensorhub_Prelude.thy ===== *)
theory Sensorhub_Prelude
  imports Main "HOL-Library.Word"
begin

text \<open>
  Shared vocabulary of the SensorHub development: the machine integer types of the C and C++
  sources, the error values (\<open>errno\<close> codes and C++ exceptions), the answers of system calls, and
  the generic lemmas on lists, decimal numerals and little-endian encodings that the component
  theories use.

  System calls are answered by the operating system, which is not part of the repository. An
  operation that issues system calls takes the answers as an argument (a list of answers for a
  loop) and the theorems hold for every answer, or for every answer that satisfies a documented
  bound (for example that \<open>recv\<close> delivers at most as many bytes as the buffer holds).
\<close>

section \<open>Machine integers and bytes\<close>

type_synonym byte = "8 word"
type_synonym u16 = "16 word"
type_synonym u32 = "32 word"
type_synonym u64 = "64 word"
type_synonym s32 = "32 word" \<comment> \<open>two's complement; read with \<open>sint\<close>\<close>
type_synonym fd = int

abbreviation nl :: char where "nl \<equiv> CHR 0x0A"
abbreviation cr :: char where "cr \<equiv> CHR 0x0D"

lemma unat_less_u8: "unat (b :: byte) < 256"
  using unsigned_less [where 'a = nat, of b] by simp

lemma unat_less_u16: "unat (w :: u16) < 65536"
  using unsigned_less [where 'a = nat, of w] by simp

lemma unat_less_u32: "unat (w :: u32) < 4294967296"
  using unsigned_less [where 'a = nat, of w] by simp

lemma unat_less_u64: "unat (w :: u64) < 18446744073709551616"
  using unsigned_less [where 'a = nat, of w] by simp

lemma ucast_u32_u64 [simp]: "ucast (ucast w :: u64) = (w :: u32)"
  by (rule bit_word_eqI) (auto simp: bit_unsigned_iff dest: bit_imp_le_length)

lemma sint_small:
  assumes "unat (w :: s32) < 2 ^ 31"
  shows "sint w = uint w"
proof -
  have "int (unat w) < int (2 ^ 31)" using assms by (simp only: of_nat_less_iff)
  then have "uint w < 2 ^ 31" by simp
  moreover have "- (2 ^ 31) \<le> uint w" by (rule order_trans [of _ 0]) simp_all
  ultimately have "signed_take_bit 31 (uint w) = uint w" by (intro signed_take_bit_int_eq_self)
  then show ?thesis by (simp add: sint_uint)
qed

section \<open>Proof collections\<close>

named_theorems step_simps \<open>functional behaviour of the operations, branch by branch\<close>
named_theorems inv_intros \<open>preservation of the component invariants\<close>
named_theorems list_find \<open>facts about the first occurrence of a character\<close>

section \<open>Error values\<close>

text \<open>\<open>EWOULDBLOCK\<close> is the same number as \<open>EAGAIN\<close> on Linux, so one constructor stands for both.\<close>

datatype errno = EAGAIN | EINTR | EINVAL | EFAULT | ENOTTY | ENOMEM | ECONNABORTED | EMFILE
  | ENOENT | ERESTARTSYS | Errno nat

text \<open>
  The C++ exceptions the daemon throws or receives from the standard library. \<open>Sys_error a e\<close> is
  the \<open>std::runtime_error\<close> built by the \<open>sys_error\<close> helpers: action \<open>a\<close> and \<open>strerror(e)\<close>.
  All of them derive from \<open>std::exception\<close>. \<open>Process_terminated\<close> is not thrown: it is the result of a
  section of the main thread that is cut off because another thread ended the process.
\<close>

datatype exn =
    Runtime_error string
  | Sys_error string errno
  | Invalid_argument string
  | Out_of_range string
  | Filesystem_error string
  | System_error string
  | Process_terminated

primrec what :: "(errno \<Rightarrow> string) \<Rightarrow> exn \<Rightarrow> string" where
  "what strerror (Runtime_error m) = m"
| "what strerror (Sys_error a e) = a @ '': '' @ strerror e"
| "what strerror (Invalid_argument m) = m"
| "what strerror (Out_of_range m) = m"
| "what strerror (Filesystem_error m) = m"
| "what strerror (System_error m) = m"
| "what strerror Process_terminated = []"

type_synonym 'a result = "exn + 'a"

fun bindR :: "'a result \<Rightarrow> ('a \<Rightarrow> 'b result) \<Rightarrow> 'b result" where
  "bindR (Inl e) k = Inl e"
| "bindR (Inr x) k = k x"

lemma bindR_Inr_iff [simp]: "bindR m k = Inr y \<longleftrightarrow> (\<exists>x. m = Inr x \<and> k x = Inr y)"
  by (cases m) auto

lemma bindR_Inl_iff: "bindR m k = Inl e \<longleftrightarrow> m = Inl e \<or> (\<exists>x. m = Inr x \<and> k x = Inl e)"
  by (cases m) auto

text \<open>
  Sequencing of sections that change a state \<open>'s\<close> and may throw; \<open>None\<close> is a run whose answers end too early.
\<close>

fun and_then :: "(unit result \<times> 's) option \<Rightarrow> ('s \<Rightarrow> (unit result \<times> 's) option) \<Rightarrow> (unit result \<times> 's) option" where
  "and_then None k = None"
| "and_then (Some (Inl e, s)) k = Some (Inl e, s)"
| "and_then (Some (Inr _, s)) k = k s"

lemma and_then_cases:
  assumes "and_then m k = Some (r, s')"
  obtains (throws) e where "m = Some (Inl e, s')" "r = Inl e"
    | (continues) s where "m = Some (Inr (), s)" "k s = Some (r, s')"
  using assms by (cases "(m, k)" rule: and_then.cases) auto

lemma and_then_Inr:
  assumes "and_then m k = Some (Inr u, s')"
  obtains s where "m = Some (Inr (), s)" "k s = Some (Inr (), s')"
  using assms by (cases rule: and_then_cases) auto

text \<open>
  Answers of byte-stream system calls. \<open>Got []\<close> is a return value of 0 (end of file). \<open>Room k\<close> is
  a socket that takes at most \<open>k\<close> bytes: a \<open>send\<close> of \<open>len\<close> bytes returns \<open>min k len\<close>.
\<close>

datatype 'b io_in = Got "'b list" | In_err errno
datatype io_out = Room nat | Out_err errno

section \<open>First occurrence of a character\<close>

text \<open>\<open>std::string::find(c)\<close>; \<open>None\<close> is \<open>npos\<close>.\<close>

primrec str_find :: "'a \<Rightarrow> 'a list \<Rightarrow> nat option" where
  "str_find c [] = None"
| "str_find c (x # xs) = (if x = c then Some 0 else map_option Suc (str_find c xs))"

lemma str_find_None [list_find]: "str_find c xs = None \<longleftrightarrow> c \<notin> set xs"
  by (induction xs) auto

lemma str_find_Some [list_find]:
  "str_find c xs = Some i \<longleftrightarrow> i < length xs \<and> xs ! i = c \<and> c \<notin> set (take i xs)"
proof (induction xs arbitrary: i)
  case Nil
  then show ?case by simp
next
  case (Cons x xs)
  then show ?case by (cases i) auto
qed

lemma str_find_append:
  "str_find c (xs @ ys) =
     (case str_find c xs of Some i \<Rightarrow> Some i
      | None \<Rightarrow> map_option (\<lambda>i. length xs + i) (str_find c ys))"
  by (cases "str_find c ys"; induction xs) (auto split: option.splits)

lemma str_find_prefix: "c \<notin> set xs \<Longrightarrow> str_find c (xs @ c # ys) = Some (length xs)"
  by (induction xs) auto

lemma count_list_filter_distinct:
  "distinct xs \<Longrightarrow> x \<in> set xs \<Longrightarrow> P x \<Longrightarrow> count_list (filter P xs) x = 1"
  by (induction xs) (auto simp: count_list_0_iff)

lemma nth_in_take: "i < length xs \<Longrightarrow> i < n \<Longrightarrow> xs ! i \<in> set (take n xs)"
  by (metis in_set_conv_nth length_take min_less_iff_conj nth_take)

lemma str_find_less_length: "str_find c xs = Some i \<Longrightarrow> i < length xs"
  by (simp add: str_find_Some)

lemma str_find_split:
  "str_find c xs = Some i \<Longrightarrow> xs = take i xs @ c # drop (Suc i) xs"
  by (metis id_take_nth_drop str_find_Some)

section \<open>Decimal numerals\<close>

text \<open>\<open>std::to_string\<close> and \<open>operator<<\<close> on unsigned and signed integers.\<close>

definition digit_char :: "nat \<Rightarrow> char" where
  "digit_char d = char_of (48 + d)"

definition is_digit :: "char \<Rightarrow> bool" where
  "is_digit c \<longleftrightarrow> 48 \<le> (of_char c :: nat) \<and> (of_char c :: nat) \<le> 57"

definition digit_val :: "char \<Rightarrow> nat" where
  "digit_val c = of_char c - 48"

fun dec :: "nat \<Rightarrow> string" where
  "dec n = (if n < 10 then [digit_char n] else dec (n div 10) @ [digit_char (n mod 10)])"

declare dec.simps [simp del]

definition dec_int :: "int \<Rightarrow> string" where
  "dec_int i = (if i < 0 then CHR ''-'' # dec (nat (- i)) else dec (nat i))"

definition digits_val :: "string \<Rightarrow> nat" where
  "digits_val ds = foldl (\<lambda>acc c. 10 * acc + digit_val c) 0 ds"

lemma of_char_digit_char [simp]: "d < 10 \<Longrightarrow> (of_char (digit_char d) :: nat) = 48 + d"
  by (simp add: digit_char_def)

lemma is_digit_digit_char [simp]: "d < 10 \<Longrightarrow> is_digit (digit_char d)"
  by (simp add: is_digit_def)

lemma digit_val_digit_char [simp]: "d < 10 \<Longrightarrow> digit_val (digit_char d) = d"
  by (simp add: digit_val_def)

lemma digits_val_snoc [simp]: "digits_val (ds @ [c]) = 10 * digits_val ds + digit_val c"
  by (simp add: digits_val_def)

lemma digits_val_Nil [simp]: "digits_val [] = 0"
  by (simp add: digits_val_def)

lemma dec_induct [case_names small large]:
  assumes "\<And>n. n < 10 \<Longrightarrow> P n" and "\<And>n. 10 \<le> n \<Longrightarrow> P (n div 10) \<Longrightarrow> P n"
  shows "P (n::nat)"
proof (induction n rule: dec.induct)
  case (1 n)
  then show ?case using assms by (cases "n < 10") auto
qed

lemma dec_small: "n < 10 \<Longrightarrow> dec n = [digit_char n]"
  by (simp add: dec.simps)

lemma dec_large: "10 \<le> n \<Longrightarrow> dec n = dec (n div 10) @ [digit_char (n mod 10)]"
  by (subst dec.simps) simp

lemma dec_not_Nil [simp]: "dec n \<noteq> []"
  by (subst dec.simps) simp

lemma digits_val_dec [simp]: "digits_val (dec n) = n"
  by (induction n rule: dec_induct) (simp_all add: dec_small dec_large digits_val_def)

lemma dec_inject [simp]: "dec m = dec n \<longleftrightarrow> m = n"
  by (metis digits_val_dec)

lemma dec_digits: "c \<in> set (dec n) \<Longrightarrow> is_digit c"
  by (induction n rule: dec_induct) (auto simp: dec_small dec_large)

lemma length_dec: "n < 10 ^ Suc k \<Longrightarrow> length (dec n) \<le> Suc k"
proof (induction k arbitrary: n)
  case 0
  then show ?case by (simp add: dec_small)
next
  case (Suc k)
  show ?case
  proof (cases "n < 10")
    case True
    then show ?thesis by (simp add: dec_small)
  next
    case False
    with Suc.prems have "n div 10 < 10 ^ Suc k" by auto
    then have "length (dec (n div 10)) \<le> Suc k" by (rule Suc.IH)
    with False show ?thesis by (simp add: dec_large)
  qed
qed

lemma dec_int_chars: "c \<in> set (dec_int i) \<Longrightarrow> is_digit c \<or> c = CHR ''-''"
  by (auto simp: dec_int_def dec_digits split: if_splits)

lemma not_digit_minus [simp]: "\<not> is_digit CHR ''-''"
  by (simp add: is_digit_def)

lemma hd_dec_not_minus: "hd (dec n) \<noteq> CHR ''-''"
  by (metis dec_digits dec_not_Nil hd_in_set not_digit_minus)

lemma dec_int_inject [simp]: "dec_int i = dec_int j \<longleftrightarrow> i = j"
proof -
  have "CHR ''-'' # dec m \<noteq> dec n" "dec n \<noteq> CHR ''-'' # dec m" for m n
    by (metis hd_dec_not_minus list.sel(1))+
  then show ?thesis
    by (auto simp: dec_int_def)
qed

section \<open>Little-endian encodings\<close>

fun le_enc :: "nat \<Rightarrow> nat \<Rightarrow> byte list" where
  "le_enc 0 v = []"
| "le_enc (Suc n) v = word_of_nat (v mod 256) # le_enc n (v div 256)"

primrec le_dec :: "byte list \<Rightarrow> nat" where
  "le_dec [] = 0"
| "le_dec (b # bs) = unat b + 256 * le_dec bs"

lemma length_le_enc [simp]: "length (le_enc n v) = n"
  by (induction n v rule: le_enc.induct) auto

lemma le_dec_enc: "v < 256 ^ n \<Longrightarrow> le_dec (le_enc n v) = v"
proof (induction n v rule: le_enc.induct)
  case (1 v)
  then show ?case by simp
next
  case (2 n v)
  from "2.prems" have "v div 256 < 256 ^ n"
    by (simp add: less_mult_imp_div_less mult.commute)
  with "2.IH" show ?case
    by (simp add: unat_of_nat)
qed

lemma le_enc_dec: "length bs = n \<Longrightarrow> le_enc n (le_dec bs) = bs"
proof (induction bs arbitrary: n)
  case Nil
  then show ?case by simp
next
  case (Cons b bs)
  have b: "unat b < 256" by (rule unat_less_u8)
  then have "(unat b + 256 * le_dec bs) mod 256 = unat b"
    and "(unat b + 256 * le_dec bs) div 256 = le_dec bs" by auto
  with Cons show ?case by auto
qed

lemma le_dec_less: "le_dec bs < 256 ^ length bs"
proof (induction bs)
  case Nil
  then show ?case by simp
next
  case (Cons b bs)
  have "unat b < 256" by (rule unat_less_u8)
  with Cons show ?case by simp
qed

end
