(* ===== verification/Cpp_Std.thy ===== *)
theory Cpp_Std
  imports Sensorhub_Prelude
begin

text \<open>
  The parts of the C++ standard library that the userspace sources call on text: character
  classification in the "C" locale, \<open>std::getline\<close>, \<open>std::stoi\<close> and \<open>std::stoul\<close> on the LP64
  data model (32-bit \<open>int\<close>, 64-bit \<open>unsigned long\<close>). Both conversions skip leading white space,
  accept one sign, read the longest run of decimal digits and ignore what follows it.
\<close>

section \<open>Characters and lines\<close>

definition isspace :: "char \<Rightarrow> bool" where
  "isspace c \<longleftrightarrow> (of_char c :: nat) = 32 \<or> 9 \<le> (of_char c :: nat) \<and> (of_char c :: nat) \<le> 13"

function getlines :: "string \<Rightarrow> string list" where
  "getlines [] = []"
| "getlines (c # cs) =
     takeWhile (\<lambda>x. x \<noteq> nl) (c # cs) # getlines (tl (dropWhile (\<lambda>x. x \<noteq> nl) (c # cs)))"
  by pat_completeness auto
termination
proof (relation "measure length")
  fix c :: char and cs :: string
  have "length (dropWhile (\<lambda>x. x \<noteq> nl) (c # cs)) \<le> length (c # cs)"
    by (rule length_dropWhile_le)
  then show "(tl (dropWhile (\<lambda>x. x \<noteq> nl) (c # cs)), c # cs) \<in> measure length"
    by (simp only: in_measure length_tl) simp
qed simp

declare getlines.simps(2) [simp del]

definition unlines :: "string list \<Rightarrow> string" where
  "unlines ls = concat (map (\<lambda>l. l @ [nl]) ls)"

lemma takeWhile_no_nl: "nl \<notin> set l \<Longrightarrow> takeWhile (\<lambda>x. x \<noteq> nl) (l @ nl # r) = l"
  by (induction l) auto

lemma dropWhile_no_nl: "nl \<notin> set l \<Longrightarrow> dropWhile (\<lambda>x. x \<noteq> nl) (l @ nl # r) = nl # r"
  by (induction l) auto

lemma getlines_line: "nl \<notin> set l \<Longrightarrow> getlines (l @ nl # r) = l # getlines r"
proof -
  assume l: "nl \<notin> set l"
  obtain c cs where eq: "l @ nl # r = c # cs" by (cases l) auto
  have "getlines (l @ nl # r) =
      takeWhile (\<lambda>x. x \<noteq> nl) (l @ nl # r) # getlines (tl (dropWhile (\<lambda>x. x \<noteq> nl) (l @ nl # r)))"
    unfolding eq by (rule getlines.simps(2))
  with l show ?thesis by (simp add: takeWhile_no_nl dropWhile_no_nl)
qed

lemma getlines_unlines: "\<forall>l \<in> set ls. nl \<notin> set l \<Longrightarrow> getlines (unlines ls) = ls"
  by (induction ls) (auto simp: unlines_def getlines_line)

lemma getlines_no_nl: "l \<in> set (getlines s) \<Longrightarrow> nl \<notin> set l"
proof (induction s rule: getlines.induct)
  case (2 c cs)
  then show ?case by (auto simp: getlines.simps(2) dest: set_takeWhileD split: if_splits)
qed simp

section \<open>Number conversion\<close>

fun scan_sign :: "string \<Rightarrow> bool \<times> string" where
  "scan_sign [] = (False, [])"
| "scan_sign (c # cs) =
     (if c = CHR ''-'' then (True, cs) else if c = CHR ''+'' then (False, cs) else (False, c # cs))"

definition scan_number :: "string \<Rightarrow> (bool \<times> nat) option" where
  "scan_number s =
     (let (neg, rest) = scan_sign (dropWhile isspace s); ds = takeWhile is_digit rest
      in if ds = [] then None else Some (neg, digits_val ds))"

definition stoi :: "string \<Rightarrow> int result" where
  "stoi s =
     (case scan_number s of
        None \<Rightarrow> Inl (Invalid_argument ''stoi'')
      | Some (neg, v) \<Rightarrow>
          (let i = (if neg then - int v else int v)
           in if - (2 ^ 31) \<le> i \<and> i < 2 ^ 31 then Inr i else Inl (Out_of_range ''stoi'')))"

definition stoul :: "string \<Rightarrow> u64 result" where
  "stoul s =
     (case scan_number s of
        None \<Rightarrow> Inl (Invalid_argument ''stoul'')
      | Some (neg, v) \<Rightarrow>
          (if 2 ^ 64 \<le> v then Inl (Out_of_range ''stoul'')
           else Inr (if neg then - word_of_nat v else word_of_nat v)))"

lemma digit_not_isspace: "is_digit c \<Longrightarrow> \<not> isspace c"
  by (auto simp: is_digit_def isspace_def)

lemma isspace_nl [simp]: "isspace nl"
  by (simp add: isspace_def)

lemma hd_dec_digit: "is_digit (hd (dec n))"
  using dec_digits [of "hd (dec n)" n] by (simp add: hd_in_set)

lemma scan_sign_digit: "is_digit c \<Longrightarrow> scan_sign (c # cs) = (False, c # cs)"
  by (auto simp: is_digit_def)

lemma takeWhile_digits:
  "(\<And>c. c \<in> set ds \<Longrightarrow> is_digit c) \<Longrightarrow> \<not> is_digit (hd (r @ [CHR '' ''])) \<Longrightarrow>
     takeWhile is_digit (ds @ r) = ds"
  by (induction ds) (auto simp: takeWhile_eq_Nil_iff split: list.splits)

lemma scan_number_dec: "\<not> is_digit (hd (r @ [CHR '' ''])) \<Longrightarrow> scan_number (dec n @ r) = Some (False, n)"
proof -
  assume r: "\<not> is_digit (hd (r @ [CHR '' '']))"
  obtain c cs where eq: "dec n = c # cs" by (cases "dec n") auto
  have c: "is_digit c" using hd_dec_digit [of n] eq by simp
  have "scan_sign (dropWhile isspace (dec n @ r)) = (False, dec n @ r)"
    using c by (simp add: eq digit_not_isspace scan_sign_digit del: scan_sign.simps)
  moreover have "takeWhile is_digit (dec n @ r) = dec n"
    by (rule takeWhile_digits [OF dec_digits r])
  ultimately show ?thesis by (simp add: scan_number_def)
qed

lemma not_digit_blank [simp]: "\<not> is_digit CHR '' ''"
  by (simp add: is_digit_def)

lemma scan_number_dec0 [simp]: "scan_number (dec n) = Some (False, n)"
  using scan_number_dec [of "[]" n] by simp

lemma stoul_dec: "n < 2 ^ 64 \<Longrightarrow> stoul (dec n) = Inr (word_of_nat n)"
  by (simp add: stoul_def)

lemma stoi_dec: "n < 2 ^ 31 \<Longrightarrow> stoi (dec n) = Inr (int n)"
  by (simp add: stoi_def)

lemma takeWhile_dec: "takeWhile is_digit (dec n) = dec n"
  by (auto simp: takeWhile_eq_all_conv dest: dec_digits)

lemma scan_number_minus_dec: "scan_number (CHR ''-'' # dec n) = Some (True, n)"
  by (simp add: scan_number_def isspace_def takeWhile_dec)

lemma stoul_minus_dec: "n < 2 ^ 64 \<Longrightarrow> stoul (CHR ''-'' # dec n) = Inr (- word_of_nat n)"
  by (simp add: stoul_def scan_number_minus_dec)

lemma stoi_range: "stoi s = Inr i \<Longrightarrow> - (2 ^ 31) \<le> i \<and> i < 2 ^ 31"
  by (auto simp: stoi_def Let_def split: option.splits prod.splits if_splits)

lemma sint_stoi: "stoi v = Inr n \<Longrightarrow> sint (word_of_int n :: s32) = n"
  using stoi_range [of v n] by (simp add: signed_of_int signed_take_bit_int_eq_self)

end
