(* ===== verification/Config.thy ===== *)
theory Config
  imports Cpp_Std
begin

text \<open>
  The configuration reader, \<open>userspace/src/config/config.cpp\<close> with its header. A file system is an
  argument \<open>fs\<close> from paths to file contents (\<open>None\<close>: the file cannot be opened).
\<close>

section \<open>Data\<close>

record AppConfig =
  device_path :: string
  log_file :: string
  control_socket :: string
  udp_export_host :: string
  tcp_listen_port :: u16
  udp_export_port :: u16
  worker_threads :: u64
  log_rotate_bytes :: u64
  queue_capacity :: u64
  simulate_device :: bool
  sensor_interval_ms :: u32

definition default_config :: AppConfig where
  "default_config = \<lparr>
     device_path = ''/dev/sensorhub0'', log_file = ''logs/sensorhub.log'',
     control_socket = ''run/sensorhub.sock'', udp_export_host = ''127.0.0.1'',
     tcp_listen_port = 9090, udp_export_port = 9091, worker_threads = 2,
     log_rotate_bytes = 1024 * 1024, queue_capacity = 1024, simulate_device = False,
     sensor_interval_ms = 500\<rparr>"

section \<open>Operations\<close>

definition trim :: "string \<Rightarrow> string" where
  "trim value = rev (dropWhile isspace (rev (dropWhile isspace value)))"

definition to_bool :: "string \<Rightarrow> bool" where
  "to_bool value \<longleftrightarrow> value = ''1'' \<or> value = ''true'' \<or> value = ''yes'' \<or> value = ''on''"

definition to_port :: "string \<Rightarrow> u16 result" where
  "to_port value = bindR (stoi value) (\<lambda>port.
     if port \<le> 0 \<or> port > 65535 then Inl (Runtime_error (''invalid port: '' @ value))
     else Inr (word_of_int port))"

definition apply_key :: "string \<Rightarrow> string \<Rightarrow> AppConfig \<Rightarrow> AppConfig result" where
  "apply_key key value config =
     (if key = ''device_path'' then Inr (config\<lparr>device_path := value\<rparr>)
      else if key = ''log_file'' then Inr (config\<lparr>log_file := value\<rparr>)
      else if key = ''control_socket'' then Inr (config\<lparr>control_socket := value\<rparr>)
      else if key = ''udp_export_host'' then Inr (config\<lparr>udp_export_host := value\<rparr>)
      else if key = ''tcp_listen_port'' then
        bindR (to_port value) (\<lambda>p. Inr (config\<lparr>tcp_listen_port := p\<rparr>))
      else if key = ''udp_export_port'' then
        bindR (to_port value) (\<lambda>p. Inr (config\<lparr>udp_export_port := p\<rparr>))
      else if key = ''worker_threads'' then
        bindR (stoul value) (\<lambda>n. Inr (config\<lparr>worker_threads := n\<rparr>))
      else if key = ''log_rotate_bytes'' then
        bindR (stoul value) (\<lambda>n. Inr (config\<lparr>log_rotate_bytes := n\<rparr>))
      else if key = ''queue_capacity'' then
        bindR (stoul value) (\<lambda>n. Inr (config\<lparr>queue_capacity := n\<rparr>))
      else if key = ''simulate_device'' then Inr (config\<lparr>simulate_device := to_bool value\<rparr>)
      else if key = ''sensor_interval_ms'' then
        bindR (stoul value) (\<lambda>n. Inr (config\<lparr>sensor_interval_ms := ucast n\<rparr>))
      else Inr config)"

definition strip_comment :: "string \<Rightarrow> string" where
  "strip_comment line =
     (case str_find CHR ''#'' line of Some comment \<Rightarrow> take comment line | None \<Rightarrow> line)"

definition config_line :: "nat \<Rightarrow> string \<Rightarrow> AppConfig \<Rightarrow> AppConfig result" where
  "config_line line_no raw config =
     (let line = trim (strip_comment raw) in
      if line = [] then Inr config
      else case str_find CHR ''='' line of
             None \<Rightarrow> Inl (Runtime_error (''invalid config line '' @ dec line_no))
           | Some pos \<Rightarrow> apply_key (trim (take pos line)) (trim (drop (pos + 1) line)) config)"

fun load_lines :: "nat \<Rightarrow> string list \<Rightarrow> AppConfig \<Rightarrow> AppConfig result" where
  "load_lines line_no [] config = Inr config"
| "load_lines line_no (line # rest) config =
     bindR (config_line (line_no + 1) line config) (load_lines (line_no + 1) rest)"

definition load_config_file :: "(string \<Rightarrow> string option) \<Rightarrow> string \<Rightarrow> AppConfig result" where
  "load_config_file fs path =
     (case fs path of
        None \<Rightarrow> Inl (Runtime_error (''cannot open config file: '' @ path))
      | Some text \<Rightarrow>
          bindR (load_lines 0 (getlines text) default_config) (\<lambda>config.
            if worker_threads config = 0
            then Inl (Runtime_error ''worker_threads must be greater than 0'')
            else if queue_capacity config = 0
            then Inl (Runtime_error ''queue_capacity must be greater than 0'')
            else Inr config))"

section \<open>Trimming and ports\<close>

lemma trim_Nil [simp]: "trim [] = []"
  by (simp add: trim_def)

lemma dropWhile_id: "xs = [] \<or> \<not> P (hd xs) \<Longrightarrow> dropWhile P xs = xs"
  by (cases xs) auto

lemma trim_id: "s = [] \<or> (\<not> isspace (hd s) \<and> \<not> isspace (last s)) \<Longrightarrow> trim s = s"
  by (auto simp: trim_def dropWhile_id hd_rev)

lemma last_dropWhile: "dropWhile P xs \<noteq> [] \<Longrightarrow> last (dropWhile P xs) = last xs"
  by (induction xs) auto

lemma trim_ends: "trim s \<noteq> [] \<Longrightarrow> \<not> isspace (hd (trim s)) \<and> \<not> isspace (last (trim s))"
proof -
  define d where "d = dropWhile isspace s"
  define e where "e = dropWhile isspace (rev d)"
  have t: "trim s = rev e" by (simp add: trim_def d_def e_def)
  assume "trim s \<noteq> []"
  then have e: "e \<noteq> []" by (simp add: t)
  then have "\<not> isspace (hd e)" unfolding e_def using hd_dropWhile by blast
  moreover have "last e = last (rev d)"
    using e unfolding e_def by (rule last_dropWhile)
  moreover have d: "d \<noteq> []" using e by (auto simp: e_def)
  then have "\<not> isspace (hd d)" unfolding d_def using hd_dropWhile by blast
  ultimately show ?thesis
    using e d by (simp add: t hd_rev last_rev)
qed

lemma trim_idem: "trim (trim s) = trim s"
  using trim_ends trim_id by blast

lemma to_port_cases:
  "to_port s =
     (case stoi s of Inl e \<Rightarrow> Inl e
      | Inr p \<Rightarrow> if 1 \<le> p \<and> p \<le> 65535 then Inr (word_of_int p)
                 else Inl (Runtime_error (''invalid port: '' @ s)))"
  by (auto simp: to_port_def split: sum.splits)

lemma to_port_value: "to_port s = Inr p \<Longrightarrow> \<exists>i. stoi s = Inr i \<and> 1 \<le> i \<and> i \<le> 65535 \<and> uint p = i"
  by (auto simp: to_port_def take_bit_int_eq_self_iff uint_word_of_int split: if_splits)

lemma to_port_nonzero: "to_port s = Inr p \<Longrightarrow> p \<noteq> 0"
  by (auto dest!: to_port_value)

lemma to_port_dec: "1 \<le> n \<Longrightarrow> n \<le> 65535 \<Longrightarrow> to_port (dec n) = Inr (word_of_nat n)"
  by (simp add: to_port_def stoi_dec)

section \<open>Well-formed configurations\<close>

definition ports_set :: "AppConfig \<Rightarrow> bool" where
  "ports_set c \<longleftrightarrow> tcp_listen_port c \<noteq> 0 \<and> udp_export_port c \<noteq> 0"

definition config_ok :: "AppConfig \<Rightarrow> bool" where
  "config_ok c \<longleftrightarrow> ports_set c \<and> worker_threads c \<noteq> 0 \<and> queue_capacity c \<noteq> 0"

lemma ports_set_default: "ports_set default_config"
  by (simp add: ports_set_def default_config_def)

lemma apply_key_ports_set [inv_intros]:
  "apply_key k v c = Inr c' \<Longrightarrow> ports_set c \<Longrightarrow> ports_set c'"
  by (auto simp: apply_key_def ports_set_def dest: to_port_nonzero split: if_splits)

lemma config_line_ports_set [inv_intros]:
  "config_line n l c = Inr c' \<Longrightarrow> ports_set c \<Longrightarrow> ports_set c'"
  by (auto simp: config_line_def Let_def split: if_splits option.splits intro: inv_intros)

lemma load_lines_ports_set [inv_intros]:
  "load_lines n ls c = Inr c' \<Longrightarrow> ports_set c \<Longrightarrow> ports_set c'"
  by (induction n ls c rule: load_lines.induct) (auto intro: inv_intros)

lemma load_config_file_Inr:
  "load_config_file fs path = Inr c \<longleftrightarrow>
     (\<exists>text. fs path = Some text \<and> load_lines 0 (getlines text) default_config = Inr c \<and>
        worker_threads c \<noteq> 0 \<and> queue_capacity c \<noteq> 0)"
  by (auto simp: load_config_file_def split: option.splits if_splits)

lemma load_config_file_ok: "load_config_file fs path = Inr c \<Longrightarrow> config_ok c"
  using ports_set_default by (auto simp: load_config_file_Inr config_ok_def intro: inv_intros)

section \<open>Reading back a written configuration\<close>

text \<open>
  A reference writer in the format of \<open>config/sensorhub.conf\<close> (one \<open>key=value\<close> line per field).
  Strings are written verbatim, so a string that the reader cannot return (with a comment sign, a
  line break or surrounding blanks) is not clean.
\<close>

definition clean :: "string \<Rightarrow> bool" where
  "clean s \<longleftrightarrow> CHR ''#'' \<notin> set s \<and> nl \<notin> set s \<and> trim s = s"

definition setting :: "string \<Rightarrow> string \<Rightarrow> string" where
  "setting key value = key @ CHR ''='' # value"

definition render_config :: "AppConfig \<Rightarrow> string list" where
  "render_config c = [
     setting ''device_path'' (device_path c),
     setting ''log_file'' (log_file c),
     setting ''control_socket'' (control_socket c),
     setting ''udp_export_host'' (udp_export_host c),
     setting ''tcp_listen_port'' (dec (unat (tcp_listen_port c))),
     setting ''udp_export_port'' (dec (unat (udp_export_port c))),
     setting ''worker_threads'' (dec (unat (worker_threads c))),
     setting ''log_rotate_bytes'' (dec (unat (log_rotate_bytes c))),
     setting ''queue_capacity'' (dec (unat (queue_capacity c))),
     setting ''simulate_device'' (if simulate_device c then ''true'' else ''false''),
     setting ''sensor_interval_ms'' (dec (unat (sensor_interval_ms c)))]"

definition clean_config :: "AppConfig \<Rightarrow> bool" where
  "clean_config c \<longleftrightarrow> clean (device_path c) \<and> clean (log_file c) \<and> clean (control_socket c) \<and>
     clean (udp_export_host c)"

definition key_chars :: "string \<Rightarrow> bool" where
  "key_chars k \<longleftrightarrow> k \<noteq> [] \<and> (\<forall>c \<in> set k. \<not> isspace c \<and> c \<noteq> CHR ''#'' \<and> c \<noteq> CHR ''='')"

lemma key_chars_hd: "key_chars k \<Longrightarrow> \<not> isspace (hd k)"
  by (simp add: key_chars_def)

lemma key_chars_trim: "key_chars k \<Longrightarrow> trim k = k"
  by (rule trim_id) (auto simp: key_chars_def)

lemma trim_setting:
  assumes "key_chars k" and "trim v = v"
  shows "trim (setting k v) = setting k v"
proof (rule trim_id, rule disjI2, rule conjI)
  from assms(1) show "\<not> isspace (hd (setting k v))"
    by (simp add: setting_def key_chars_def)
  show "\<not> isspace (last (setting k v))"
  proof (cases "v = []")
    case True
    then show ?thesis by (simp add: setting_def isspace_def)
  next
    case False
    with assms(2) trim_ends [of v] show ?thesis by (simp add: setting_def)
  qed
qed

lemma config_line_setting:
  assumes k: "key_chars k" and v: "CHR ''#'' \<notin> set v" "trim v = v"
  shows "config_line n (setting k v) c = apply_key k v c"
proof -
  have "CHR ''#'' \<notin> set (setting k v)"
    using k v by (auto simp: setting_def key_chars_def)
  then have "strip_comment (setting k v) = setting k v"
    by (simp add: strip_comment_def str_find_None [THEN iffD2])
  moreover have "str_find CHR ''='' (setting k v) = Some (length k)"
    using k by (auto simp: setting_def key_chars_def intro: str_find_prefix)
  moreover have "setting k v \<noteq> []" by (simp add: setting_def)
  ultimately show ?thesis
    using trim_setting [OF k v(2)] key_chars_trim [OF k] v(2)
    by (simp add: config_line_def) (simp add: setting_def)
qed

lemma clean_dec: "clean (dec n)"
proof -
  have d: "c \<in> set (dec n) \<Longrightarrow> \<not> isspace c \<and> c \<noteq> CHR ''#''" for c
    using dec_digits [of c n] digit_not_isspace [of c] by (auto simp: is_digit_def)
  then have "trim (dec n) = dec n"
    by (intro trim_id) auto
  with d isspace_nl show ?thesis
    unfolding clean_def by blast
qed

lemma config_line_clean:
  "key_chars k \<Longrightarrow> clean v \<Longrightarrow> config_line n (setting k v) c = apply_key k v c"
  by (rule config_line_setting) (auto simp: clean_def)

lemma clean_bool: "clean (if b then ''true'' else ''false'')"
  by (simp add: clean_def trim_def isspace_def)

lemma nl_notin_setting: "key_chars k \<Longrightarrow> clean v \<Longrightarrow> nl \<notin> set (setting k v)"
  using isspace_nl unfolding setting_def key_chars_def clean_def by fastforce

lemma render_keys:
  "key_chars ''device_path''" "key_chars ''log_file''" "key_chars ''control_socket''"
  "key_chars ''udp_export_host''" "key_chars ''tcp_listen_port''" "key_chars ''udp_export_port''"
  "key_chars ''worker_threads''" "key_chars ''log_rotate_bytes''" "key_chars ''queue_capacity''"
  "key_chars ''simulate_device''" "key_chars ''sensor_interval_ms''"
  by (simp_all add: key_chars_def isspace_def)

lemmas config_line_render =
  config_line_clean [OF render_keys(1)] config_line_clean [OF render_keys(2)]
  config_line_clean [OF render_keys(3)] config_line_clean [OF render_keys(4)]
  config_line_clean [OF render_keys(5) clean_dec] config_line_clean [OF render_keys(6) clean_dec]
  config_line_clean [OF render_keys(7) clean_dec] config_line_clean [OF render_keys(8) clean_dec]
  config_line_clean [OF render_keys(9) clean_dec] config_line_clean [OF render_keys(10) clean_bool]
  config_line_clean [OF render_keys(11) clean_dec]

lemma to_port_dec_unat: "p \<noteq> 0 \<Longrightarrow> to_port (dec (unat p)) = Inr p" for p :: u16
proof -
  assume "p \<noteq> 0"
  then have "0 < unat p" by (simp add: unat_gt_0)
  moreover have "unat p < 65536" by (rule unat_less_u16)
  ultimately show ?thesis using to_port_dec [of "unat p"] by simp
qed

lemma stoul_dec_unat: "stoul (dec (unat w)) = Inr w" for w :: u64
  using stoul_dec [of "unat w"] unat_less_u64 [of w] by simp

lemma stoul_dec_unat32: "stoul (dec (unat w)) = Inr (ucast w)" for w :: u32
proof -
  have "unat w < 2 ^ 64" using unat_less_u32 [of w] by simp
  then show ?thesis by (simp add: stoul_dec)
qed

lemma to_bool_render: "to_bool (if b then ''true'' else ''false'') = b"
  by (simp add: to_bool_def)

lemma load_lines_render:
  assumes "config_ok c" and "clean_config c"
  shows "load_lines n (render_config c) c0 = Inr c"
  using assms
  by (simp add: render_config_def clean_config_def config_ok_def ports_set_def
      config_line_render apply_key_def to_port_dec_unat stoul_dec_unat stoul_dec_unat32
      to_bool_render AppConfig.equality)

lemma render_no_nl: "clean_config c \<Longrightarrow> \<forall>l \<in> set (render_config c). nl \<notin> set l"
  by (simp add: render_config_def clean_config_def nl_notin_setting render_keys clean_dec
      clean_bool del: if_image_distrib)

section \<open>Comments and blank lines\<close>

definition ignorable :: "string \<Rightarrow> bool" where
  "ignorable line \<longleftrightarrow> trim (strip_comment line) = []"

lemma config_line_ignorable: "ignorable l \<Longrightarrow> config_line n l c = Inr c"
  by (simp add: ignorable_def config_line_def)

lemma config_line_number:
  "config_line n l c = Inr c' \<Longrightarrow> config_line m l c = Inr c'"
  by (auto simp: config_line_def Let_def split: if_splits option.splits)

lemma load_lines_filter:
  "load_lines n ls c = Inr c' \<longleftrightarrow> load_lines m (filter (\<lambda>l. \<not> ignorable l) ls) c = Inr c'"
proof (induction ls arbitrary: n m c)
  case Nil
  then show ?case by simp
next
  case (Cons l ls)
  show ?case
  proof (cases "ignorable l")
    case True
    then show ?thesis using Cons.IH [of "n + 1" c m] by (simp add: config_line_ignorable)
  next
    case False
    then show ?thesis
      using Cons.IH [of "n + 1" _ "m + 1"]
      by (auto intro: config_line_number)
  qed
qed

lemma strip_comment_append: "CHR ''#'' \<notin> set l \<Longrightarrow> strip_comment (l @ CHR ''#'' # r) = l"
  by (simp add: strip_comment_def str_find_prefix)

section \<open>Properties\<close>

lemma set_trim: "set (trim s) \<subseteq> set s"
  by (auto simp: trim_def dest!: set_dropWhileD)

lemma load_lines_append:
  "load_lines n (xs @ ys) c = bindR (load_lines n xs c) (load_lines (n + length xs) ys)"
proof (induction xs arbitrary: n c)
  case (Cons x xs)
  then show ?case by (cases "config_line (n + 1) x c") simp_all
qed simp

lemma load_config_single:
  assumes "clean v" "key_chars k" "nl \<notin> set k" "fs p = Some (unlines [setting k v])"
  shows "load_config_file fs p = bindR (apply_key k v default_config) (\<lambda>config.
    if worker_threads config = 0 then Inl (Runtime_error ''worker_threads must be greater than 0'')
    else if queue_capacity config = 0 then Inl (Runtime_error ''queue_capacity must be greater than 0'')
    else Inr config)"
proof -
  have "getlines (unlines [setting k v]) = [setting k v]"
    using assms by (intro getlines_unlines) (auto simp: nl_notin_setting)
  moreover have "load_lines n [setting k v] c = apply_key k v c" for n c
    using assms(1,2) by (cases "apply_key k v c") (simp_all add: config_line_clean)
  ultimately show ?thesis
    using assms(4) by (simp add: load_config_file_def del: load_lines.simps)
qed

text \<open>
  Property C31 (round trip). A configuration with usable values that is written in the documented
  \<open>key=value\<close> format is read back exactly: no field is lost, exchanged or altered.
\<close>

theorem config_roundtrip:
  assumes "config_ok c" and "clean_config c" and "fs p = Some (unlines (render_config c))"
  shows "load_config_file fs p = Inr c"
proof -
  have "getlines (unlines (render_config c)) = render_config c"
    by (rule getlines_unlines) (rule render_no_nl [OF assms(2)])
  with load_lines_render [OF assms(1,2), of 0 default_config] assms(1,3) show ?thesis
    by (simp add: load_config_file_Inr config_ok_def)
qed

theorem config_roundtrip_witness:
  "config_ok default_config \<and> clean_config default_config \<and>
   load_config_file (\<lambda>_. Some (unlines (render_config default_config))) ''sensorhub.conf'' =
     Inr default_config"
proof -
  have "config_ok default_config" "clean_config default_config"
    by (simp_all add: config_ok_def ports_set_def clean_config_def clean_def default_config_def
        trim_def isspace_def)
  with config_roundtrip [of default_config "\<lambda>_. Some (unlines (render_config default_config))"]
  show ?thesis by simp
qed

text \<open>
  Property C37 (validation). Whatever the file holds, a configuration that the reader accepts has at
  least one worker, a queue with room for at least one sample, and non-zero ports.
\<close>

theorem config_validated:
  assumes "load_config_file fs path = Inr c"
  shows "0 < unat (worker_threads c) \<and> 0 < unat (queue_capacity c) \<and>
    tcp_listen_port c \<noteq> 0 \<and> udp_export_port c \<noteq> 0"
  using load_config_file_ok [OF assms] by (simp add: config_ok_def ports_set_def unat_gt_0)

theorem config_validated_witness:
  "load_config_file (\<lambda>_. Some []) [] = Inr default_config \<and> 0 < unat (worker_threads default_config)"
proof -
  have "load_config_file (\<lambda>_. Some []) [] = Inr default_config"
    by (simp add: load_config_file_def default_config_def)
  with config_validated [OF this] show ?thesis by simp
qed

text \<open>
  Comments. Blank lines and comment lines never change what is read: a file is accepted
  with result \<open>c\<close> exactly when the file without them is.
\<close>

theorem config_comments_ignored:
  assumes "fs p = Some body"
    and "fs q = Some (unlines (filter (\<lambda>l. \<not> ignorable l) (getlines body)))"
  shows "load_config_file fs p = Inr c \<longleftrightarrow> load_config_file fs q = Inr c"
proof -
  have "getlines (unlines (filter (\<lambda>l. \<not> ignorable l) (getlines body))) =
      filter (\<lambda>l. \<not> ignorable l) (getlines body)"
    by (rule getlines_unlines) (auto dest: getlines_no_nl)
  with load_lines_filter [of 0 "getlines body" default_config c 0] assms show ?thesis
    by (simp add: load_config_file_Inr)
qed

theorem config_comments_ignored_witness:
  "load_config_file ((\<lambda>_. None)(''a'' \<mapsto> ''# note'' @ [nl], ''b'' \<mapsto> [])) ''a'' = Inr default_config"
proof -
  define fs where "fs = (\<lambda>_. None)(''a'' \<mapsto> ''# note'' @ [nl], ''b'' \<mapsto> [])"
  have "getlines (''# note'' @ [nl]) = [''# note'']"
    using getlines_line [of "''# note''" "[]"] by simp
  moreover have "ignorable ''# note''" by (simp add: ignorable_def strip_comment_def)
  ultimately have "load_config_file fs ''a'' = Inr default_config \<longleftrightarrow>
      load_config_file fs ''b'' = Inr default_config"
    by (intro config_comments_ignored [where body = "''# note'' @ [nl]"])
      (simp_all add: fs_def unlines_def)
  moreover have "load_config_file fs ''b'' = Inr default_config"
    by (simp add: fs_def load_config_file_def default_config_def)
  ultimately show ?thesis by (simp add: fs_def)
qed

text \<open>
  Malformed line. The first line that is neither blank nor an assignment is reported
  with its own number, counting from 1, and nothing after it is read.
\<close>

theorem config_bad_line:
  assumes "fs p = Some (unlines (pre @ bad # post))" and "\<forall>l \<in> set (pre @ bad # post). nl \<notin> set l"
    and "load_lines 0 pre default_config = Inr c0"
    and "\<not> ignorable bad" and "CHR ''='' \<notin> set (strip_comment bad)"
  shows "load_config_file fs p =
    Inl (Runtime_error (''invalid config line '' @ dec (length pre + 1)))"
proof -
  have "CHR ''='' \<notin> set (trim (strip_comment bad))"
    using assms(5) set_trim by blast
  then have "config_line (length pre + 1) bad c0 =
      Inl (Runtime_error (''invalid config line '' @ dec (length pre + 1)))"
    using assms(4) by (simp add: config_line_def ignorable_def str_find_None [THEN iffD2])
  then have "load_lines 0 (pre @ bad # post) default_config =
      Inl (Runtime_error (''invalid config line '' @ dec (length pre + 1)))"
    using assms(3) by (simp add: load_lines_append)
  with assms(1) getlines_unlines [OF assms(2)] show ?thesis
    by (simp add: load_config_file_def)
qed

theorem config_bad_line_witness:
  "load_config_file (\<lambda>_. Some (unlines [[], ''bogus''])) [] = Inl (Runtime_error ''invalid config line 2'')"
proof -
  have "load_config_file (\<lambda>_. Some (unlines [[], ''bogus''])) [] =
      Inl (Runtime_error (''invalid config line '' @ dec (length [[] :: string] + 1)))"
    by (rule config_bad_line [where pre = "[[]]" and bad = "''bogus''" and post = "[]" and ?c0.0 = default_config])
      (simp_all add: config_line_def strip_comment_def ignorable_def trim_def isspace_def)
  moreover have "dec (Suc (Suc 0)) = ''2''" by code_simp
  ultimately show ?thesis by simp
qed

text \<open>
  Narrowing. The sampling interval is read as a 64-bit number and then cut to 32 bits:
  every value below \<open>2^64\<close> is accepted, and the configuration holds its remainder modulo \<open>2^32\<close>.
\<close>

theorem config_interval_narrowed:
  assumes "n < 2 ^ 64" and "fs p = Some (unlines [setting ''sensor_interval_ms'' (dec n)])"
  shows "\<exists>c. load_config_file fs p = Inr c \<and> unat (sensor_interval_ms c) = n mod 2 ^ 32"
proof -
  have "load_config_file fs p = Inr (default_config\<lparr>sensor_interval_ms := ucast (word_of_nat n :: u64)\<rparr>)"
    using load_config_single [of "dec n" "''sensor_interval_ms''" fs p] clean_dec render_keys(11) assms
    by (simp add: apply_key_def stoul_dec) (simp add: default_config_def)
  moreover have "unat (ucast (word_of_nat n :: u64) :: u32) = n mod 2 ^ 32"
    using assms(1) by (simp add: unsigned_ucast_eq take_bit_eq_mod unat_of_nat)
  ultimately show ?thesis by simp
qed

theorem config_interval_narrowed_witness:
  "\<exists>c. load_config_file (\<lambda>_. Some (unlines [setting ''sensor_interval_ms'' (dec (2 ^ 32))])) [] = Inr c \<and>
     unat (sensor_interval_ms c) = 0"
  using config_interval_narrowed
    [of "2 ^ 32" "\<lambda>_. Some (unlines [setting ''sensor_interval_ms'' (dec (2 ^ 32))])" "[]"]
  by simp

end
