(* ===== verification/Logger.thy ===== *)
theory Logger
  imports Sensorhub_Prelude
begin

text \<open>
  The process logger, \<open>userspace/src/common/logger.cpp\<close>. Its output is the list of lines written to
  standard error; the broken-down local time that \<open>localtime_r\<close> gives for the moment of the call and the
  thread identifier come from the C++ library and are arguments. The levels are ordered as the enumeration of \<open>logger.hpp\<close> orders them.
\<close>

datatype LogLevel = Debug | Info | Warn | Error

primrec level_int :: "LogLevel \<Rightarrow> int" where
  "level_int Debug = 0"
| "level_int Info = 1"
| "level_int Warn = 2"
| "level_int Error = 3"

lemma level_int_inject [simp]: "level_int a = level_int b \<longleftrightarrow> a = b"
  by (cases a; cases b) simp_all

instantiation LogLevel :: linorder
begin

definition less_eq_LogLevel :: "LogLevel \<Rightarrow> LogLevel \<Rightarrow> bool" where
  "less_eq_LogLevel a b \<longleftrightarrow> level_int a \<le> level_int b"

definition less_LogLevel :: "LogLevel \<Rightarrow> LogLevel \<Rightarrow> bool" where
  "less_LogLevel a b \<longleftrightarrow> level_int a < level_int b"

instance
  by standard (auto simp: less_eq_LogLevel_def less_LogLevel_def)

end

primrec level_name :: "LogLevel \<Rightarrow> string" where
  "level_name Debug = ''DEBUG''"
| "level_name Info = ''INFO''"
| "level_name Warn = ''WARN''"
| "level_name Error = ''ERROR''"

text \<open>The fields of \<open>struct tm\<close> that the format \<open>%Y-%m-%d %H:%M:%S\<close> uses; \<open>tm_year\<close> counts from 1900, \<open>tm_mon\<close> from 0.\<close>

record tm =
  tm_year :: int
  tm_mon :: int
  tm_mday :: int
  tm_hour :: int
  tm_min :: int
  tm_sec :: int

definition two_digits :: "int \<Rightarrow> string" where
  "two_digits i = (if i < 10 then ''0'' else []) @ dec_int i"

definition now_string :: "tm \<Rightarrow> string" where
  "now_string t = dec_int (tm_year t + 1900) @ ''-'' @ two_digits (tm_mon t + 1) @ ''-'' @ two_digits (tm_mday t) @
     '' '' @ two_digits (tm_hour t) @ '':'' @ two_digits (tm_min t) @ '':'' @ two_digits (tm_sec t)"

record logger =
  level :: LogLevel
  err_lines :: "string list"

definition new_logger :: logger where
  "new_logger = \<lparr>level = Info, err_lines = []\<rparr>"

definition set_level :: "LogLevel \<Rightarrow> logger \<Rightarrow> logger" where
  "set_level l lg = lg\<lparr>level := l\<rparr>"

definition log :: "tm \<Rightarrow> string \<Rightarrow> LogLevel \<Rightarrow> string \<Rightarrow> logger \<Rightarrow> logger" where
  "log now tid l message lg =
     (if level_int l < level_int (level lg) then lg
      else lg\<lparr>err_lines := err_lines lg @
             [now_string now @ '' ['' @ level_name l @ '']'' @ '' [tid='' @ tid @ ''] '' @ message]\<rparr>)"

definition log_debug :: "tm \<Rightarrow> string \<Rightarrow> string \<Rightarrow> logger \<Rightarrow> logger" where
  "log_debug now tid message = log now tid Debug message"

definition log_info :: "tm \<Rightarrow> string \<Rightarrow> string \<Rightarrow> logger \<Rightarrow> logger" where
  "log_info now tid message = log now tid Info message"

definition log_warn :: "tm \<Rightarrow> string \<Rightarrow> string \<Rightarrow> logger \<Rightarrow> logger" where
  "log_warn now tid message = log now tid Warn message"

definition log_error :: "tm \<Rightarrow> string \<Rightarrow> string \<Rightarrow> logger \<Rightarrow> logger" where
  "log_error now tid message = log now tid Error message"

text \<open>A message appears exactly when its level reaches the threshold, one line per message.\<close>

type_synonym log_call = "LogLevel \<times> tm \<times> string \<times> string"

fun log_all :: "log_call list \<Rightarrow> logger \<Rightarrow> logger" where
  "log_all [] lg = lg"
| "log_all ((l, now, tid, m) # rest) lg = log_all rest (log now tid l m lg)"

fun log_line :: "log_call \<Rightarrow> string" where
  "log_line (l, now, tid, m) = now_string now @ '' ['' @ level_name l @ '']'' @ '' [tid='' @ tid @ ''] '' @ m"

lemma log_all_lines:
  "err_lines (log_all calls lg) =
     err_lines lg @ map log_line (filter (\<lambda>(l, _). level lg \<le> l) calls)"
proof (induction calls arbitrary: lg)
  case Nil
  then show ?case by simp
next
  case (Cons c calls)
  obtain l now tid m where c: "c = (l, now, tid, m)" by (metis prod_cases4)
  have "level (log now tid l m lg) = level lg" by (simp add: log_def)
  with Cons.IH [of "log now tid l m lg"] show ?case
    by (auto simp: c log_def less_eq_LogLevel_def not_le)
qed

section \<open>Time stamps\<close>

text \<open>The ranges that \<open>localtime_r\<close> guarantees, for years with four digits.\<close>

definition tm_ok :: "tm \<Rightarrow> bool" where
  "tm_ok t \<longleftrightarrow> tm_year t + 1900 \<in> {1000..9999} \<and> tm_mon t \<in> {0..11} \<and> tm_mday t \<in> {1..31} \<and>
     tm_hour t \<in> {0..23} \<and> tm_min t \<in> {0..59} \<and> tm_sec t \<in> {0..60}"

lemma length_dec_eq: "10 ^ k \<le> n \<Longrightarrow> n < 10 ^ Suc k \<Longrightarrow> length (dec n) = Suc k"
proof (induction k arbitrary: n)
  case 0
  then show ?case by (simp add: dec_small)
next
  case (Suc k)
  then have "10 ^ k \<le> n div 10" "n div 10 < 10 ^ Suc k"
    by (auto simp: less_mult_imp_div_less dest: div_le_mono [where k = 10])
  moreover have "10 \<le> n" using Suc.prems(1) order_trans [of 10 "10 * 10 ^ k" n] by simp
  ultimately show ?case using Suc.IH [of "n div 10"] by (simp add: dec_large)
qed

lemma length_two_digits:
  assumes "i \<in> {0..99}"
  shows "length (two_digits i) = 2"
proof (cases "i < 10")
  case True
  with assms show ?thesis by (simp add: two_digits_def dec_int_def dec_small)
next
  case False
  with assms have "length (dec (nat i)) = Suc 1" by (intro length_dec_eq) auto
  with False assms show ?thesis by (simp add: two_digits_def dec_int_def)
qed

lemma two_digits_inject:
  assumes "i \<in> {0..99}" "j \<in> {0..99}" "two_digits i = two_digits j"
  shows "i = j"
proof -
  have val: "digits_val (two_digits i) = nat i" if "i \<in> {0..99}" for i
    using that digits_val_dec [of "nat i"]
    by (cases "i < 10") (simp_all add: two_digits_def dec_int_def dec_small digits_val_def digit_val_def)
  from val [OF assms(1)] val [OF assms(2)] assms(3) have "nat i = nat j" by simp
  with assms(1,2) show ?thesis using eq_nat_nat_iff [of i j] by simp
qed

lemma length_year: "i \<in> {1000..9999} \<Longrightarrow> length (dec_int i) = 4"
  using length_dec_eq [of 3 "nat i"] by (simp add: dec_int_def nat_le_eq_zle [of 1000, simplified] nat_less_iff)

section \<open>Properties\<close>

text \<open>
  Level filter. The logger writes one line for every call whose level is at least the
  threshold, in call order, and nothing for the others.
\<close>

theorem logger_filters:
  "err_lines (log_all calls (set_level l new_logger)) =
     map log_line (filter (\<lambda>(k, _). l \<le> k) calls)"
  using log_all_lines [of calls "set_level l new_logger"] by (simp add: set_level_def new_logger_def)

text \<open>
  Time stamps. The stamp of a log line has 19 characters and determines the time to the second.
\<close>

theorem now_string_faithful:
  assumes "tm_ok t" "tm_ok u"
  shows "length (now_string t) = 19 \<and> (now_string t = now_string u \<longleftrightarrow> t = u)"
proof -
  have len: "length (dec_int (tm_year x + 1900)) = 4" "length (two_digits (tm_mon x + 1)) = 2"
    "length (two_digits (tm_mday x)) = 2" "length (two_digits (tm_hour x)) = 2"
    "length (two_digits (tm_min x)) = 2" "length (two_digits (tm_sec x)) = 2" if "tm_ok x" for x
    using that by (auto simp: tm_ok_def intro!: length_year length_two_digits)
  have "t = u" if "now_string t = now_string u"
  proof -
    have "dec_int (tm_year t + 1900) = dec_int (tm_year u + 1900) \<and> two_digits (tm_mon t + 1) = two_digits (tm_mon u + 1) \<and>
        two_digits (tm_mday t) = two_digits (tm_mday u) \<and> two_digits (tm_hour t) = two_digits (tm_hour u) \<and>
        two_digits (tm_min t) = two_digits (tm_min u) \<and> two_digits (tm_sec t) = two_digits (tm_sec u)"
      using that len [OF assms(1)] len [OF assms(2)] by (simp add: now_string_def)
    then have "tm_year t = tm_year u" "tm_mon t + 1 = tm_mon u + 1" "tm_mday t = tm_mday u" "tm_hour t = tm_hour u"
        "tm_min t = tm_min u" "tm_sec t = tm_sec u"
      using assms two_digits_inject [of "tm_mon t + 1" "tm_mon u + 1"] by (auto simp: tm_ok_def intro: two_digits_inject)
    then show ?thesis by simp
  qed
  with len [OF assms(1)] show ?thesis by (auto simp: now_string_def)
qed

end
