(* ===== verification/Epoll_Loop.thy ===== *)
theory Epoll_Loop
  imports Sensorhub_Prelude
begin

text \<open>
  The reactor \<open>userspace/src/reactor/epoll_loop.cpp\<close>. \<open>callbacks\<close> is the callback table; a C++
  closure is represented by a value of \<open>callback\<close> that says which closure of the program it is.
  \<open>interest\<close> is the interest list of the epoll instance as the successful \<open>epoll_ctl\<close> calls leave
  it. The answer of \<open>epoll_ctl\<close> is an argument (\<open>None\<close>: success). After \<open>EPOLL_CTL_DEL\<close> the
  descriptor is not in the interest list whatever the call answers (it fails only for a descriptor
  that is not there), so \<open>remove\<close> takes no answer.
\<close>

unbundle bit_operations_syntax

definition EPOLLIN :: u32 where "EPOLLIN = 0x001"
definition EPOLLOUT :: u32 where "EPOLLOUT = 0x004"
definition EPOLLERR :: u32 where "EPOLLERR = 0x008"
definition EPOLLHUP :: u32 where "EPOLLHUP = 0x010"
definition EPOLLRDHUP :: u32 where "EPOLLRDHUP = 0x2000"

definition broken :: "u32 \<Rightarrow> bool" where
  "broken events \<longleftrightarrow> events AND (EPOLLERR OR EPOLLHUP) \<noteq> 0"

text \<open>The closures that \<open>main.cpp\<close> and \<open>ControlServer::add_client\<close> register.\<close>

datatype callback =
    Source_cb | Signal_cb | Control_accept_cb | Tcp_accept_cb | Client_cb fd

record epoll_loop =
  epoll_fd :: fd
  interest :: "fd \<Rightarrow> u32 option"
  callbacks :: "fd \<Rightarrow> callback option"

definition new_epoll_loop :: "errno + fd \<Rightarrow> epoll_loop result" where
  "new_epoll_loop create_res =
     (case create_res of
        Inl e \<Rightarrow> Inl (Sys_error ''epoll_create1'' e)
      | Inr f \<Rightarrow> Inr \<lparr>epoll_fd = f, interest = Map.empty, callbacks = Map.empty\<rparr>)"

definition add :: "errno option \<Rightarrow> fd \<Rightarrow> u32 \<Rightarrow> callback \<Rightarrow> epoll_loop \<Rightarrow> unit result \<times> epoll_loop" where
  "add ctl_err f events cb l =
     (case ctl_err of
        Some e \<Rightarrow> (Inl (Sys_error ''epoll_ctl ADD'' e), l)
      | None \<Rightarrow> (Inr (), l\<lparr>interest := (interest l)(f \<mapsto> events),
                            callbacks := (callbacks l)(f \<mapsto> cb)\<rparr>))"

definition modify :: "errno option \<Rightarrow> fd \<Rightarrow> u32 \<Rightarrow> epoll_loop \<Rightarrow> unit result \<times> epoll_loop" where
  "modify ctl_err f events l =
     (case ctl_err of
        Some e \<Rightarrow> (Inl (Sys_error ''epoll_ctl MOD'' e), l)
      | None \<Rightarrow> (Inr (), l\<lparr>interest := (interest l)(f \<mapsto> events)\<rparr>))"

definition remove :: "fd \<Rightarrow> epoll_loop \<Rightarrow> epoll_loop" where
  "remove f l = l\<lparr>interest := (interest l)(f := None), callbacks := (callbacks l)(f := None)\<rparr>"

section \<open>Dispatch\<close>

text \<open>
  \<open>run_once\<close> works on any program state \<open>'s\<close> that contains the loop: \<open>get\<close> reads it, \<open>invoke\<close>
  runs a callback with the event mask and the answers \<open>'io\<close> of the system calls that it makes; its
  result is \<open>None\<close> when these answers end before the callback returns. The table is looked up again
  for every event, since a callback may remove descriptors.
\<close>

type_synonym ('s, 'io) invoker = "callback \<Rightarrow> u32 \<Rightarrow> 'io \<Rightarrow> 's \<Rightarrow> (unit result \<times> 's) option"

datatype 'io wait_answer = Wait_events "(fd \<times> u32 \<times> 'io) list" | Wait_err errno

fun dispatch :: "('s \<Rightarrow> epoll_loop) \<Rightarrow> ('s, 'io) invoker \<Rightarrow> (fd \<times> u32 \<times> 'io) list \<Rightarrow> 's \<Rightarrow>
    (unit result \<times> 's) option" where
  "dispatch get invoke [] s = Some (Inr (), s)"
| "dispatch get invoke ((f, events, io) # rest) s =
     (case callbacks (get s) f of
        None \<Rightarrow> dispatch get invoke rest s
      | Some cb \<Rightarrow>
          (case invoke cb events io s of
             None \<Rightarrow> None
           | Some (Inl e, s') \<Rightarrow> Some (Inl e, s')
           | Some (Inr _, s') \<Rightarrow> dispatch get invoke rest s'))"

definition run_once :: "('s \<Rightarrow> epoll_loop) \<Rightarrow> ('s, 'io) invoker \<Rightarrow> 'io wait_answer \<Rightarrow> 's \<Rightarrow>
    (unit result \<times> 's) option" where
  "run_once get invoke ans s =
     (case ans of
        Wait_err e \<Rightarrow> Some (if e = EINTR then Inr () else Inl (Sys_error ''epoll_wait'' e), s)
      | Wait_events evs \<Rightarrow> dispatch get invoke evs s)"

section \<open>What callbacks promise, what the loop delivers\<close>

text \<open>
  The contract between the loop and its callbacks: \<open>io_ok\<close> says what the operating system guarantees
  about the answers (for example that a new descriptor is not in use); under it every callback keeps
  the invariant.
\<close>

locale reactor =
  fixes get :: "'s \<Rightarrow> epoll_loop"
    and invoke :: "('s, 'io) invoker"
    and inv :: "'s \<Rightarrow> bool"
    and io_ok :: "callback \<Rightarrow> 'io \<Rightarrow> 's \<Rightarrow> bool"
  assumes invoke_inv: "inv s \<Longrightarrow> callbacks (get s) f = Some cb \<Longrightarrow> io_ok cb io s \<Longrightarrow>
      invoke cb events io s = Some (r, s') \<Longrightarrow> inv s'"
begin

inductive served :: "(fd \<times> u32 \<times> 'io) list \<Rightarrow> 's \<Rightarrow> bool" where
  served_Nil: "served [] s"
| served_skip: "callbacks (get s) f = None \<Longrightarrow> served rest s \<Longrightarrow> served ((f, ev, io) # rest) s"
| served_call: "callbacks (get s) f = Some cb \<Longrightarrow> io_ok cb io s \<Longrightarrow>
     (\<And>s'. invoke cb ev io s = Some (Inr (), s') \<Longrightarrow> served rest s') \<Longrightarrow> served ((f, ev, io) # rest) s"

lemma dispatch_inv:
  "served evs s \<Longrightarrow> inv s \<Longrightarrow> dispatch get invoke evs s = Some (r, s') \<Longrightarrow> inv s'"
proof (induction rule: served.induct)
  case (served_call s f cb io ev rest)
  obtain r1 s1 where i: "invoke cb ev io s = Some (r1, s1)"
    using served_call by (auto split: option.splits)
  then have "inv s1" using served_call by (blast intro: invoke_inv)
  with served_call i show ?case by (cases r1) auto
qed simp_all

lemma run_once_inv:
  "(\<And>evs. ans = Wait_events evs \<Longrightarrow> served evs s) \<Longrightarrow> inv s \<Longrightarrow>
     run_once get invoke ans s = Some (r, s') \<Longrightarrow> inv s'"
  by (cases ans) (auto simp: run_once_def intro: dispatch_inv)

end

text \<open>
  An event for a descriptor that has no callback any more is skipped: in particular one whose
  callback was removed by an earlier callback of the same batch.
\<close>

lemma dispatch_removed:
  "callbacks (get s) f = None \<Longrightarrow> dispatch get invoke ((f, ev, io) # rest) s = dispatch get invoke rest s"
  by simp

lemma callbacks_add: "add None f ev cb l = (Inr (), l') \<Longrightarrow> callbacks l' = (callbacks l)(f \<mapsto> cb)"
  by (auto simp: add_def)

lemma add_cases:
  obtains (ok) "ctl_err = None"
      "add ctl_err f ev cb l = (Inr (), l\<lparr>interest := (interest l)(f \<mapsto> ev), callbacks := (callbacks l)(f \<mapsto> cb)\<rparr>)"
    | (err) e where "ctl_err = Some e" "add ctl_err f ev cb l = (Inl (Sys_error ''epoll_ctl ADD'' e), l)"
  by (cases ctl_err) (auto simp: add_def)

lemma callbacks_modify [simp]: "callbacks (snd (modify ctl_err f ev l)) = callbacks l"
  by (simp add: modify_def split: option.splits)

lemma callbacks_remove [simp]: "callbacks (remove f l) = (callbacks l)(f := None)"
  by (simp add: remove_def)

lemma interest_remove [simp]: "interest (remove f l) = (interest l)(f := None)"
  by (simp add: remove_def)

end
