(* ===== verification/Control_Server.thy ===== *)
theory Control_Server
  imports Epoll_Loop "HOL-Library.AList"
begin

text \<open>
  The control connections, \<open>userspace/src/net/control_server.cpp\<close> with its header. \<open>clients\<close> is the
  \<open>unordered_map\<close> from descriptors to connections as an association list, \<open>loop\<close> is the reactor
  that the server refers to. Two components of the state record what the operating system sees:
  \<open>wire\<close> the bytes that \<open>send\<close> accepted on each descriptor since its connection was added, and
  \<open>closed_fds\<close> the descriptors closed by the \<open>UniqueFd\<close> of an erased connection.

  The command handler is an argument: it maps a command and the state of the rest of the program to
  a reply (or an exception) and a new state.

  The answers of the non-blocking \<open>recv\<close>, \<open>send\<close> and \<open>accept4\<close> calls come as lists, one element
  per call. A result \<open>None\<close> means that the list ended before the operation returned; the theorems
  on termination say which lists are long enough.
\<close>

section \<open>State\<close>

record client =
  request :: string
  response :: string
  sent :: nat
  responding :: bool

record control_server =
  loop :: epoll_loop
  clients :: "(fd \<times> client) list"
  wire :: "fd \<Rightarrow> string"
  closed_fds :: "fd list"

type_synonym 'a handler = "string \<Rightarrow> 'a \<Rightarrow> string result \<times> 'a"

definition new_client :: client where
  "new_client = \<lparr>request = [], response = [], sent = 0, responding = False\<rparr>"

definition new_control_server :: "epoll_loop \<Rightarrow> control_server" where
  "new_control_server l = \<lparr>loop = l, clients = [], wire = (\<lambda>_. []), closed_fds = []\<rparr>"

section \<open>Operations\<close>

definition close_client :: "fd \<Rightarrow> control_server \<Rightarrow> control_server" where
  "close_client f s = s\<lparr>loop := remove f (loop s), clients := AList.delete f (clients s),
     closed_fds := closed_fds s @ [f]\<rparr>"

definition add_client :: "errno option \<Rightarrow> fd \<Rightarrow> control_server \<Rightarrow> unit result \<times> control_server" where
  "add_client ctl_err f s =
     (if length (clients s) \<ge> 64 then (Inr (), s\<lparr>closed_fds := closed_fds s @ [f]\<rparr>)
      else
        let s1 = (case map_of (clients s) f of
                    None \<Rightarrow> s\<lparr>clients := (f, new_client) # clients s, wire := (wire s)(f := [])\<rparr>
                  | Some _ \<Rightarrow> s\<lparr>closed_fds := closed_fds s @ [f]\<rparr>)
        in case add ctl_err f (EPOLLIN OR EPOLLRDHUP) (Client_cb f) (loop s1) of
             (Inr _, l) \<Rightarrow> (Inr (), s1\<lparr>loop := l\<rparr>)
           | (Inl e, l) \<Rightarrow> (Inl e, s1\<lparr>loop := l, clients := AList.delete f (clients s1),
                               closed_fds := closed_fds s1 @ [f]\<rparr>))"

datatype accept_answer = Accepted fd "errno option" | Accept_err errno

fun accept_ready :: "accept_answer list \<Rightarrow> control_server \<Rightarrow> (unit result \<times> control_server) option" where
  "accept_ready [] s = None"
| "accept_ready (Accept_err e # rest) s =
     (if e = EINTR then accept_ready rest s
      else if e = EAGAIN then Some (Inr (), s)
      else Some (Inl (Sys_error ''accept control client'' e), s))"
| "accept_ready (Accepted f ctl_err # rest) s =
     (case add_client ctl_err f s of
        (Inl e, s') \<Rightarrow> Some (Inl e, s')
      | (Inr _, s') \<Rightarrow> accept_ready rest s')"

datatype recv_outcome = Keep | Hang_up | Respond

fun recv_loop :: "'a handler \<Rightarrow> u32 \<Rightarrow> char io_in list \<Rightarrow> client \<Rightarrow> 'a \<Rightarrow>
    (recv_outcome \<times> client \<times> 'a) option" where
  "recv_loop h events [] c a = None"
| "recv_loop h events (In_err e # rest) c a =
     (if e = EINTR then recv_loop h events rest c a
      else if e = EAGAIN \<and> \<not> broken events then Some (Keep, c, a)
      else Some (Hang_up, c, a))"
| "recv_loop h events (Got buf # rest) c a =
     (if buf = [] then Some (Hang_up, c, a)
      else
        let c1 = c\<lparr>request := request c @ buf\<rparr>; newline = str_find nl (request c1)
        in if newline \<noteq> None \<and> the newline \<le> 127
           then (case h (take (the newline) (request c1)) a of
                   (Inr reply, a1) \<Rightarrow> Some (Respond, c1\<lparr>response := reply, responding := True\<rparr>, a1)
                 | (Inl _, a1) \<Rightarrow> Some (Respond, c1\<lparr>response := ''error: command failed'' @ [nl],
                                                      responding := True\<rparr>, a1))
           else if length (request c1) > 127
           then Some (Respond, c1\<lparr>response := ''error: command too long'' @ [nl], responding := True\<rparr>, a)
           else recv_loop h events rest c1 a)"

datatype send_outcome = Blocked | Finished

fun send_loop :: "u32 \<Rightarrow> io_out list \<Rightarrow> client \<Rightarrow> string \<Rightarrow> (send_outcome \<times> client \<times> string) option" where
  "send_loop events [] c w = (if sent c < length (response c) then None else Some (Finished, c, w))"
| "send_loop events (out # rest) c w =
     (if sent c < length (response c)
      then (case out of
              Out_err e \<Rightarrow>
                (if e = EINTR then send_loop events rest c w
                 else if e = EAGAIN \<and> \<not> broken events then Some (Blocked, c, w)
                 else Some (Finished, c, w))
            | Room k \<Rightarrow>
                (let n = min k (length (response c) - sent c)
                 in if n = 0 then Some (Finished, c, w)
                    else send_loop events rest (c\<lparr>sent := sent c + n\<rparr>)
                           (w @ take n (drop (sent c) (response c)))))
      else Some (Finished, c, w))"

record ready_io =
  recvs :: "char io_in list"
  sends :: "io_out list"
  mod_err :: "errno option"

definition put_client :: "fd \<Rightarrow> client \<Rightarrow> control_server \<Rightarrow> control_server" where
  "put_client f c s = s\<lparr>clients := AList.update f c (clients s)\<rparr>"

definition respond :: "fd \<Rightarrow> u32 \<Rightarrow> ready_io \<Rightarrow> client \<Rightarrow> control_server \<Rightarrow> (unit result \<times> control_server) option" where
  "respond f events io c s =
     (case send_loop events (sends io) c (wire s f) of
        None \<Rightarrow> None
      | Some (out, c1, w) \<Rightarrow>
          let s1 = put_client f c1 (s\<lparr>wire := (wire s)(f := w)\<rparr>)
          in case out of
               Finished \<Rightarrow> Some (Inr (), close_client f s1)
             | Blocked \<Rightarrow>
                 (case modify (mod_err io) f EPOLLOUT (loop s1) of
                    (r, l) \<Rightarrow> Some (r, s1\<lparr>loop := l\<rparr>)))"

definition ready :: "'a handler \<Rightarrow> fd \<Rightarrow> u32 \<Rightarrow> ready_io \<Rightarrow> control_server \<times> 'a \<Rightarrow>
    (unit result \<times> control_server \<times> 'a) option" where
  "ready h f events io = (\<lambda>(s, a).
     (case map_of (clients s) f of
        None \<Rightarrow> Some (Inl (Out_of_range ''unordered_map::at''), s, a)
      | Some c \<Rightarrow>
          (case (if responding c then Some (Respond, c, a) else recv_loop h events (recvs io) c a) of
             None \<Rightarrow> None
           | Some (Keep, c1, a1) \<Rightarrow> Some (Inr (), put_client f c1 s, a1)
           | Some (Hang_up, c1, a1) \<Rightarrow> Some (Inr (), close_client f (put_client f c1 s), a1)
           | Some (Respond, c1, a1) \<Rightarrow>
               map_option (\<lambda>(r, s1). (r, s1, a1)) (respond f events io c1 (put_client f c1 s)))))"

text \<open>The destructor unregisters every connection and then closes them.\<close>

definition destroy :: "control_server \<Rightarrow> control_server" where
  "destroy s = s\<lparr>loop := fold (\<lambda>entry l. remove (fst entry) l) (clients s) (loop s), clients := [],
     closed_fds := closed_fds s @ map fst (clients s)\<rparr>"

section \<open>Receiving a command\<close>

text \<open>The specification: what the bytes received so far mean, however they were cut into pieces.\<close>

datatype verdict = Need_more | Command string | Too_long

definition verdict :: "string \<Rightarrow> verdict" where
  "verdict s =
     (case str_find nl s of
        Some i \<Rightarrow> (if i \<le> 127 then Command (take i s) else Too_long)
      | None \<Rightarrow> (if length s > 127 then Too_long else Need_more))"

lemma verdict_mono: "verdict s \<noteq> Need_more \<Longrightarrow> verdict (s @ t) = verdict s"
  using str_find_less_length [of nl s]
  by (auto simp: verdict_def str_find_append split: option.splits if_splits)

lemma verdict_Need_more: "verdict s = Need_more \<longleftrightarrow> nl \<notin> set s \<and> length s \<le> 127"
  using str_find_None [of nl s] by (auto simp: verdict_def split: option.splits if_splits)

lemma verdict_Need_more_prefix: "verdict (s @ t) = Need_more \<Longrightarrow> verdict s = Need_more"
  using verdict_mono [of s t] by auto

definition answer_of :: "'a handler \<Rightarrow> verdict \<Rightarrow> 'a \<Rightarrow> string \<times> 'a" where
  "answer_of h v a =
     (case v of
        Command cmd \<Rightarrow> (case h cmd a of (Inr reply, a1) \<Rightarrow> (reply, a1)
                        | (Inl _, a1) \<Rightarrow> (''error: command failed'' @ [nl], a1))
      | _ \<Rightarrow> (''error: command too long'' @ [nl], a))"

text \<open>One chunk: the loop decides by the verdict on the bytes so far.\<close>

lemma recv_loop_chunk:
  assumes "buf \<noteq> []"
  shows "recv_loop h events (Got buf # rest) c a =
    (if verdict (request c @ buf) = Need_more
     then recv_loop h events rest (c\<lparr>request := request c @ buf\<rparr>) a
     else case answer_of h (verdict (request c @ buf)) a of
            (reply, a1) \<Rightarrow> Some (Respond, c\<lparr>request := request c @ buf, response := reply,
                                              responding := True\<rparr>, a1))"
  using assms str_find_less_length [of nl "request c @ buf"]
  by (auto simp: verdict_def answer_of_def Let_def split: option.splits prod.splits sum.splits)

declare recv_loop.simps(3) [simp del]

lemma recv_loop_eof [simp]: "recv_loop h events (Got [] # rest) c a = Some (Hang_up, c, a)"
  by (simp add: recv_loop.simps(3))

text \<open>Answers of a connection that delivers data: non-empty chunks and interrupted calls.\<close>

definition delivers :: "char io_in \<Rightarrow> bool" where
  "delivers x \<longleftrightarrow> (case x of Got buf \<Rightarrow> buf \<noteq> [] | In_err e \<Rightarrow> e = EINTR)"

fun data_of :: "char io_in list \<Rightarrow> string" where
  "data_of [] = []"
| "data_of (Got buf # rest) = buf @ data_of rest"
| "data_of (In_err e # rest) = data_of rest"

lemma recv_loop_need_more:
  "\<forall>x \<in> set xs. delivers x \<Longrightarrow> verdict (request c @ data_of xs) = Need_more \<Longrightarrow>
     recv_loop h events (xs @ ys) c a =
       recv_loop h events ys (c\<lparr>request := request c @ data_of xs\<rparr>) a"
proof (induction xs arbitrary: c rule: data_of.induct)
  case (2 buf rest)
  then have "verdict (request c @ buf) = Need_more"
    using verdict_Need_more_prefix [of "request c @ buf" "data_of rest"] by simp
  with 2 show ?case by (simp add: recv_loop_chunk delivers_def)
qed (simp_all add: delivers_def)

lemma recv_loop_decided:
  assumes "\<forall>x \<in> set xs. delivers x" and "verdict (request c) = Need_more"
    and "verdict (request c @ data_of xs) \<noteq> Need_more"
  shows "\<exists>c1. recv_loop h events (xs @ ys) c a =
      Some (Respond, c1, snd (answer_of h (verdict (request c @ data_of xs)) a)) \<and>
    responding c1 \<and> sent c1 = sent c \<and>
    response c1 = fst (answer_of h (verdict (request c @ data_of xs)) a)"
  using assms
proof (induction xs arbitrary: c rule: data_of.induct)
  case (2 buf rest)
  have buf: "buf \<noteq> []" using "2.prems"(1) by (simp add: delivers_def)
  show ?case
  proof (cases "verdict (request c @ buf) = Need_more")
    case True
    then show ?thesis
      using "2.IH" [of "c\<lparr>request := request c @ buf\<rparr>"] "2.prems" buf
      by (simp add: recv_loop_chunk)
  next
    case False
    then have "verdict (request c @ buf @ data_of rest) = verdict (request c @ buf)"
      using verdict_mono [of "request c @ buf" "data_of rest"] by simp
    with False buf show ?thesis by (simp add: recv_loop_chunk split: prod.splits)
  qed
qed (simp_all add: delivers_def)

text \<open>The request buffer stays below 256 bytes, because each \<open>recv\<close> call has a 128-byte buffer.\<close>

definition recv_bounded :: "char io_in list \<Rightarrow> bool" where
  "recv_bounded xs \<longleftrightarrow> (\<forall>buf. Got buf \<in> set xs \<longrightarrow> length buf \<le> 128)"

lemma recv_loop_request_bound:
  "recv_loop h events xs c a = Some (out, c1, a1) \<Longrightarrow> recv_bounded xs \<Longrightarrow>
     length (request c) \<le> 127 \<Longrightarrow> length (request c1) \<le> 255"
proof (induction h events xs c a rule: recv_loop.induct)
  case (3 h events buf rest c a)
  show ?case
  proof (cases "buf = []")
    case True
    with 3 show ?thesis by (simp add: recv_loop.simps(3))
  next
    case False
    have "length buf \<le> 128" and rest: "recv_bounded rest"
      using "3.prems"(2) by (auto simp: recv_bounded_def)
    then have len: "length (request c @ buf) \<le> 255" using "3.prems"(3) by simp
    show ?thesis
    proof (cases "verdict (request c @ buf) = Need_more")
      case True
      then have small: "length (request c @ buf) \<le> 127" by (simp add: verdict_Need_more)
      have "recv_loop h events rest (c\<lparr>request := request c @ buf\<rparr>) a = Some (out, c1, a1)"
        using "3.prems"(1) True False by (simp add: recv_loop_chunk)
      moreover have "\<not> (str_find nl (request c @ buf) \<noteq> None \<and> the (str_find nl (request c @ buf)) \<le> 127)"
        using True by (auto simp: verdict_def split: option.splits if_splits)
      ultimately show ?thesis using "3.IH" [OF False refl refl] rest small by simp
    next
      case decided: False
      with "3.prems"(1) False len show ?thesis
        by (auto simp: recv_loop_chunk split: prod.splits)
    qed
  qed
qed (auto simp: recv_bounded_def split: if_splits)

section \<open>Sending the reply\<close>

text \<open>What went over the wire is the part of the reply before the send offset.\<close>

definition client_wire :: "client \<Rightarrow> string \<Rightarrow> bool" where
  "client_wire c w \<longleftrightarrow> sent c \<le> length (response c) \<and> w = take (sent c) (response c)"

lemma client_wire_send:
  "client_wire c w \<Longrightarrow> n \<le> length (response c) - sent c \<Longrightarrow>
     client_wire (c\<lparr>sent := sent c + n\<rparr>) (w @ take n (drop (sent c) (response c)))"
  by (auto simp: client_wire_def take_add)

lemma send_loop_wire:
  "send_loop events outs c w = Some (out, c1, w1) \<Longrightarrow> client_wire c w \<Longrightarrow>
     client_wire c1 w1 \<and> (out = Blocked \<longrightarrow> sent c1 < length (response c1))"
proof (induction events outs c w rule: send_loop.induct)
  case (2 events out' rest c w)
  then show ?case
    by (auto simp: Let_def client_wire_send split: io_out.splits if_splits)
qed (auto split: if_splits)

lemma send_loop_frame:
  "send_loop events outs c w = Some (out, c1, w1) \<Longrightarrow>
     request c1 = request c \<and> response c1 = response c \<and> responding c1 = responding c"
proof (induction events outs c w rule: send_loop.induct)
  case (2 events out' rest c w)
  then show ?case by (auto simp: Let_def split: io_out.splits if_splits)
qed (auto split: if_splits)

text \<open>Answers that make progress, and how many bytes they take.\<close>

definition accepts :: "io_out \<Rightarrow> bool" where
  "accepts x \<longleftrightarrow> (case x of Room k \<Rightarrow> 0 < k | Out_err e \<Rightarrow> e = EINTR)"

fun room_of :: "io_out list \<Rightarrow> nat" where
  "room_of [] = 0"
| "room_of (Room k # rest) = k + room_of rest"
| "room_of (Out_err e # rest) = room_of rest"

lemma send_loop_complete:
  "\<forall>x \<in> set outs. accepts x \<Longrightarrow> length (response c) - sent c \<le> room_of outs \<Longrightarrow> client_wire c w \<Longrightarrow>
     \<exists>c1. send_loop events outs c w = Some (Finished, c1, response c)"
proof (induction outs arbitrary: c w rule: room_of.induct)
  case (2 k rest)
  show ?case
  proof (cases "sent c < length (response c)")
    case True
    define n where "n = min k (length (response c) - sent c)"
    define c' where "c' = c\<lparr>sent := sent c + n\<rparr>"
    define w' where "w' = w @ take n (drop (sent c) (response c))"
    have "n \<noteq> 0" using True "2.prems"(1) by (auto simp: n_def accepts_def min_def)
    then have "send_loop events (Room k # rest) c w = send_loop events rest c' w'"
      using True by (simp add: c'_def w'_def Let_def n_def [symmetric])
    moreover have "client_wire c' w'"
      unfolding c'_def w'_def by (rule client_wire_send [OF "2.prems"(3)]) (simp add: n_def)
    moreover have "length (response c') - sent c' \<le> room_of rest"
      using "2.prems"(2) by (simp add: c'_def n_def)
    ultimately show ?thesis
      using "2.IH" [of c' w'] "2.prems"(1) by (simp add: c'_def)
  next
    case False
    with "2.prems"(3) show ?thesis by (simp add: client_wire_def)
  qed
qed (auto simp: accepts_def client_wire_def)

lemma send_loop_returns:
  "Out_err e \<in> set outs \<Longrightarrow> e \<noteq> EINTR \<Longrightarrow> send_loop events outs c w \<noteq> None"
proof (induction events outs c w rule: send_loop.induct)
  case (2 events out rest c w)
  then show ?case by (auto simp: Let_def split: io_out.splits)
qed simp

lemma recv_loop_returns:
  "In_err e \<in> set xs \<Longrightarrow> e \<noteq> EINTR \<Longrightarrow> recv_loop h events xs c a \<noteq> None"
proof (induction h events xs c a rule: recv_loop.induct)
  case (3 h events buf rest c a)
  then show ?case by (auto simp: recv_loop.simps(3) Let_def split: prod.splits sum.splits)
qed auto

section \<open>The server invariant\<close>

definition client_ok :: "client \<Rightarrow> string \<Rightarrow> bool" where
  "client_ok c w \<longleftrightarrow> client_wire c w \<and>
     (\<not> responding c \<longrightarrow> response c = [] \<and> verdict (request c) = Need_more)"

text \<open>
  The connections and the client callbacks of the reactor agree, there are at most 64 of them, and
  each connection is in a consistent state.
\<close>

definition server_inv :: "control_server \<Rightarrow> bool" where
  "server_inv s \<longleftrightarrow> distinct (map fst (clients s)) \<and> length (clients s) \<le> 64 \<and>
     (\<forall>f. callbacks (loop s) f = Some (Client_cb f) \<longleftrightarrow> map_of (clients s) f \<noteq> None) \<and>
     (\<forall>f g. callbacks (loop s) f = Some (Client_cb g) \<longrightarrow> g = f) \<and>
     (\<forall>f c. map_of (clients s) f = Some c \<longrightarrow> client_ok c (wire s f))"

lemma length_alist_update: "map_of al k \<noteq> None \<Longrightarrow> length (AList.update k v al) = length al"
  by (induction al) auto

lemma server_inv_fresh: "server_inv s \<Longrightarrow> callbacks (loop s) f = None \<Longrightarrow> map_of (clients s) f = None"
  unfolding server_inv_def by (metis option.distinct(1))

lemma server_inv_registered:
  "server_inv s \<Longrightarrow> callbacks (loop s) f = Some (Client_cb g) \<Longrightarrow> g = f \<and> map_of (clients s) f \<noteq> None"
  unfolding server_inv_def by metis

lemma server_inv_client_ok: "server_inv s \<Longrightarrow> map_of (clients s) f = Some c \<Longrightarrow> client_ok c (wire s f)"
  by (simp add: server_inv_def)

lemma server_inv_new: "\<forall>f g. callbacks l f \<noteq> Some (Client_cb g) \<Longrightarrow> server_inv (new_control_server l)"
  by (simp add: server_inv_def new_control_server_def)

lemma server_inv_put [inv_intros]:
  "server_inv s \<Longrightarrow> map_of (clients s) f \<noteq> None \<Longrightarrow> client_ok c (wire s f) \<Longrightarrow>
     server_inv (put_client f c s)"
  by (auto simp: server_inv_def put_client_def update_conv' distinct_update length_alist_update)

lemma server_inv_close [inv_intros]: "server_inv s \<Longrightarrow> server_inv (close_client f s)"
proof -
  assume "server_inv s"
  moreover have "length (AList.delete f (clients s)) \<le> length (clients s)"
    by (rule length_delete_le)
  ultimately show ?thesis
    by (auto simp: server_inv_def close_client_def delete_conv' distinct_delete)
qed

lemma server_inv_wire [inv_intros]:
  "server_inv s \<Longrightarrow> map_of (clients s) f \<noteq> None \<Longrightarrow> client_ok c w \<Longrightarrow>
     server_inv (put_client f c (s\<lparr>wire := (wire s)(f := w)\<rparr>))"
  by (auto simp: server_inv_def put_client_def update_conv' distinct_update length_alist_update)

lemma server_inv_modify [inv_intros]:
  "server_inv s \<Longrightarrow> server_inv (s\<lparr>loop := snd (modify e f ev (loop s))\<rparr>)"
  by (simp add: server_inv_def)

lemma recv_loop_client_ok:
  "recv_loop h events xs c a = Some (out, c1, a1) \<Longrightarrow> client_ok c w \<Longrightarrow> \<not> responding c \<Longrightarrow>
     client_ok c1 w \<and> (out = Respond \<longleftrightarrow> responding c1)"
proof (induction xs arbitrary: c)
  case Nil
  then show ?case by simp
next
  case (Cons x xs)
  show ?case
  proof (cases x)
    case (In_err e)
    with Cons show ?thesis by (auto split: if_splits)
  next
    case (Got buf)
    show ?thesis
    proof (cases "buf = []")
      case True
      with Got Cons.prems show ?thesis by (auto simp: recv_loop.simps(3))
    next
      case False
      with Got Cons show ?thesis
        by (auto simp: recv_loop_chunk client_ok_def client_wire_def split: if_splits prod.splits)
    qed
  qed
qed

lemma respond_inv [inv_intros]:
  assumes "server_inv s" "map_of (clients s) f = Some c0" "client_ok c (wire s f)" "responding c"
    and r: "respond f events io c s = Some (r, s1)"
  shows "server_inv s1"
proof -
  obtain out c1 w where l: "send_loop events (sends io) c (wire s f) = Some (out, c1, w)"
    using r by (auto simp: respond_def split: option.splits prod.splits)
  have "client_wire c (wire s f)" using assms(3) by (simp add: client_ok_def)
  then have "client_wire c1 w" "responding c1"
    using send_loop_wire [OF l] send_loop_frame [OF l] assms(4) by auto
  then have "client_ok c1 w" by (simp add: client_ok_def)
  with assms(1,2) have "server_inv (put_client f c1 (s\<lparr>wire := (wire s)(f := w)\<rparr>))"
    by (intro server_inv_wire) simp_all
  with r l show ?thesis
    by (cases out) (auto simp: respond_def Let_def split: prod.splits
        intro: inv_intros dest: server_inv_modify [where e = "mod_err io" and f = f and ev = EPOLLOUT])
qed

lemma ready_inv [inv_intros]:
  assumes "server_inv s" and r: "ready h f events io (s, a) = Some (r, s1, a1)"
  shows "server_inv s1"
proof (cases "map_of (clients s) f")
  case None
  with assms show ?thesis by (simp add: ready_def)
next
  case (Some c)
  have ok: "client_ok c (wire s f)" using assms(1) Some by (simp add: server_inv_def)
  obtain out c1 a2 where l:
    "(if responding c then Some (Respond, c, a) else recv_loop h events (recvs io) c a) =
       Some (out, c1, a2)"
    using r Some by (auto simp: ready_def split: option.splits prod.splits recv_outcome.splits)
  have c1: "client_ok c1 (wire s f) \<and> (out = Respond \<longrightarrow> responding c1)"
    using l ok recv_loop_client_ok [of h events "recvs io" c a out c1 a2 "wire s f"]
    by (auto split: if_splits)
  define s2 where "s2 = put_client f c1 s"
  have s2: "server_inv s2" "map_of (clients s2) f = Some c1" "wire s2 f = wire s f"
    using assms(1) Some c1 by (auto simp: s2_def intro: inv_intros)
      (simp_all add: put_client_def update_conv')
  show ?thesis
    using r Some l s2 c1
    by (cases out) (auto simp: ready_def s2_def [symmetric] intro: inv_intros)
qed

lemma add_client_fresh [step_simps]:
  assumes "map_of (clients s) f = None"
  shows "add_client e f s =
    (if length (clients s) \<ge> 64 then (Inr (), s\<lparr>closed_fds := closed_fds s @ [f]\<rparr>)
     else case e of
            None \<Rightarrow> (Inr (), s\<lparr>clients := (f, new_client) # clients s, wire := (wire s)(f := []),
                       loop := snd (add None f (EPOLLIN OR EPOLLRDHUP) (Client_cb f) (loop s))\<rparr>)
          | Some err \<Rightarrow> (Inl (Sys_error ''epoll_ctl ADD'' err), s\<lparr>wire := (wire s)(f := []),
                       closed_fds := closed_fds s @ [f]\<rparr>))"
proof -
  have "f \<notin> fst ` set (clients s)" using assms by (simp add: map_of_eq_None_iff)
  with assms show ?thesis by (cases e) (simp_all add: add_client_def add_def)
qed

lemma add_client_inv [inv_intros]:
  assumes "server_inv s" and fresh: "callbacks (loop s) f = None"
  shows "server_inv (snd (add_client e f s))"
proof -
  have nc: "map_of (clients s) f = None"
    using assms by (rule server_inv_fresh)
  then have nf: "f \<notin> fst ` set (clients s)" by (simp add: map_of_eq_None_iff)
  have ok: "client_ok new_client []"
    by (simp add: client_ok_def client_wire_def new_client_def verdict_Need_more)
  from assms nc nf ok show ?thesis
    by (cases e) (auto simp: add_client_fresh add_def server_inv_def)
qed

text \<open>
  \<open>accept4\<close> returns a descriptor that is not open, so it has no callback at that moment. (A number
  may come back within one call: the server closes surplus connections at once.)
\<close>

fun accepts_fresh :: "accept_answer list \<Rightarrow> control_server \<Rightarrow> bool" where
  "accepts_fresh [] s = True"
| "accepts_fresh (Accept_err e # rest) s = accepts_fresh rest s"
| "accepts_fresh (Accepted f e # rest) s =
     (callbacks (loop s) f = None \<and> accepts_fresh rest (snd (add_client e f s)))"

lemma accept_ready_inv [inv_intros]:
  "accept_ready xs s = Some (r, s1) \<Longrightarrow> server_inv s \<Longrightarrow> accepts_fresh xs s \<Longrightarrow> server_inv s1"
proof (induction xs s rule: accept_ready.induct)
  case (3 f e rest s)
  have inv: "server_inv (snd (add_client e f s))"
    using "3.prems"(2,3) by (intro add_client_inv) simp_all
  obtain r' s' where a: "add_client e f s = (r', s')" by fastforce
  from 3 inv a show ?case by (cases r') auto
qed (auto split: if_splits)

text \<open>The rest of the program is changed by the command handler only.\<close>

lemma recv_loop_state:
  "recv_loop h ev xs c a = Some (out, c1, a1) \<Longrightarrow> a1 = a \<or> (\<exists>cmd. a1 = snd (h cmd a))"
proof (induction h ev xs c a rule: recv_loop.induct)
  case (3 h ev buf rest c a)
  then show ?case
    by (auto simp: recv_loop.simps(3) Let_def split: if_splits prod.splits sum.splits) (metis snd_conv)+
qed (auto split: if_splits)

lemma ready_state:
  "ready h f ev io (s, a) = Some (r, s1, a1) \<Longrightarrow> a1 = a \<or> (\<exists>cmd. a1 = snd (h cmd a))"
  by (auto simp: ready_def split: option.splits prod.splits recv_outcome.splits if_splits
      dest: recv_loop_state)

text \<open>Callbacks of other descriptors are not touched.\<close>

lemma accept_ready_frame:
  "accept_ready xs s = Some (r, s1) \<Longrightarrow> server_inv s \<Longrightarrow> accepts_fresh xs s \<Longrightarrow>
     callbacks (loop s) g = Some cb \<Longrightarrow> callbacks (loop s1) g = Some cb"
proof (induction xs s rule: accept_ready.induct)
  case (3 f e rest s)
  have inv: "server_inv (snd (add_client e f s))"
    using "3.prems"(2,3) by (intro add_client_inv) simp_all
  have "map_of (clients s) f = None" using 3 by (intro server_inv_fresh) simp_all
  then have "callbacks (loop (snd (add_client e f s))) g = Some cb"
    using "3.prems"(3,4) by (cases e) (auto simp: add_client_fresh add_def)
  moreover obtain r' s' where a: "add_client e f s = (r', s')" by fastforce
  ultimately show ?case using 3 inv by (cases r') auto
qed (auto split: if_splits)

lemma respond_frame:
  "respond f ev io c s = Some (r, s1) \<Longrightarrow> g \<noteq> f \<Longrightarrow> callbacks (loop s1) g = callbacks (loop s) g"
  by (auto simp: respond_def Let_def put_client_def close_client_def modify_def
      split: option.splits prod.splits send_outcome.splits)

lemma ready_frame:
  "ready h f ev io (s, a) = Some (r, s1, a1) \<Longrightarrow> g \<noteq> f \<Longrightarrow> callbacks (loop s1) g = callbacks (loop s) g"
  by (auto simp: ready_def put_client_def close_client_def split: option.splits prod.splits
      recv_outcome.splits if_splits dest!: respond_frame)

lemma accept_ready_returns:
  "Accept_err e \<in> set xs \<Longrightarrow> e \<noteq> EINTR \<Longrightarrow> accept_ready xs s \<noteq> None"
  by (induction xs s rule: accept_ready.induct) (auto split: prod.splits sum.splits)

lemma ready_returns:
  assumes "In_err e \<in> set (recvs io)" "e \<noteq> EINTR" "Out_err e' \<in> set (sends io)" "e' \<noteq> EINTR"
  shows "ready h f events io (s, a) \<noteq> None"
proof (cases "map_of (clients s) f")
  case None
  then show ?thesis by (simp add: ready_def)
next
  case (Some c)
  have resp: "\<exists>r. respond f events io c' s' = Some r" for c' s'
    using send_loop_returns [OF assms(3,4), of events c' "wire s' f"]
    by (auto simp: respond_def Let_def split: send_outcome.splits prod.splits)
  obtain out c1 a1 where
    "(if responding c then Some (Respond, c, a) else recv_loop h events (recvs io) c a) = Some (out, c1, a1)"
    using recv_loop_returns [OF assms(1,2), of h events c a] by (cases "responding c") auto
  with Some resp [of c1 "put_client f c1 s"] show ?thesis
    by (cases out) (auto simp: ready_def)
qed

section \<open>A connection from its first byte to its close\<close>

text \<open>The events of one connection, one after the other, until it is closed.\<close>

fun session :: "'a handler \<Rightarrow> fd \<Rightarrow> (u32 \<times> ready_io) list \<Rightarrow> control_server \<times> 'a \<Rightarrow>
    (unit result \<times> control_server \<times> 'a) option" where
  "session h f [] (s, a) = Some (Inr (), s, a)"
| "session h f ((ev, io) # rest) (s, a) =
     (case ready h f ev io (s, a) of
        None \<Rightarrow> None
      | Some (Inl e, s1, a1) \<Rightarrow> Some (Inl e, s1, a1)
      | Some (Inr _, s1, a1) \<Rightarrow>
          if map_of (clients s1) f = None then Some (Inr (), s1, a1) else session h f rest (s1, a1))"

definition receive_event :: "u32 \<times> char io_in list \<Rightarrow> u32 \<times> ready_io" where
  "receive_event p = (fst p, \<lparr>recvs = snd p @ [In_err EAGAIN], sends = [], mod_err = None\<rparr>)"

definition send_event :: "u32 \<times> io_out list \<Rightarrow> u32 \<times> ready_io" where
  "send_event p = (fst p, \<lparr>recvs = [], sends = snd p @ [Out_err EAGAIN], mod_err = None\<rparr>)"

definition data_events :: "(u32 \<times> char io_in list) list \<Rightarrow> string" where
  "data_events ws = concat (map (\<lambda>w. data_of (snd w)) ws)"

lemma map_of_put [simp]: "map_of (clients (put_client f c s)) = (map_of (clients s))(f \<mapsto> c)"
  by (simp add: put_client_def update_conv')

lemma put_client_same: "map_of (clients s) f = Some c \<Longrightarrow> put_client f c s = s"
  by (simp add: put_client_def update_triv)

lemma wire_put [simp]: "wire (put_client f c s) = wire s"
  by (simp add: put_client_def)

lemma loop_put [simp]: "loop (put_client f c s) = loop s"
  by (simp add: put_client_def)

lemma map_of_close [simp]: "map_of (clients (close_client f s)) = (map_of (clients s))(f := None)"
  by (simp add: close_client_def delete_conv')

text \<open>Incomplete commands are kept and the handler is not called.\<close>

lemma session_step:
  "ready h f (fst e) (snd e) (s, a) = Some (Inr (), s1, a1) \<Longrightarrow> map_of (clients s1) f \<noteq> None \<Longrightarrow>
     session h f (e # rest) (s, a) = session h f rest (s1, a1)"
  by (cases e) auto

lemma session_waits:
  assumes "map_of (clients s) f = Some c" "\<not> responding c"
    "\<forall>(ev, xs) \<in> set ws. \<not> broken ev \<and> (\<forall>x \<in> set xs. delivers x)"
    "verdict (request c @ data_events ws) = Need_more"
  shows "\<exists>s1. session h f (map receive_event ws @ rest) (s, a) = session h f rest (s1, a) \<and>
    map_of (clients s1) f = Some (c\<lparr>request := request c @ data_events ws\<rparr>) \<and> wire s1 = wire s"
  using assms
proof (induction ws arbitrary: s c)
  case Nil
  then show ?case by (auto simp: data_events_def)
next
  case (Cons w ws)
  obtain ev xs where w: "w = (ev, xs)" by fastforce
  define c1 where "c1 = c\<lparr>request := request c @ data_of xs\<rparr>"
  have d: "data_events (w # ws) = data_of xs @ data_events ws" by (simp add: w data_events_def)
  have v: "verdict (request c @ data_of xs) = Need_more"
    using Cons.prems(4) verdict_Need_more_prefix [of "request c @ data_of xs" "data_events ws"]
    by (simp add: d)
  have "\<forall>x \<in> set xs. delivers x" "\<not> broken ev" using Cons.prems(3) by (simp_all add: w)
  then have "recv_loop h ev (xs @ [In_err EAGAIN]) c a = Some (Keep, c1, a)"
    using recv_loop_need_more [OF _ v, of h ev "[In_err EAGAIN]" a] by (simp add: c1_def)
  then have "ready h f (fst (receive_event w)) (snd (receive_event w)) (s, a) =
      Some (Inr (), put_client f c1 s, a)"
    using Cons.prems(1,2) by (simp add: ready_def receive_event_def w)
  then have "session h f (map receive_event (w # ws) @ rest) (s, a) =
      session h f (map receive_event ws @ rest) (put_client f c1 s, a)"
    by (simp add: session_step)
  moreover have "\<exists>s1. session h f (map receive_event ws @ rest) (put_client f c1 s, a) = session h f rest (s1, a) \<and>
      map_of (clients s1) f = Some (c1\<lparr>request := request c1 @ data_events ws\<rparr>) \<and>
      wire s1 = wire (put_client f c1 s)"
    using Cons.prems by (intro Cons.IH) (auto simp: c1_def d)
  ultimately show ?case by (auto simp: c1_def d)
qed

text \<open>Replies are sent completely, over any number of short writes and writable events.\<close>

definition room_events :: "(u32 \<times> io_out list) list \<Rightarrow> nat" where
  "room_events ws = sum_list (map (\<lambda>w. room_of (snd w)) ws)"

lemma send_loop_blocked:
  "\<forall>x \<in> set outs. accepts x \<Longrightarrow> sent c + room_of outs < length (response c) \<Longrightarrow> \<not> broken ev \<Longrightarrow>
     client_wire c w \<Longrightarrow>
     send_loop ev (outs @ [Out_err EAGAIN]) c w =
       Some (Blocked, c\<lparr>sent := sent c + room_of outs\<rparr>, take (sent c + room_of outs) (response c))"
proof (induction outs arbitrary: c w rule: room_of.induct)
  case (2 k rest)
  then have "client_wire (c\<lparr>sent := sent c + k\<rparr>) (w @ take k (drop (sent c) (response c)))"
    by (intro client_wire_send) simp_all
  with 2 show ?case
    by (simp add: accepts_def Let_def min_absorb1 add.assoc)
qed (auto simp: accepts_def client_wire_def)

lemma session_blocked:
  assumes "map_of (clients s) f = Some c" "responding c" "client_wire c (wire s f)"
    "\<forall>(ev, outs) \<in> set ws. \<not> broken ev \<and> (\<forall>x \<in> set outs. accepts x)"
    "sent c + room_events ws < length (response c)"
  shows "\<exists>s1. session h f (map send_event ws @ rest) (s, a) = session h f rest (s1, a) \<and>
    map_of (clients s1) f = Some (c\<lparr>sent := sent c + room_events ws\<rparr>) \<and>
    client_wire (c\<lparr>sent := sent c + room_events ws\<rparr>) (wire s1 f)"
  using assms
proof (induction ws arbitrary: s c)
  case Nil
  then show ?case by (auto simp: room_events_def)
next
  case (Cons w ws)
  obtain ev outs where w: "w = (ev, outs)" by fastforce
  have room: "room_events (w # ws) = room_of outs + room_events ws" by (simp add: w room_events_def)
  define c1 where "c1 = c\<lparr>sent := sent c + room_of outs\<rparr>"
  define s1 where "s1 = put_client f c1 (s\<lparr>wire := (wire s)(f := take (sent c1) (response c))\<rparr>)"
  define s2 where "s2 = s1\<lparr>loop := snd (modify None f EPOLLOUT (loop s1))\<rparr>"
  have "\<forall>x \<in> set outs. accepts x" "\<not> broken ev" using Cons.prems(4) by (simp_all add: w)
  moreover have "sent c + room_of outs < length (response c)" using Cons.prems(5) room by simp
  ultimately have "send_loop ev (outs @ [Out_err EAGAIN]) c (wire s f) =
      Some (Blocked, c1, take (sent c1) (response c))"
    using Cons.prems(3) by (simp add: c1_def send_loop_blocked)
  then have "ready h f (fst (send_event w)) (snd (send_event w)) (s, a) = Some (Inr (), s2, a)"
    using Cons.prems(1,2)
    by (simp add: ready_def respond_def send_event_def w s2_def s1_def modify_def put_client_same)
  then have "session h f (map send_event (w # ws) @ rest) (s, a) =
      session h f (map send_event ws @ rest) (s2, a)"
    by (simp add: session_step s2_def s1_def)
  moreover have "\<exists>s3. session h f (map send_event ws @ rest) (s2, a) = session h f rest (s3, a) \<and>
      map_of (clients s3) f = Some (c1\<lparr>sent := sent c1 + room_events ws\<rparr>) \<and>
      client_wire (c1\<lparr>sent := sent c1 + room_events ws\<rparr>) (wire s3 f)"
    using Cons.prems
    by (intro Cons.IH) (auto simp: s2_def s1_def c1_def client_wire_def room)
  ultimately show ?case by (simp add: c1_def room add.assoc)
qed

text \<open>The event that completes the command, and the event that completes the reply.\<close>

definition finish_event :: "u32 \<times> char io_in list \<times> io_out list \<Rightarrow> u32 \<times> ready_io" where
  "finish_event p = (fst p, \<lparr>recvs = fst (snd p), sends = snd (snd p), mod_err = None\<rparr>)"

definition connection_done :: "fd \<Rightarrow> string \<Rightarrow> control_server \<Rightarrow> bool" where
  "connection_done f reply s \<longleftrightarrow> wire s f = reply \<and> map_of (clients s) f = None \<and>
     callbacks (loop s) f = None \<and> interest (loop s) f = None \<and> f \<in> set (closed_fds s)"

lemma respond_finish:
  assumes "client_wire c (wire s f)" "\<forall>x \<in> set (sends io). accepts x"
    "length (response c) - sent c \<le> room_of (sends io)"
  shows "\<exists>s1. respond f ev io c s = Some (Inr (), s1) \<and> connection_done f (response c) s1"
proof -
  obtain c1 where "send_loop ev (sends io) c (wire s f) = Some (Finished, c1, response c)"
    using send_loop_complete [OF assms(2,3,1)] by blast
  then show ?thesis
    by (simp add: respond_def connection_done_def) (simp add: close_client_def)
qed

lemma respond_blocked:
  assumes "client_wire c (wire s f)" "\<forall>x \<in> set outs. accepts x" "\<not> broken ev"
    "sent c + room_of outs < length (response c)" "sends io = outs @ [Out_err EAGAIN]" "mod_err io = None"
  shows "\<exists>s1. respond f ev io c s = Some (Inr (), s1) \<and>
    map_of (clients s1) f = Some (c\<lparr>sent := sent c + room_of outs\<rparr>) \<and>
    client_wire (c\<lparr>sent := sent c + room_of outs\<rparr>) (wire s1 f)"
  using send_loop_blocked [OF assms(2,4,3,1)] assms
  by (auto simp: respond_def modify_def client_wire_def)

lemma ready_decided:
  assumes "map_of (clients s) f = Some c" "client_ok c (wire s f)" "\<not> responding c"
    "\<forall>x \<in> set xs. delivers x" "verdict (request c @ data_of xs) = v" "v \<noteq> Need_more"
    "answer_of h v a = (reply, a1)" "recvs io = xs"
  obtains c1 where "ready h f ev io (s, a) =
      map_option (\<lambda>(r, s1). (r, s1, a1)) (respond f ev io c1 (put_client f c1 s))"
    "responding c1" "response c1 = reply" "sent c1 = 0" "client_wire c1 (wire s f)"
proof -
  have 0: "verdict (request c) = Need_more" "sent c = 0" "wire s f = []"
    using assms(2,3) by (auto simp: client_ok_def client_wire_def)
  obtain c1 where c1: "recv_loop h ev (xs @ []) c a = Some (Respond, c1, a1)" "responding c1"
    "sent c1 = sent c" "response c1 = reply"
    using recv_loop_decided [OF assms(4) 0(1), of h ev "[]" a] assms(5,6,7) by auto
  show ?thesis
    using assms(1,3,8) c1 0 by (intro that [of c1]) (simp_all add: ready_def client_wire_def)
qed

text \<open>The reply leaves at once, when the socket has room for it.\<close>

lemma session_served:
  assumes inv: "server_inv s" "map_of (clients s) f = Some c" "\<not> responding c"
    and waits: "\<forall>(ev, xs) \<in> set ws. \<not> broken ev \<and> (\<forall>x \<in> set xs. delivers x)"
      "verdict (request c @ data_events ws) = Need_more"
    and last: "\<forall>x \<in> set xs. delivers x" "verdict (request c @ data_events ws @ data_of xs) = v"
      "v \<noteq> Need_more" "answer_of h v a = (reply, a1)"
    and outs: "\<forall>x \<in> set outs. accepts x" "length reply \<le> room_of outs"
  shows "\<exists>s1. session h f (map receive_event ws @ [finish_event (ev, xs, outs)]) (s, a) =
      Some (Inr (), s1, a1) \<and> connection_done f reply s1"
proof -
  define c1 where "c1 = c\<lparr>request := request c @ data_events ws\<rparr>"
  obtain s1 where s1: "session h f (map receive_event ws @ [finish_event (ev, xs, outs)]) (s, a) =
      session h f [finish_event (ev, xs, outs)] (s1, a)" "map_of (clients s1) f = Some c1" "wire s1 = wire s"
    using session_waits [OF inv(2,3) waits, where h = h and a = a and
        rest = "[finish_event (ev, xs, outs)]"] unfolding c1_def by blast
  have ok: "client_ok c1 (wire s1 f)"
    using server_inv_client_ok [OF inv(1,2)] inv(3) waits(2)
    by (auto simp: s1(3) c1_def client_ok_def client_wire_def)
  have v: "verdict (request c1 @ data_of xs) = v" using last(2) by (simp add: c1_def)
  have nr: "\<not> responding c1" using inv(3) by (simp add: c1_def)
  define io where "io = snd (finish_event (ev, xs, outs))"
  have io: "recvs io = xs" "sends io = outs" "finish_event (ev, xs, outs) = (ev, io)"
    by (simp_all add: io_def finish_event_def)
  obtain c2 where c2: "ready h f ev io (s1, a) =
      map_option (\<lambda>(r, s1). (r, s1, a1)) (respond f ev io c2 (put_client f c2 s1))"
    "response c2 = reply" "sent c2 = 0" "client_wire c2 (wire s1 f)"
    by (rule ready_decided [OF s1(2) ok nr last(1) v last(3,4) io(1)])
  obtain s2 where "respond f ev io c2 (put_client f c2 s1) = Some (Inr (), s2)" "connection_done f reply s2"
    using respond_finish [of c2 "put_client f c2 s1" f io ev] c2 outs by (auto simp: io)
  with c2 s1(1) show ?thesis by (simp add: io connection_done_def)
qed

text \<open>A pending reply is completed by later writable events.\<close>

lemma session_completed:
  assumes "map_of (clients s) f = Some c" "responding c" "client_wire c (wire s f)"
    "\<forall>(ev, outs) \<in> set ws. \<not> broken ev \<and> (\<forall>x \<in> set outs. accepts x)"
    "sent c + room_events ws < length (response c)"
    "\<forall>x \<in> set outs. accepts x" "length (response c) \<le> sent c + room_events ws + room_of outs"
  shows "\<exists>s1. session h f (map send_event ws @ [finish_event (ev, [], outs)]) (s, a) =
      Some (Inr (), s1, a) \<and> connection_done f (response c) s1"
proof -
  define c1 where "c1 = c\<lparr>sent := sent c + room_events ws\<rparr>"
  obtain s1 where s1: "session h f (map send_event ws @ [finish_event (ev, [], outs)]) (s, a) =
      session h f [finish_event (ev, [], outs)] (s1, a)" "map_of (clients s1) f = Some c1"
      "client_wire c1 (wire s1 f)"
    using session_blocked [OF assms(1-5), where h = h and a = a and
        rest = "[finish_event (ev, [], outs)]"] unfolding c1_def by blast
  define io where "io = snd (finish_event (ev, [], outs))"
  have io: "sends io = outs" "finish_event (ev, [], outs) = (ev, io)"
    by (simp_all add: io_def finish_event_def)
  have "length (response c1) - sent c1 \<le> room_of (sends io)"
    using assms(7) by (simp add: c1_def io)
  then obtain s2 where "respond f ev io c1 s1 = Some (Inr (), s2)" "connection_done f (response c) s2"
    using respond_finish [OF s1(3), of io ev] assms(6) by (auto simp: io c1_def)
  moreover have "responding c1" using assms(2) by (simp add: c1_def)
  ultimately show ?thesis
    using s1 by (simp add: io ready_def put_client_same connection_done_def)
qed

section \<open>Reachable states of the server\<close>

text \<open>
  What can happen to the server and its reactor: connections arrive, events are delivered to
  registered client callbacks with any answers of the system, and the program registers callbacks of
  its own for descriptors that are not registered.
\<close>

inductive server_reach :: "'a handler \<Rightarrow> 'a \<Rightarrow> control_server \<times> 'a \<Rightarrow> bool" for h a0 where
  start: "server_reach h a0 (new_control_server \<lparr>epoll_fd = e, interest = Map.empty, callbacks = Map.empty\<rparr>, a0)"
| register: "server_reach h a0 (s, a) \<Longrightarrow> callbacks (loop s) f = None \<Longrightarrow> \<forall>g. cb \<noteq> Client_cb g \<Longrightarrow>
     server_reach h a0 (s\<lparr>loop := snd (add e f ev cb (loop s))\<rparr>, a)"
| arrive: "server_reach h a0 (s, a) \<Longrightarrow> accepts_fresh xs s \<Longrightarrow> accept_ready xs s = Some (r, s1) \<Longrightarrow>
     server_reach h a0 (s1, a)"
| event: "server_reach h a0 (s, a) \<Longrightarrow> callbacks (loop s) f = Some (Client_cb f) \<Longrightarrow>
     ready h f ev io (s, a) = Some (r, s1, a1) \<Longrightarrow> server_reach h a0 (s1, a1)"

lemma server_inv_register:
  "server_inv s \<Longrightarrow> callbacks (loop s) f = None \<Longrightarrow> \<forall>g. cb \<noteq> Client_cb g \<Longrightarrow>
     server_inv (s\<lparr>loop := snd (add e f ev cb (loop s))\<rparr>)"
  using server_inv_fresh [of s f]
  by (cases e) (auto simp: server_inv_def add_def)

lemma server_reach_inv: "server_reach h a0 sa \<Longrightarrow> server_inv (fst sa)"
proof (induction rule: server_reach.induct)
  case start
  then show ?case by (simp add: server_inv_new)
next
  case (register s a f cb e ev)
  then show ?case by (simp add: server_inv_register)
next
  case (arrive s a xs r s1)
  then show ?case by (auto intro: accept_ready_inv)
next
  case (event s a f ev io r s1 a1)
  then show ?case by (auto intro: ready_inv)
qed

lemma respond_result:
  "respond f ev io c s = Some (r, s1) \<Longrightarrow>
     r = Inr () \<or> (\<exists>e. mod_err io = Some e \<and> r = Inl (Sys_error ''epoll_ctl MOD'' e))"
  by (auto simp: respond_def modify_def Let_def split: option.splits send_outcome.splits prod.splits)

lemma ready_result:
  "map_of (clients s) f \<noteq> None \<Longrightarrow> ready h f ev io (s, a) = Some (r, s1, a1) \<Longrightarrow>
     r = Inr () \<or> (\<exists>e. mod_err io = Some e \<and> r = Inl (Sys_error ''epoll_ctl MOD'' e))"
  by (auto simp: ready_def dest: respond_result split: option.splits prod.splits recv_outcome.splits)

lemma command_served:
  assumes "server_inv s" "map_of (clients s) f = Some new_client"
    and "\<forall>(ev, xs) \<in> set ws. \<not> broken ev \<and> (\<forall>x \<in> set xs. delivers x)"
    and "\<forall>x \<in> set xs. delivers x"
    and "data_events ws @ data_of xs = cmd @ nl # rest" "nl \<notin> set cmd" "length cmd \<le> 127"
    and "length (data_events ws) \<le> length cmd"
    and "h cmd a = (Inr reply, a1)"
    and "\<forall>x \<in> set outs. accepts x" "length reply \<le> room_of outs"
  shows "\<exists>s1. session h f (map receive_event ws @ [finish_event (ev, xs, outs)]) (s, a) =
      Some (Inr (), s1, a1) \<and> connection_done f reply s1"
proof (rule session_served [OF assms(1,2)])
  show "\<not> responding new_client" by (simp add: new_client_def)
  have "data_events ws = take (length (data_events ws)) (cmd @ nl # rest)"
    by (simp add: assms(5) [symmetric])
  then have "data_events ws = take (length (data_events ws)) cmd" using assms(8) by simp
  then have "set (data_events ws) \<subseteq> set cmd" by (metis set_take_subset)
  with assms(6,7,8) show "verdict (request new_client @ data_events ws) = Need_more"
    by (auto simp: new_client_def verdict_Need_more)
  show "verdict (request new_client @ data_events ws @ data_of xs) = Command cmd"
    using assms(5,6,7) by (simp add: new_client_def verdict_def str_find_prefix)
qed (use assms in \<open>simp_all add: answer_of_def\<close>)

section \<open>Properties\<close>

text \<open>
  Property C9 (a command is served, however it is cut). A connection delivers its bytes in any
  pieces, over any number of readable events, with interrupted calls in between. As long as the
  bytes hold no complete command the connection is kept and the handler is not called. The first
  event that completes a command of at most 127 bytes calls the handler once, with exactly the bytes
  before the line break; if the socket has room, the reply goes out completely and the connection is
  unregistered and closed.
\<close>

theorem control_command_served:
  assumes "server_inv s" "map_of (clients s) f = Some new_client"
    and "\<forall>(ev, xs) \<in> set ws. \<not> broken ev \<and> (\<forall>x \<in> set xs. delivers x)"
    and "\<forall>x \<in> set xs. delivers x"
    and "data_events ws @ data_of xs = cmd @ nl # rest" "nl \<notin> set cmd" "length cmd \<le> 127"
    and "length (data_events ws) \<le> length cmd"
    and "h cmd a = (Inr reply, a1)"
    and "\<forall>x \<in> set outs. accepts x" "length reply \<le> room_of outs"
  shows "\<exists>s1. session h f (map receive_event ws @ [finish_event (ev, xs, outs)]) (s, a) =
      Some (Inr (), s1, a1) \<and> connection_done f reply s1"
  using assms by (intro command_served)

definition one_client :: control_server where
  "one_client = \<lparr>loop = \<lparr>epoll_fd = 8, interest = [9 \<mapsto> 1], callbacks = [9 \<mapsto> Client_cb 9]\<rparr>,
     clients = [(9, new_client)], wire = (\<lambda>_. []), closed_fds = []\<rparr>"

lemma one_client_inv: "server_inv one_client" "map_of (clients one_client) 9 = Some new_client"
  by (auto simp: server_inv_def one_client_def client_ok_def client_wire_def new_client_def
      verdict_Need_more split: if_splits)

theorem control_command_served_witness:
  "\<exists>s1. session (\<lambda>cmd n. (Inr (''ok:'' @ cmd), n + 1 :: nat)) 9
     (map receive_event [(1, [Got ''st'', In_err EINTR])] @
       [finish_event (1, [Got (''ats'' @ [nl])], [Room 3, Out_err EINTR, Room 9])]) (one_client, 0) =
     Some (Inr (), s1, 1) \<and> connection_done 9 ''ok:stats'' s1"
  by (rule control_command_served [where cmd = "''stats''" and rest = "[]"])
    (simp_all add: one_client_inv broken_def EPOLLERR_def EPOLLHUP_def delivers_def accepts_def
      data_events_def)

text \<open>
  Property C33 (over-long commands). When more than 127 bytes arrive without a line break among the
  first 128, the handler is never called and the client gets the error reply, however the bytes are
  cut.
\<close>

theorem control_command_too_long:
  assumes "server_inv s" "map_of (clients s) f = Some new_client"
    and "\<forall>(ev, xs) \<in> set ws. \<not> broken ev \<and> (\<forall>x \<in> set xs. delivers x)"
    and "\<forall>x \<in> set xs. delivers x"
    and "nl \<notin> set (take 128 (data_events ws @ data_of xs))" "127 < length (data_events ws @ data_of xs)"
    and "length (data_events ws) \<le> 127"
    and "\<forall>x \<in> set outs. accepts x" "24 \<le> room_of outs"
  shows "\<exists>s1. session h f (map receive_event ws @ [finish_event (ev, xs, outs)]) (s, a) =
      Some (Inr (), s1, a) \<and> connection_done f (''error: command too long'' @ [nl]) s1"
proof (rule session_served [OF assms(1,2)])
  show "\<not> responding new_client" by (simp add: new_client_def)
  have "set (data_events ws) \<subseteq> set (take 128 (data_events ws @ data_of xs))"
    using assms(7) by simp
  then show "verdict (request new_client @ data_events ws) = Need_more"
    using assms(5,7) by (auto simp: new_client_def verdict_Need_more)
  show "verdict (request new_client @ data_events ws @ data_of xs) = Too_long"
  proof (cases "str_find nl (data_events ws @ data_of xs)")
    case None
    then show ?thesis using assms(6) by (simp add: verdict_def new_client_def)
  next
    case (Some i)
    then have i: "i < length (data_events ws @ data_of xs)" "(data_events ws @ data_of xs) ! i = nl"
      by (simp_all add: str_find_Some)
    have "\<not> i \<le> 127"
    proof
      assume "i \<le> 127"
      with i have "nl \<in> set (take 128 (data_events ws @ data_of xs))"
        using nth_in_take [OF i(1), of 128] by (simp del: take_append)
      with assms(5) show False by simp
    qed
    with Some show ?thesis by (simp add: verdict_def new_client_def)
  qed
qed (use assms in \<open>simp_all add: answer_of_def\<close>)

theorem control_command_too_long_witness:
  "\<exists>s1. session (\<lambda>cmd n. (Inr cmd, n + 1 :: nat)) 9
     (map receive_event [] @ [finish_event (1, [Got (replicate 128 (CHR ''a''))], [Room 24])]) (one_client, 0) =
     Some (Inr (), s1, 0) \<and> connection_done 9 (''error: command too long'' @ [nl]) s1"
  by (rule control_command_too_long)
    (simp_all add: one_client_inv delivers_def accepts_def data_events_def)

text \<open>
  Property C32 (short writes). A reply that the socket takes in pieces, over any number of writable
  events, is delivered completely and without repetition, and then the connection is closed. The
  program state is not touched again: the command is not executed a second time.
\<close>

theorem control_reply_completed:
  assumes "server_inv s" "map_of (clients s) f = Some c" "responding c"
    and "\<forall>(ev, outs) \<in> set ws. \<not> broken ev \<and> (\<forall>x \<in> set outs. accepts x)"
    and "sent c + room_events ws < length (response c)"
    and "\<forall>x \<in> set outs. accepts x"
    and "length (response c) \<le> sent c + room_events ws + room_of outs"
  shows "\<exists>s1. session h f (map send_event ws @ [finish_event (ev, [], outs)]) (s, a) =
      Some (Inr (), s1, a) \<and> connection_done f (response c) s1"
  using server_inv_client_ok [OF assms(1,2)] assms
  by (intro session_completed) (simp_all add: client_ok_def)

definition slow_client :: control_server where
  "slow_client = one_client\<lparr>clients := [(9, new_client\<lparr>response := ''hello'', sent := 1, responding := True\<rparr>)],
     wire := (\<lambda>_. ''h'')\<rparr>"

theorem control_reply_completed_witness:
  "\<exists>s1. session (\<lambda>cmd n. (Inr cmd, Suc n)) 9
     (map send_event [(4, [Room 2])] @ [finish_event (4, [], [Room 1, Room 1])]) (slow_client, 0) =
     Some (Inr (), s1, 0) \<and> connection_done 9 ''hello'' s1"
proof -
  have "server_inv slow_client"
    by (auto simp: slow_client_def server_inv_def one_client_def client_ok_def client_wire_def
        split: if_splits)
  then show ?thesis
    using control_reply_completed [of slow_client 9 "new_client\<lparr>response := ''hello'', sent := 1, responding := True\<rparr>"
        "[(4, [Room 2])]" "[Room 1, Room 1]" "\<lambda>cmd n. (Inr cmd, Suc n)" 4 0]
    by (simp add: slow_client_def accepts_def room_events_def broken_def EPOLLERR_def EPOLLHUP_def)
qed

text \<open>
  Property C12 (consistency of server and reactor). In every reachable state there are at most 64
  connections, the client callbacks registered with the reactor are exactly those of the open
  connections, and each connection has sent a prefix of its reply. Hence an event for a registered
  callback always finds its connection: \<open>clients_.at\<close> never throws, and the only exception that can
  leave \<open>ready\<close> is a failing \<open>epoll_ctl\<close>.
\<close>

theorem control_server_consistent:
  assumes "server_reach h a0 (s, a)"
  shows "length (clients s) \<le> 64 \<and>
    (\<forall>f. callbacks (loop s) f = Some (Client_cb f) \<longleftrightarrow> map_of (clients s) f \<noteq> None) \<and>
    (\<forall>f c. map_of (clients s) f = Some c \<longrightarrow> wire s f = take (sent c) (response c)) \<and>
    (\<forall>f g ev io r s1 a1. callbacks (loop s) f = Some (Client_cb g) \<longrightarrow>
       ready h g ev io (s, a) = Some (r, s1, a1) \<longrightarrow>
       r = Inr () \<or> (\<exists>e. mod_err io = Some e \<and> r = Inl (Sys_error ''epoll_ctl MOD'' e)))"
proof -
  have inv: "server_inv s" using server_reach_inv [OF assms] by simp
  moreover have "r = Inr () \<or> (\<exists>e. mod_err io = Some e \<and> r = Inl (Sys_error ''epoll_ctl MOD'' e))"
    if "callbacks (loop s) f = Some (Client_cb g)" "ready h g ev io (s, a) = Some (r, s1, a1)"
    for f g ev io r s1 a1
    using server_inv_registered [OF inv that(1)] that(2) ready_result [of s g h ev io a r s1 a1]
    by auto
  ultimately show ?thesis by (auto simp: server_inv_def client_ok_def client_wire_def)
qed

theorem control_server_consistent_witness:
  "length (clients (new_control_server \<lparr>epoll_fd = 8, interest = Map.empty, callbacks = Map.empty\<rparr>)) \<le> 64"
  using control_server_consistent
    [OF server_reach.start [of "\<lambda>cmd n. (Inr cmd, n + 1 :: nat)" 0]] by blast

text \<open>
  Bounded buffering. The request buffer of a connection never exceeds 255 bytes,
  whatever a client sends, since each \<open>recv\<close> call delivers at most the 128 bytes of its buffer.
\<close>

theorem control_request_bounded:
  assumes "server_reach h a0 (s, a)" "map_of (clients s) f = Some c" "\<not> responding c"
    and "recv_bounded xs" "recv_loop h ev xs c a = Some (out, c1, a1)"
  shows "length (request c) \<le> 127 \<and> length (request c1) \<le> 255"
proof -
  have "client_ok c (wire s f)"
    using server_reach_inv [OF assms(1)] assms(2) by (auto intro: server_inv_client_ok)
  with assms(3) have "length (request c) \<le> 127" by (simp add: client_ok_def verdict_Need_more)
  with recv_loop_request_bound [OF assms(5,4)] show ?thesis by simp
qed

definition fresh_server :: control_server where
  "fresh_server = new_control_server \<lparr>epoll_fd = 8, interest = Map.empty, callbacks = Map.empty\<rparr>"

lemma one_arrived: "server_reach h a0 (snd (add_client None 9 fresh_server), a0)"
  by (rule server_reach.arrive [OF server_reach.start, where xs = "[Accepted 9 None, Accept_err EAGAIN]" and r = "Inr ()"])
    (simp_all add: add_client_def add_def fresh_server_def new_control_server_def)

theorem control_request_bounded_witness:
  "length (request (new_client\<lparr>request := ''abc''\<rparr>)) \<le> 255"
proof -
  have "length (request new_client) \<le> 127 \<and> length (request (new_client\<lparr>request := ''abc''\<rparr>)) \<le> 255"
    by (rule control_request_bounded [OF one_arrived [of "\<lambda>cmd n. (Inr cmd, n + 1 :: nat)" 0], where
          f = 9 and xs = "[Got ''abc'', In_err EAGAIN]" and ev = 1 and out = Keep and ?a1.0 = 0])
      (simp_all add: add_client_def add_def fresh_server_def new_control_server_def new_client_def
        recv_bounded_def recv_loop_chunk verdict_Need_more broken_def EPOLLERR_def EPOLLHUP_def)
  then show ?thesis by blast
qed

text \<open>
  Property C34 (termination). \<open>ready\<close> and \<open>accept_ready\<close> return: their loops end at the first call
  that fails with anything but \<open>EINTR\<close>, which a non-blocking socket answers with \<open>EAGAIN\<close> when it
  has nothing more to give or to take.
\<close>

theorem control_loops_return:
  "ready h f ev \<lparr>recvs = xs @ [In_err EAGAIN], sends = ys @ [Out_err EAGAIN], mod_err = m\<rparr> (s, a) \<noteq> None \<and>
   accept_ready (zs @ [Accept_err EAGAIN]) s \<noteq> None"
  using ready_returns [of EAGAIN "\<lparr>recvs = xs @ [In_err EAGAIN], sends = ys @ [Out_err EAGAIN], mod_err = m\<rparr>" EAGAIN]
    accept_ready_returns [of EAGAIN "zs @ [Accept_err EAGAIN]"]
  by simp

end
