(* ===== verification/Uapi.thy ===== *)
theory Uapi
  imports Sensorhub_Prelude
begin

text \<open>
  The user/kernel interface \<open>include/sensorhub_uapi.h\<close>: the sample, configuration and statistics
  structures with their byte layout on a little-endian 64-bit machine (natural alignment), and the
  ioctl requests. \<open>struct sensorhub_sample\<close> has no padding (32 bytes),
  \<open>struct sensorhub_stats\<close> has four bytes of tail padding (48 bytes).
\<close>

section \<open>Structures\<close>

definition SENSORHUB_SAMPLE_TEMP :: u32 where "SENSORHUB_SAMPLE_TEMP = 1"
definition SENSORHUB_SAMPLE_ACCEL :: u32 where "SENSORHUB_SAMPLE_ACCEL = 2"
definition SENSORHUB_SAMPLE_GYRO :: u32 where "SENSORHUB_SAMPLE_GYRO = 3"
definition SENSORHUB_SAMPLE_USER :: u32 where "SENSORHUB_SAMPLE_USER = 100"

lemmas sample_type_defs =
  SENSORHUB_SAMPLE_TEMP_def SENSORHUB_SAMPLE_ACCEL_def
  SENSORHUB_SAMPLE_GYRO_def SENSORHUB_SAMPLE_USER_def

record sensorhub_sample =
  seq :: u64
  timestamp_ns :: u64
  stype :: u32
  value0 :: s32
  value1 :: s32
  value2 :: s32

record sensorhub_config =
  interval_ms :: u32
  enabled :: u32

record sensorhub_stats =
  generated :: u64
  injected :: u64
  dropped_samples :: u64
  read_bytes :: u64
  fifo_bytes :: u32
  fifo_capacity :: u32
  open_count :: u32

datatype ioctl_request =
    SENSORHUB_IOC_GET_CONFIG
  | SENSORHUB_IOC_SET_CONFIG
  | SENSORHUB_IOC_GET_STATS
  | SENSORHUB_IOC_RESET
  | Other_ioctl u32

definition zero_sample :: sensorhub_sample where
  "zero_sample = \<lparr>seq = 0, timestamp_ns = 0, stype = 0, value0 = 0, value1 = 0, value2 = 0\<rparr>"

section \<open>Byte layout of a sample\<close>

abbreviation sample_size :: nat where "sample_size \<equiv> 32"

definition encode_sample :: "sensorhub_sample \<Rightarrow> byte list" where
  "encode_sample s =
     le_enc 8 (unat (seq s)) @ le_enc 8 (unat (timestamp_ns s)) @ le_enc 4 (unat (stype s)) @
     le_enc 4 (unat (value0 s)) @ le_enc 4 (unat (value1 s)) @ le_enc 4 (unat (value2 s))"

definition decode_sample :: "byte list \<Rightarrow> sensorhub_sample" where
  "decode_sample bs = \<lparr>
     seq = word_of_nat (le_dec (take 8 bs)),
     timestamp_ns = word_of_nat (le_dec (take 8 (drop 8 bs))),
     stype = word_of_nat (le_dec (take 4 (drop 16 bs))),
     value0 = word_of_nat (le_dec (take 4 (drop 20 bs))),
     value1 = word_of_nat (le_dec (take 4 (drop 24 bs))),
     value2 = word_of_nat (le_dec (take 4 (drop 28 bs)))\<rparr>"

text \<open>Reading \<open>count\<close> structures from the start of a buffer.\<close>

fun decode_samples :: "nat \<Rightarrow> byte list \<Rightarrow> sensorhub_sample list" where
  "decode_samples 0 bs = []"
| "decode_samples (Suc n) bs =
     decode_sample (take sample_size bs) # decode_samples n (drop sample_size bs)"

definition encode_samples :: "sensorhub_sample list \<Rightarrow> byte list" where
  "encode_samples ss = concat (map encode_sample ss)"

lemma length_encode_sample [simp]: "length (encode_sample s) = sample_size"
  by (simp add: encode_sample_def)

lemma le_dec_enc_u64: "le_dec (le_enc 8 (unat w)) = unat w" for w :: u64
  by (rule le_dec_enc) (use unat_less_u64 [of w] in simp)

lemma le_dec_enc_u32: "le_dec (le_enc 4 (unat w)) = unat w" for w :: u32
  by (rule le_dec_enc) (use unat_less_u32 [of w] in simp)

lemma decode_encode_sample [simp]: "decode_sample (encode_sample s) = s"
  by (simp add: decode_sample_def encode_sample_def le_dec_enc_u64 le_dec_enc_u32)

lemma encode_samples_Nil [simp]: "encode_samples [] = []"
  by (simp add: encode_samples_def)

lemma encode_samples_Cons [simp]:
  "encode_samples (s # ss) = encode_sample s @ encode_samples ss"
  by (simp add: encode_samples_def)

lemma encode_samples_append [simp]:
  "encode_samples (xs @ ys) = encode_samples xs @ encode_samples ys"
  by (simp add: encode_samples_def)

lemma length_encode_samples [simp]: "length (encode_samples ss) = sample_size * length ss"
  by (induction ss) simp_all

lemma decode_encode_samples:
  "decode_samples (length ss) (encode_samples ss @ rest) = ss"
  by (induction ss) simp_all

lemma decode_encode_samples0 [simp]: "decode_samples (length ss) (encode_samples ss) = ss"
  using decode_encode_samples [of ss "[]"] by simp

lemma take_encode_samples:
  "take (sample_size * n) (encode_samples ss) = encode_samples (take n ss)"
proof (induction n arbitrary: ss)
  case 0
  then show ?case by simp
next
  case (Suc n)
  then show ?case by (cases ss) simp_all
qed

lemma drop_encode_samples:
  "drop (sample_size * n) (encode_samples ss) = encode_samples (drop n ss)"
proof (induction n arbitrary: ss)
  case 0
  then show ?case by simp
next
  case (Suc n)
  then show ?case by (cases ss) simp_all
qed

lemma length_decode_samples [simp]: "length (decode_samples n bs) = n"
  by (induction n bs rule: decode_samples.induct) simp_all

lemma le_enc_dec_take: "length bs = n \<Longrightarrow> n = 4 \<Longrightarrow>
    le_enc 4 (unat (word_of_nat (le_dec bs) :: u32)) = bs"
  using le_dec_less [of bs] by (simp add: unat_of_nat le_enc_dec)

lemma le_enc_dec_take8: "length bs = 8 \<Longrightarrow>
    le_enc 8 (unat (word_of_nat (le_dec bs) :: u64)) = bs"
  using le_dec_less [of bs] by (simp add: unat_of_nat le_enc_dec)

lemma encode_decode_sample:
  assumes "length bs = sample_size"
  shows "encode_sample (decode_sample bs) = bs"
proof -
  have "bs = take 8 bs @ take 8 (drop 8 bs) @ take 4 (drop 16 bs) @ take 4 (drop 20 bs) @
      take 4 (drop 24 bs) @ take 4 (drop 28 bs)"
  proof -
    have split: "drop i bs = take n (drop i bs) @ drop (i + n) bs" for i n
      by (metis append_take_drop_id drop_drop add.commute)
    have "drop 0 bs = take 8 (drop 0 bs) @ take 8 (drop 8 bs) @ take 4 (drop 16 bs) @
        take 4 (drop 20 bs) @ take 4 (drop 24 bs) @ take 4 (drop 28 bs) @ drop 32 bs"
      using split [of 0 8] split [of 8 8] split [of 16 4] split [of 20 4] split [of 24 4]
        split [of 28 4] by simp
    then show ?thesis using assms by simp
  qed
  moreover have "encode_sample (decode_sample bs) =
      take 8 bs @ take 8 (drop 8 bs) @ take 4 (drop 16 bs) @ take 4 (drop 20 bs) @
      take 4 (drop 24 bs) @ take 4 (drop 28 bs)"
    using assms
    by (simp add: encode_sample_def decode_sample_def le_enc_dec_take le_enc_dec_take8)
  ultimately show ?thesis by simp
qed

section \<open>Byte layout of the configuration and the statistics\<close>

definition encode_config :: "sensorhub_config \<Rightarrow> byte list" where
  "encode_config c = le_enc 4 (unat (interval_ms c)) @ le_enc 4 (unat (enabled c))"

definition decode_config :: "byte list \<Rightarrow> sensorhub_config" where
  "decode_config bs = \<lparr>
     interval_ms = word_of_nat (le_dec (take 4 bs)),
     enabled = word_of_nat (le_dec (take 4 (drop 4 bs)))\<rparr>"

definition encode_stats :: "sensorhub_stats \<Rightarrow> byte list" where
  "encode_stats s =
     le_enc 8 (unat (generated s)) @ le_enc 8 (unat (injected s)) @
     le_enc 8 (unat (dropped_samples s)) @ le_enc 8 (unat (read_bytes s)) @
     le_enc 4 (unat (fifo_bytes s)) @ le_enc 4 (unat (fifo_capacity s)) @
     le_enc 4 (unat (open_count s)) @ [0, 0, 0, 0]"

definition decode_stats :: "byte list \<Rightarrow> sensorhub_stats" where
  "decode_stats bs = \<lparr>
     generated = word_of_nat (le_dec (take 8 bs)),
     injected = word_of_nat (le_dec (take 8 (drop 8 bs))),
     dropped_samples = word_of_nat (le_dec (take 8 (drop 16 bs))),
     read_bytes = word_of_nat (le_dec (take 8 (drop 24 bs))),
     fifo_bytes = word_of_nat (le_dec (take 4 (drop 32 bs))),
     fifo_capacity = word_of_nat (le_dec (take 4 (drop 36 bs))),
     open_count = word_of_nat (le_dec (take 4 (drop 40 bs)))\<rparr>"

lemma length_encode_config [simp]: "length (encode_config c) = 8"
  by (simp add: encode_config_def)

lemma decode_encode_config [simp]: "decode_config (encode_config c) = c"
  by (simp add: decode_config_def encode_config_def le_dec_enc_u32)

lemma length_encode_stats [simp]: "length (encode_stats s) = 48"
  by (simp add: encode_stats_def)

lemma decode_encode_stats [simp]: "decode_stats (encode_stats s) = s"
  by (simp add: decode_stats_def encode_stats_def le_dec_enc_u64 le_dec_enc_u32)

end
