(* ===== verification/Kfifo.thy ===== *)
theory Kfifo
  imports Sensorhub_Prelude
begin

text \<open>
  The kernel's byte FIFO (\<open>linux/kfifo.h\<close>) is not part of the repository. The driver model takes its
  operations as an argument, a value of \<open>kfifo_ops\<close>; the locale \<open>kfifo_api\<close> states the documented
  behaviour that the driver relies on. A ring buffer with free-running 32-bit indices, the
  design of the kernel's FIFO, satisfies these laws: \<open>ring_ops\<close> is the instance on which the
  properties of the driver are evaluated.
\<close>

section \<open>Interface\<close>

record 'f kfifo_ops =
  kfifo_alloc :: "nat \<Rightarrow> errno + 'f"
  kfifo_in :: "byte list \<Rightarrow> 'f \<Rightarrow> nat \<times> 'f"
  kfifo_out :: "nat \<Rightarrow> 'f \<Rightarrow> byte list \<times> 'f"
  kfifo_len :: "'f \<Rightarrow> nat"
  kfifo_size :: "'f \<Rightarrow> nat"
  kfifo_is_empty :: "'f \<Rightarrow> bool"
  kfifo_reset :: "'f \<Rightarrow> 'f"

locale kfifo_api =
  fixes K :: "'f kfifo_ops"
    and bytes :: "'f \<Rightarrow> byte list"
    and ok :: "'f \<Rightarrow> bool"
  assumes alloc: "kfifo_alloc K (2 ^ k) = Inr f \<Longrightarrow> ok f \<and> bytes f = [] \<and> kfifo_size K f = 2 ^ k"
    and in_count: "ok f \<Longrightarrow> fst (kfifo_in K bs f) = min (length bs) (kfifo_size K f - length (bytes f))"
    and in_bytes: "ok f \<Longrightarrow>
      bytes (snd (kfifo_in K bs f)) = bytes f @ take (kfifo_size K f - length (bytes f)) bs"
    and in_ok: "ok f \<Longrightarrow> ok (snd (kfifo_in K bs f)) \<and> kfifo_size K (snd (kfifo_in K bs f)) = kfifo_size K f"
    and out_bytes: "ok f \<Longrightarrow> fst (kfifo_out K n f) = take n (bytes f)"
    and out_rest: "ok f \<Longrightarrow> bytes (snd (kfifo_out K n f)) = drop n (bytes f)"
    and out_ok: "ok f \<Longrightarrow> ok (snd (kfifo_out K n f)) \<and> kfifo_size K (snd (kfifo_out K n f)) = kfifo_size K f"
    and len: "ok f \<Longrightarrow> kfifo_len K f = length (bytes f)"
    and len_le: "ok f \<Longrightarrow> length (bytes f) \<le> kfifo_size K f"
    and is_empty: "ok f \<Longrightarrow> kfifo_is_empty K f \<longleftrightarrow> bytes f = []"
    and reset: "ok f \<Longrightarrow> ok (kfifo_reset K f) \<and> bytes (kfifo_reset K f) = [] \<and>
      kfifo_size K (kfifo_reset K f) = kfifo_size K f"

section \<open>A ring buffer with free-running indices\<close>

record ring =
  rdata :: "byte list"
  rin :: u32
  rout :: u32

definition ring_len :: "ring \<Rightarrow> nat" where
  "ring_len r = unat (rin r - rout r)"

definition ring_slot :: "ring \<Rightarrow> u32 \<Rightarrow> nat" where
  "ring_slot r i = unat i mod length (rdata r)"

definition ring_put :: "byte \<Rightarrow> ring \<Rightarrow> ring" where
  "ring_put b r = r\<lparr>rdata := (rdata r)[ring_slot r (rin r) := b], rin := rin r + 1\<rparr>"

fun ring_in :: "byte list \<Rightarrow> ring \<Rightarrow> nat \<times> ring" where
  "ring_in [] r = (0, r)"
| "ring_in (b # bs) r =
     (if ring_len r < length (rdata r)
      then (case ring_in bs (ring_put b r) of (n, r') \<Rightarrow> (Suc n, r'))
      else (0, r))"

fun ring_out :: "nat \<Rightarrow> ring \<Rightarrow> byte list \<times> ring" where
  "ring_out 0 r = ([], r)"
| "ring_out (Suc n) r =
     (if 0 < ring_len r
      then (case ring_out n (r\<lparr>rout := rout r + 1\<rparr>) of
              (bs, r') \<Rightarrow> (rdata r ! ring_slot r (rout r) # bs, r'))
      else ([], r))"

definition ring_alloc :: "nat \<Rightarrow> errno + ring" where
  "ring_alloc n =
     (if 0 < n \<and> n < 2 ^ 32 \<and> (2 ^ 32) mod n = 0
      then Inr \<lparr>rdata = replicate n 0, rin = 0, rout = 0\<rparr> else Inl EINVAL)"

definition ring_ops :: "ring kfifo_ops" where
  "ring_ops = \<lparr>kfifo_alloc = ring_alloc, kfifo_in = ring_in, kfifo_out = ring_out,
     kfifo_len = ring_len, kfifo_size = (\<lambda>r. length (rdata r)), kfifo_is_empty = (\<lambda>r. rin r = rout r),
     kfifo_reset = (\<lambda>r. r\<lparr>rin := 0, rout := 0\<rparr>)\<rparr>"

definition ring_bytes :: "ring \<Rightarrow> byte list" where
  "ring_bytes r = map (\<lambda>i. rdata r ! ring_slot r (rout r + word_of_nat i)) [0..<ring_len r]"

definition ring_ok :: "ring \<Rightarrow> bool" where
  "ring_ok r \<longleftrightarrow> 0 < length (rdata r) \<and> length (rdata r) < 2 ^ 32 \<and> (2 ^ 32) mod length (rdata r) = 0 \<and>
     ring_len r \<le> length (rdata r)"

section \<open>The ring buffer satisfies the laws\<close>

lemma length_ring_bytes [simp]: "length (ring_bytes r) = ring_len r"
  by (simp add: ring_bytes_def)

lemma unat_mod_add:
  assumes "(2 ^ 32) mod n = (0 :: nat)"
  shows "unat (w + word_of_nat i :: u32) mod n = (unat w + i) mod n"
proof -
  from assms have "n dvd 2 ^ 32" by auto
  then have "(unat w + i) mod 2 ^ 32 mod n = (unat w + i) mod n" by (rule mod_mod_cancel)
  then show ?thesis by (simp add: unat_word_ariths unat_of_nat mod_add_right_eq)
qed

lemma ring_slot_add:
  "ring_ok r \<Longrightarrow> ring_slot r (w + word_of_nat i) = (unat w + i) mod length (rdata r)"
  by (simp add: ring_slot_def ring_ok_def unat_mod_add)

lemma ring_slot_less: "ring_ok r \<Longrightarrow> ring_slot r i < length (rdata r)"
  by (simp add: ring_slot_def ring_ok_def)

lemma rin_eq: "rin r = rout r + word_of_nat (ring_len r)"
  by (simp add: ring_len_def)

lemma ring_len_put:
  assumes "ring_ok r" "ring_len r < length (rdata r)"
  shows "ring_len (ring_put b r) = Suc (ring_len r)"
proof -
  have "unat (rin r - rout r + 1) = (unat (rin r - rout r) + 1) mod 2 ^ 32"
    by (simp only: unat_word_ariths(1)) simp
  with assms show ?thesis
    by (simp add: ring_len_def ring_put_def ring_ok_def diff_add_eq)
qed

lemma ring_len_take:
  "0 < ring_len r \<Longrightarrow> ring_len (r\<lparr>rout := rout r + 1\<rparr>) = ring_len r - 1"
  using unat_minus_one [of "rin r - rout r"]
  by (auto simp: ring_len_def diff_diff_eq [symmetric] unat_gt_0)

lemma mod_inj_less:
  assumes "(a + i) mod n = (a + j) mod n" "i < n" "j < n"
  shows "i = (j :: nat)"
proof -
  have "i = j" if "(a + i) mod n = (a + j) mod n" "j \<le> i" "i < n" for i j
  proof -
    have "n dvd i - j" using that by (simp add: mod_eq_dvd_iff_nat)
    with that show ?thesis by (metis diff_is_0_eq dvd_imp_le le_antisym less_imp_diff_less not_gr_zero not_le)
  qed
  with assms show ?thesis by (metis nle_le)
qed

lemma ring_bytes_put:
  assumes "ring_ok r" "ring_len r < length (rdata r)"
  shows "ring_bytes (ring_put b r) = ring_bytes r @ [b]"
proof (rule nth_equalityI)
  show len: "length (ring_bytes (ring_put b r)) = length (ring_bytes r @ [b])"
    using ring_len_put [OF assms] by simp
  fix i assume "i < length (ring_bytes (ring_put b r))"
  then have i: "i \<le> ring_len r" using ring_len_put [OF assms, of b] by simp
  have slot: "ring_slot (ring_put b r) w = ring_slot r w" for w
    by (simp add: ring_slot_def ring_put_def)
  have rin: "ring_slot r (rin r) = (unat (rout r) + ring_len r) mod length (rdata r)"
    using rin_eq [of r] ring_slot_add [OF assms(1), of "rout r" "ring_len r"] by simp
  have "ring_bytes (ring_put b r) ! i =
      (rdata r)[ring_slot r (rin r) := b] ! ((unat (rout r) + i) mod length (rdata r))"
    using i ring_len_put [OF assms, of b] ring_slot_add [OF assms(1), of "rout r" i]
    by (simp add: ring_bytes_def slot del: upt_Suc) (simp add: ring_put_def)
  also have "\<dots> = (ring_bytes r @ [b]) ! i"
  proof (cases "i = ring_len r")
    case True
    then show ?thesis using ring_slot_less [OF assms(1), of "rin r"] by (simp add: rin nth_append)
  next
    case False
    with i have "i < ring_len r" by simp
    moreover from this assms have "ring_slot r (rin r) \<noteq> (unat (rout r) + i) mod length (rdata r)"
      unfolding rin by (metis less_trans mod_inj_less nat_neq_iff)
    ultimately show ?thesis
      using ring_slot_add [OF assms(1), of "rout r" i] by (simp add: nth_append ring_bytes_def)
  qed
  finally show "ring_bytes (ring_put b r) ! i = (ring_bytes r @ [b]) ! i" .
qed

lemma ring_ok_put: "ring_ok r \<Longrightarrow> ring_len r < length (rdata r) \<Longrightarrow> ring_ok (ring_put b r)"
  using ring_len_put [of r b] by (simp add: ring_ok_def) (simp add: ring_put_def)

lemma length_rdata_put [simp]: "length (rdata (ring_put b r)) = length (rdata r)"
  by (simp add: ring_put_def)

lemma ring_in_spec:
  "ring_ok r \<Longrightarrow>
     fst (ring_in bs r) = min (length bs) (length (rdata r) - ring_len r) \<and>
     ring_bytes (snd (ring_in bs r)) = ring_bytes r @ take (length (rdata r) - ring_len r) bs \<and>
     ring_ok (snd (ring_in bs r)) \<and> length (rdata (snd (ring_in bs r))) = length (rdata r)"
proof (induction bs r rule: ring_in.induct)
  case (2 b bs r)
  show ?case
  proof (cases "ring_len r < length (rdata r)")
    case True
    with 2 have "ring_ok (ring_put b r)" "ring_bytes (ring_put b r) = ring_bytes r @ [b]"
      "ring_len (ring_put b r) = Suc (ring_len r)"
      by (simp_all add: ring_ok_put ring_bytes_put ring_len_put)
    with 2 True show ?thesis
      by (cases "ring_in bs (ring_put b r)") (auto simp: Suc_diff_Suc [symmetric])
  qed (use 2 in simp)
qed simp

lemma ring_bytes_Cons:
  assumes "ring_ok r" "0 < ring_len r"
  shows "ring_bytes r = rdata r ! ring_slot r (rout r) # ring_bytes (r\<lparr>rout := rout r + 1\<rparr>)"
proof -
  obtain n where n: "ring_len r = Suc n" using assms(2) gr0_implies_Suc by blast
  have "ring_len (r\<lparr>rout := rout r + 1\<rparr>) = n" using ring_len_take [OF assms(2)] n by simp
  moreover have "ring_slot (r\<lparr>rout := rout r + 1\<rparr>) w = ring_slot r w" for w
    by (simp add: ring_slot_def)
  moreover have "[0..<Suc n] = 0 # map Suc [0..<n]" by (simp add: map_Suc_upt upt_conv_Cons)
  ultimately show ?thesis by (simp add: ring_bytes_def n add.assoc del: upt_Suc)
qed

lemma ring_ok_take: "ring_ok r \<Longrightarrow> 0 < ring_len r \<Longrightarrow> ring_ok (r\<lparr>rout := rout r + 1\<rparr>)"
  using ring_len_take [of r] by (auto simp: ring_ok_def)

lemma ring_out_spec:
  "ring_ok r \<Longrightarrow>
     fst (ring_out n r) = take n (ring_bytes r) \<and>
     ring_bytes (snd (ring_out n r)) = drop n (ring_bytes r) \<and>
     ring_ok (snd (ring_out n r)) \<and> length (rdata (snd (ring_out n r))) = length (rdata r)"
proof (induction n r rule: ring_out.induct)
  case (2 n r)
  show ?case
  proof (cases "0 < ring_len r")
    case True
    with 2 show ?thesis
      by (cases "ring_out n (r\<lparr>rout := rout r + 1\<rparr>)") (auto simp: ring_ok_take ring_bytes_Cons)
  next
    case False
    then have "ring_bytes r = []" by (simp add: ring_bytes_def)
    with 2 False show ?thesis by simp
  qed
qed simp

lemma ring_empty: "ring_bytes r = [] \<longleftrightarrow> rin r = rout r"
proof -
  have "ring_bytes r = [] \<longleftrightarrow> ring_len r = 0"
    by (metis length_0_conv length_ring_bytes)
  then show ?thesis by (simp add: ring_len_def unat_eq_0)
qed

lemma ring_alloc_spec:
  "ring_alloc n = Inr r \<Longrightarrow> ring_ok r \<and> ring_bytes r = [] \<and> length (rdata r) = n"
  by (auto simp: ring_alloc_def ring_ok_def ring_empty ring_len_def split: if_splits)

lemma ring_ok_len: "ring_ok r \<Longrightarrow> ring_len r \<le> length (rdata r)"
  by (simp add: ring_ok_def)

interpretation ring: kfifo_api ring_ops ring_bytes ring_ok
proof
  show "ring_ok (kfifo_reset ring_ops f) \<and> ring_bytes (kfifo_reset ring_ops f) = [] \<and>
      kfifo_size ring_ops (kfifo_reset ring_ops f) = kfifo_size ring_ops f" if "ring_ok f" for f
    using that by (simp add: ring_ops_def ring_ok_def ring_empty ring_len_def)
qed (auto simp: ring_ops_def ring_in_spec ring_out_spec ring_empty ring_ok_len dest: ring_alloc_spec)

end
