(* ===== verification/Bounded_Queue.thy ===== *)
theory Bounded_Queue
  imports Sensorhub_Prelude
begin

text \<open>
  The bounded queue between the event loop and the workers,
  \<open>userspace/include/bounded_queue.hpp\<close>. Every operation runs under the queue's mutex, so it is one
  atomic function on the queue state. \<open>pop\<close> waits on a condition variable; the wait predicate is
  \<open>pop_ready\<close>, and \<open>pop\<close> is the critical section that runs once the predicate holds (\<open>None\<close> as
  the outer result: the caller is still waiting). The waiting itself, with notifications and
  spurious wake-ups, is part of the thread model in \<open>Pipeline\<close>.

  The interface locale \<open>lossy_fifo\<close> is the contract of a bounded first-in first-out store that
  counts what it rejects; its client lemma describes a burst of insertions.
\<close>

section \<open>The contract of a lossy bounded FIFO\<close>

locale lossy_fifo =
  fixes put :: "'a \<Rightarrow> 'q \<Rightarrow> 'q"
    and items :: "'q \<Rightarrow> 'b list"
    and stored :: "'q \<Rightarrow> 'a \<Rightarrow> 'b"
    and room :: "'q \<Rightarrow> nat"
    and lost :: "'q \<Rightarrow> u64"
    and inv :: "'q \<Rightarrow> bool"
  assumes put_accept: "inv q \<Longrightarrow> 0 < room q \<Longrightarrow> items (put x q) = items q @ [stored q x]"
    and put_accept_room: "inv q \<Longrightarrow> 0 < room q \<Longrightarrow> room (put x q) = room q - 1"
    and put_accept_lost: "inv q \<Longrightarrow> 0 < room q \<Longrightarrow> lost (put x q) = lost q"
    and put_reject: "inv q \<Longrightarrow> room q = 0 \<Longrightarrow> items (put x q) = items q"
    and put_reject_room: "inv q \<Longrightarrow> room q = 0 \<Longrightarrow> room (put x q) = 0"
    and put_reject_lost: "inv q \<Longrightarrow> room q = 0 \<Longrightarrow> lost (put x q) = lost q + 1"
    and put_inv: "inv q \<Longrightarrow> inv (put x q)"
begin

lemma fold_put_inv: "inv q \<Longrightarrow> inv (fold put xs q)"
  by (induction xs arbitrary: q) (auto intro: put_inv)

lemma fold_put_room: "inv q \<Longrightarrow> room (fold put xs q) = room q - length xs"
proof (induction xs arbitrary: q)
  case Nil
  then show ?case by simp
next
  case (Cons x xs)
  then show ?case
    by (cases "room q") (simp_all add: put_inv put_accept_room put_reject_room)
qed

text \<open>A burst keeps its first elements, as many as there is room for, and counts the rest.\<close>

lemma fold_put_items:
  "inv q \<Longrightarrow> \<exists>ys. items (fold put xs q) = items q @ ys \<and> length ys = min (room q) (length xs)"
proof (induction xs arbitrary: q)
  case Nil
  then show ?case by simp
next
  case (Cons x xs)
  show ?case
  proof (cases "room q")
    case 0
    with Cons show ?thesis
      using Cons.IH [of "put x q"] by (simp add: put_inv put_reject put_reject_room)
  next
    case (Suc r)
    with Cons.IH [of "put x q"] Cons.prems obtain ys where
      "items (fold put xs (put x q)) = items q @ stored q x # ys" "length ys = min r (length xs)"
      by (auto simp: put_inv put_accept put_accept_room)
    with Suc show ?thesis by (intro exI [of _ "stored q x # ys"]) simp
  qed
qed

lemma fold_put_lost:
  "inv q \<Longrightarrow> lost (fold put xs q) = lost q + word_of_nat (length xs - room q)"
proof (induction xs arbitrary: q)
  case Nil
  then show ?case by simp
next
  case (Cons x xs)
  then show ?case
    by (cases "room q")
      (simp_all add: put_inv put_accept_room put_accept_lost put_reject_room put_reject_lost)
qed

end

section \<open>The queue\<close>

record 'a bounded_queue =
  capacity :: u64
  queue :: "'a list"
  closed :: bool
  dropped :: u64

definition new_queue :: "u64 \<Rightarrow> 'a bounded_queue" where
  "new_queue cap = \<lparr>capacity = cap, queue = [], closed = False, dropped = 0\<rparr>"

definition push :: "'a \<Rightarrow> 'a bounded_queue \<Rightarrow> bool \<times> 'a bounded_queue" where
  "push value q =
     (if closed q \<or> length (queue q) \<ge> unat (capacity q)
      then (False, q\<lparr>dropped := dropped q + 1\<rparr>)
      else (True, q\<lparr>queue := queue q @ [value]\<rparr>))"

definition pop_ready :: "'a bounded_queue \<Rightarrow> bool" where
  "pop_ready q \<longleftrightarrow> closed q \<or> queue q \<noteq> []"

definition pop :: "'a bounded_queue \<Rightarrow> ('a option \<times> 'a bounded_queue) option" where
  "pop q =
     (if \<not> pop_ready q then None
      else case queue q of
             [] \<Rightarrow> Some (None, q)
           | value # rest \<Rightarrow> Some (Some value, q\<lparr>queue := rest\<rparr>))"

definition close :: "'a bounded_queue \<Rightarrow> 'a bounded_queue" where
  "close q = q\<lparr>closed := True\<rparr>"

definition bq_size :: "'a bounded_queue \<Rightarrow> u64" where
  "bq_size q = word_of_nat (length (queue q))"

definition bq_dropped :: "'a bounded_queue \<Rightarrow> u64" where
  "bq_dropped q = dropped q"

section \<open>Invariant and behaviour\<close>

definition queue_inv :: "'a bounded_queue \<Rightarrow> bool" where
  "queue_inv q \<longleftrightarrow> length (queue q) \<le> unat (capacity q)"

definition queue_room :: "'a bounded_queue \<Rightarrow> nat" where
  "queue_room q = (if closed q then 0 else unat (capacity q) - length (queue q))"

lemma queue_inv_new [inv_intros]: "queue_inv (new_queue cap)"
  by (simp add: queue_inv_def new_queue_def)

lemma queue_inv_push [inv_intros]: "queue_inv q \<Longrightarrow> queue_inv (snd (push x q))"
  by (auto simp: queue_inv_def push_def)

lemma queue_inv_pop [inv_intros]: "pop q = Some (r, q') \<Longrightarrow> queue_inv q \<Longrightarrow> queue_inv q'"
  by (auto simp: queue_inv_def pop_def split: if_splits list.splits)

lemma queue_inv_close [inv_intros]: "queue_inv q \<Longrightarrow> queue_inv (close q)"
  by (simp add: queue_inv_def close_def)

lemma push_capacity [simp]: "capacity (snd (push x q)) = capacity q"
  by (simp add: push_def)

lemma push_closed [simp]: "closed (snd (push x q)) = closed q"
  by (simp add: push_def)

lemma push_True [step_simps]:
  "push x q = (True, q') \<longleftrightarrow>
     \<not> closed q \<and> length (queue q) < unat (capacity q) \<and> q' = q\<lparr>queue := queue q @ [x]\<rparr>"
  by (auto simp: push_def)

lemma push_False [step_simps]:
  "push x q = (False, q') \<longleftrightarrow>
     (closed q \<or> unat (capacity q) \<le> length (queue q)) \<and> q' = q\<lparr>dropped := dropped q + 1\<rparr>"
  by (auto simp: push_def)

lemma pop_None [step_simps]: "pop q = None \<longleftrightarrow> \<not> closed q \<and> queue q = []"
  by (auto simp: pop_def pop_ready_def split: list.splits)

lemma pop_end [step_simps]: "pop q = Some (None, q') \<longleftrightarrow> closed q \<and> queue q = [] \<and> q' = q"
  by (auto simp: pop_def pop_ready_def split: list.splits)

lemma pop_value [step_simps]:
  "pop q = Some (Some x, q') \<longleftrightarrow> (\<exists>rest. queue q = x # rest \<and> q' = q\<lparr>queue := rest\<rparr>)"
  by (auto simp: pop_def pop_ready_def split: list.splits)

interpretation bq: lossy_fifo "\<lambda>x q. snd (push x q)" queue "\<lambda>_ x. x" queue_room dropped queue_inv
  by unfold_locales
    (auto simp: push_def queue_room_def queue_inv_def split: if_splits)

section \<open>Bursts of pushes and draining\<close>

text \<open>The reader callback pushes the samples of one read one after the other.\<close>

definition push_all :: "'a list \<Rightarrow> 'a bounded_queue \<Rightarrow> 'a bounded_queue" where
  "push_all xs q = fold (\<lambda>x q. snd (push x q)) xs q"

lemma push_all_Nil [simp]: "push_all [] q = q"
  by (simp add: push_all_def)

lemma push_all_Cons [simp]: "push_all (x # xs) q = push_all xs (snd (push x q))"
  by (simp add: push_all_def)

lemma push_all_inv [inv_intros]: "queue_inv q \<Longrightarrow> queue_inv (push_all xs q)"
  unfolding push_all_def by (rule bq.fold_put_inv)

lemma push_all_closed [simp]: "closed (push_all xs q) = closed q"
  by (induction xs arbitrary: q) simp_all

lemma push_all_capacity [simp]: "capacity (push_all xs q) = capacity q"
  by (induction xs arbitrary: q) simp_all

lemma push_all_items:
  "queue_inv q \<Longrightarrow> queue (push_all xs q) = queue q @ take (queue_room q) xs"
proof (induction xs arbitrary: q)
  case Nil
  then show ?case by simp
next
  case (Cons x xs)
  have "queue (push_all xs (snd (push x q))) =
      queue (snd (push x q)) @ take (queue_room (snd (push x q))) xs"
    using Cons.IH queue_inv_push [OF Cons.prems] by blast
  with Cons.prems show ?case
    by (cases "queue_room q")
      (simp_all add: bq.put_accept bq.put_accept_room bq.put_reject bq.put_reject_room)
qed

lemma push_all_lost:
  "queue_inv q \<Longrightarrow>
     dropped (push_all xs q) = dropped q + word_of_nat (length xs - queue_room q)"
  unfolding push_all_def by (rule bq.fold_put_lost)

text \<open>What successive calls of \<open>pop\<close> return once the queue is closed.\<close>

fun drain :: "nat \<Rightarrow> 'a bounded_queue \<Rightarrow> 'a option list" where
  "drain 0 q = []"
| "drain (Suc n) q = (case pop q of None \<Rightarrow> [] | Some (r, q') \<Rightarrow> r # drain n q')"

lemma drain_closed:
  "closed q \<Longrightarrow> drain n q = map Some (take n (queue q)) @ replicate (n - length (queue q)) None"
proof (induction n arbitrary: q)
  case 0
  then show ?case by simp
next
  case (Suc n)
  then show ?case
    by (cases "queue q") (simp_all add: pop_def pop_ready_def)
qed

section \<open>Sequences of operations\<close>

text \<open>
  The calls of all threads, in the order in which they hold the mutex, with a record of what
  happened: the values that were accepted, the values that were popped, the number of rejected
  values. A \<open>Pop\<close> that has to wait leaves the state unchanged.
\<close>

datatype 'a queue_op = Push 'a | Pop | Close

record 'a queue_trace =
  tq :: "'a bounded_queue"
  accepted :: "'a list"
  popped :: "'a list"
  rejected :: nat

fun queue_step :: "'a queue_op \<Rightarrow> 'a queue_trace \<Rightarrow> 'a queue_trace" where
  "queue_step (Push x) t =
     (case push x (tq t) of
        (True, q) \<Rightarrow> t\<lparr>tq := q, accepted := accepted t @ [x]\<rparr>
      | (False, q) \<Rightarrow> t\<lparr>tq := q, rejected := rejected t + 1\<rparr>)"
| "queue_step Pop t =
     (case pop (tq t) of
        Some (Some x, q) \<Rightarrow> t\<lparr>tq := q, popped := popped t @ [x]\<rparr>
      | _ \<Rightarrow> t)"
| "queue_step Close t = t\<lparr>tq := close (tq t)\<rparr>"

definition run_ops :: "'a queue_op list \<Rightarrow> u64 \<Rightarrow> 'a queue_trace" where
  "run_ops ops cap = fold queue_step ops \<lparr>tq = new_queue cap, accepted = [], popped = [], rejected = 0\<rparr>"

definition trace_inv :: "u64 \<Rightarrow> 'a queue_trace \<Rightarrow> bool" where
  "trace_inv cap t \<longleftrightarrow> accepted t = popped t @ queue (tq t) \<and> capacity (tq t) = cap \<and>
     queue_inv (tq t) \<and> dropped (tq t) = word_of_nat (rejected t)"

lemma queue_step_inv [inv_intros]: "trace_inv cap t \<Longrightarrow> trace_inv cap (queue_step op t)"
  by (cases op; cases "queue (tq t)")
    (auto simp: trace_inv_def queue_inv_def push_def pop_def pop_ready_def close_def)

lemma fold_queue_step_inv: "trace_inv cap t \<Longrightarrow> trace_inv cap (fold queue_step ops t)"
  by (induction ops arbitrary: t) (auto intro: inv_intros)

lemma queue_step_count:
  "length (accepted (queue_step op t)) + rejected (queue_step op t) =
     length (accepted t) + rejected t + (case op of Push x \<Rightarrow> 1 | _ \<Rightarrow> 0)"
  by (cases op) (auto simp: push_def split: option.splits)

lemma fold_queue_step_count:
  "length (accepted (fold queue_step ops t)) + rejected (fold queue_step ops t) =
     length (accepted t) + rejected t + length (filter (\<lambda>op. case op of Push x \<Rightarrow> True | _ \<Rightarrow> False) ops)"
proof (induction ops arbitrary: t)
  case (Cons op ops)
  then show ?case using queue_step_count [of op t] by (cases op) simp_all
qed simp

section \<open>Properties\<close>

text \<open>
  Property C10 (first in, first out, nothing lost or duplicated). For every interleaving of the
  queue's operations, the values popped followed by the values still queued are exactly the values
  accepted, in the order of acceptance; the queue never holds more than its capacity; every pushed
  value is either accepted or counted as dropped.
\<close>

theorem queue_fifo:
  "accepted (run_ops ops cap) = popped (run_ops ops cap) @ queue (tq (run_ops ops cap)) \<and>
   length (queue (tq (run_ops ops cap))) \<le> unat cap \<and>
   dropped (tq (run_ops ops cap)) = word_of_nat (rejected (run_ops ops cap)) \<and>
   length (accepted (run_ops ops cap)) + rejected (run_ops ops cap) =
     length (filter (\<lambda>op. case op of Push x \<Rightarrow> True | _ \<Rightarrow> False) ops)"
proof -
  have "trace_inv cap (run_ops ops cap)"
    unfolding run_ops_def
    by (rule fold_queue_step_inv) (simp add: trace_inv_def queue_inv_def new_queue_def)
  moreover have "length (accepted (run_ops ops cap)) + rejected (run_ops ops cap) =
      length (filter (\<lambda>op. case op of Push x \<Rightarrow> True | _ \<Rightarrow> False) ops)"
    unfolding run_ops_def by (simp add: fold_queue_step_count)
  ultimately show ?thesis by (auto simp: trace_inv_def queue_inv_def)
qed

text \<open>
  Burst. The samples of one read, pushed one after the other with no consumer in
  between, fill the free places in order; exactly the surplus is rejected and counted.
\<close>

theorem queue_burst:
  assumes "queue_inv q" and "\<not> closed q"
  shows "queue (push_all xs q) = queue q @ take (unat (capacity q) - length (queue q)) xs \<and>
    dropped (push_all xs q) =
      dropped q + word_of_nat (length xs - (unat (capacity q) - length (queue q)))"
  using push_all_items [OF assms(1)] push_all_lost [OF assms(1)] assms(2)
  by (simp add: queue_room_def)

theorem queue_burst_witness:
  "queue (push_all [7, 8, 9 :: nat] (new_queue 2)) = [7, 8]"
  using queue_burst [of "new_queue 2 :: nat bounded_queue" "[7, 8, 9]"]
  by (simp add: queue_inv_def new_queue_def)

text \<open>
  Draining. After \<open>close\<close>, successive pops never block: they return the values that were
  queued, in order and each once, and then the end marker for ever.
\<close>

theorem queue_drained_after_close:
  "drain n (close q) = map Some (take n (queue q)) @ replicate (n - length (queue q)) None"
  using drain_closed [of "close q" n] by (simp add: close_def)

end
