(* ===== verification/Driver.thy ===== *)
theory Driver
  imports Uapi Kfifo Bounded_Queue Epoll_Loop
begin

text \<open>
  The kernel driver \<open>kernel/sensorhub_drv.c\<close>. Its state is \<open>struct sensorhub_device\<close>; the kernel
  FIFO operations are the argument \<open>K\<close>. \<open>timer\<close> is the state of the high-resolution timer: \<open>None\<close>
  when it is not queued, \<open>Some ms\<close> when it was last programmed with a delay of \<open>ms\<close> milliseconds.
  \<open>wake_ups\<close> counts the calls of \<open>wake_up_interruptible\<close>.

  Each section under the spinlock is one atomic function. \<open>sensorhub_read\<close> has two such sections (the
  test for data and the copy) and may sleep between them: what the other contexts do meanwhile is an
  argument. The results of \<open>copy_to_user\<close>, \<open>copy_from_user\<close>, the clock and the random generator are
  arguments too, and so are the number parsers \<open>kstrtouint\<close> and \<open>kstrtobool\<close> of the kernel library.
\<close>

section \<open>State\<close>

definition SENSORHUB_FIFO_BYTES :: nat where "SENSORHUB_FIFO_BYTES = 2 ^ 16"
definition SENSORHUB_DEFAULT_INTERVAL_MS :: u32 where "SENSORHUB_DEFAULT_INTERVAL_MS = 500"
definition EPOLLRDNORM :: u32 where "EPOLLRDNORM = 0x040"
definition EPOLLWRNORM :: u32 where "EPOLLWRNORM = 0x100"

record 'f sensorhub_device =
  fifo :: 'f
  timer :: "u32 option"
  config :: sensorhub_config
  d_open_count :: u32
  next_seq :: u64
  d_generated :: u64
  d_injected :: u64
  d_dropped :: u64
  d_read_bytes :: u64
  wake_ups :: nat

text \<open>What an entry returns; \<open>Asleep\<close> is a call that has not returned because it waits for data.\<close>

datatype reply = Err errno | Ret nat | Data "byte list" | Asleep

datatype hrtimer_restart = HRTIMER_NORESTART | HRTIMER_RESTART

section \<open>Operations\<close>

definition sensorhub_has_data :: "'f kfifo_ops \<Rightarrow> 'f sensorhub_device \<Rightarrow> bool" where
  "sensorhub_has_data K dev \<longleftrightarrow> \<not> kfifo_is_empty K (fifo dev)"

definition sensorhub_apply_config :: "sensorhub_config \<Rightarrow> 'f sensorhub_device \<Rightarrow> 'f sensorhub_device" where
  "sensorhub_apply_config cfg dev =
     (let dev1 = dev\<lparr>config := \<lparr>interval_ms = interval_ms cfg,
                                enabled = (if enabled cfg \<noteq> 0 then 1 else 0)\<rparr>\<rparr>
      in if enabled cfg \<noteq> 0 then dev1\<lparr>timer := Some (interval_ms cfg)\<rparr> else dev1\<lparr>timer := None\<rparr>)"

definition sensorhub_push_sample :: "'f kfifo_ops \<Rightarrow> sensorhub_sample \<Rightarrow> bool \<Rightarrow>
    'f sensorhub_device \<Rightarrow> 'f sensorhub_device" where
  "sensorhub_push_sample K sample by_user dev =
     (let item = sample\<lparr>seq := next_seq dev\<rparr>;
          (copied, f) = kfifo_in K (encode_sample item) (fifo dev);
          dev1 = dev\<lparr>next_seq := next_seq dev + 1, fifo := f\<rparr>;
          dev2 = (if copied \<noteq> sample_size then dev1\<lparr>d_dropped := d_dropped dev + 1\<rparr>
                  else if by_user then dev1\<lparr>d_injected := d_injected dev + 1\<rparr>
                  else dev1\<lparr>d_generated := d_generated dev + 1\<rparr>)
      in dev2\<lparr>wake_ups := wake_ups dev + 1\<rparr>)"

definition timer_sample :: "u32 \<Rightarrow> u64 \<Rightarrow> sensorhub_sample" where
  "timer_sample random_value now = zero_sample\<lparr>timestamp_ns := now, stype := SENSORHUB_SAMPLE_TEMP,
     value0 := 25000 + (random_value mod 8000)\<rparr>"

definition sensorhub_timer_cb :: "'f kfifo_ops \<Rightarrow> u32 \<Rightarrow> u64 \<Rightarrow> 'f sensorhub_device \<Rightarrow>
    hrtimer_restart \<times> 'f sensorhub_device" where
  "sensorhub_timer_cb K random_value now dev =
     (if enabled (config dev) = 0 then (HRTIMER_NORESTART, dev)
      else
        let dev1 = sensorhub_push_sample K (timer_sample random_value now) False dev
        in (HRTIMER_RESTART, dev1\<lparr>timer := Some (interval_ms (config dev1))\<rparr>))"

definition sensorhub_open :: "'f sensorhub_device \<Rightarrow> reply \<times> 'f sensorhub_device" where
  "sensorhub_open dev = (Ret 0, dev\<lparr>d_open_count := d_open_count dev + 1\<rparr>)"

definition sensorhub_release :: "'f sensorhub_device \<Rightarrow> reply \<times> 'f sensorhub_device" where
  "sensorhub_release dev = (Ret 0, dev\<lparr>d_open_count := d_open_count dev - 1\<rparr>)"

text \<open>The part of \<open>sensorhub_read\<close> after the wait: round down, move bytes out, copy to the user.\<close>

definition read_copy :: "'f kfifo_ops \<Rightarrow> bool \<Rightarrow> nat \<Rightarrow> 'f sensorhub_device \<Rightarrow> reply \<times> 'f sensorhub_device" where
  "read_copy K fault count dev =
     (let max_bytes = min (count - count mod sample_size) (64 * sample_size);
          (bs, f) = kfifo_out K max_bytes (fifo dev);
          dev1 = dev\<lparr>fifo := f, d_read_bytes := d_read_bytes dev + word_of_nat (length bs)\<rparr>
      in (if fault \<and> bs \<noteq> [] then Err EFAULT else Data bs, dev1))"

text \<open>
  \<open>sleep\<close> is what other contexts do while the reader sleeps, \<open>between\<close> what they do between the test
  and the copy. The first component \<open>None\<close> means that the caller is still asleep.
\<close>

definition sensorhub_read :: "'f kfifo_ops \<Rightarrow> bool \<Rightarrow> bool \<Rightarrow>
    ('f sensorhub_device \<Rightarrow> 'f sensorhub_device) \<Rightarrow> ('f sensorhub_device \<Rightarrow> 'f sensorhub_device) \<Rightarrow>
    bool \<Rightarrow> nat \<Rightarrow> 'f sensorhub_device \<Rightarrow> reply option \<times> 'f sensorhub_device" where
  "sensorhub_read K nonblock signal sleep between fault count dev =
     (if count < sample_size then (Some (Err EINVAL), dev)
      else if \<not> sensorhub_has_data K dev \<and> nonblock then (Some (Err EAGAIN), dev)
      else
        let dev1 = (if sensorhub_has_data K dev then dev else sleep dev)
        in if \<not> sensorhub_has_data K dev1
           then (if signal then Some (Err ERESTARTSYS) else None, dev1)
           else (case read_copy K fault count (between dev1) of (r, dev2) \<Rightarrow> (Some r, dev2)))"

definition sensorhub_write :: "'f kfifo_ops \<Rightarrow> bool \<Rightarrow> u64 \<Rightarrow> byte list \<Rightarrow>
    'f sensorhub_device \<Rightarrow> reply \<times> 'f sensorhub_device" where
  "sensorhub_write K fault now buf dev =
     (if length buf \<noteq> sample_size then (Err EINVAL, dev)
      else if fault then (Err EFAULT, dev)
      else (Ret sample_size,
            sensorhub_push_sample K
              ((decode_sample buf)\<lparr>timestamp_ns := now, stype := SENSORHUB_SAMPLE_USER\<rparr>) True dev))"

definition sensorhub_poll :: "'f kfifo_ops \<Rightarrow> 'f sensorhub_device \<Rightarrow> u32" where
  "sensorhub_poll K dev =
     (let mask = (if sensorhub_has_data K dev then 0 OR (EPOLLIN OR EPOLLRDNORM) else 0)
      in mask OR (EPOLLOUT OR EPOLLWRNORM))"

definition read_stats :: "'f kfifo_ops \<Rightarrow> 'f sensorhub_device \<Rightarrow> sensorhub_stats" where
  "read_stats K dev = \<lparr>generated = d_generated dev, injected = d_injected dev,
     dropped_samples = d_dropped dev, read_bytes = d_read_bytes dev,
     fifo_bytes = word_of_nat (kfifo_len K (fifo dev)),
     fifo_capacity = word_of_nat (kfifo_size K (fifo dev)), open_count = d_open_count dev\<rparr>"

definition interval_in_range :: "u32 \<Rightarrow> bool" where
  "interval_in_range ms \<longleftrightarrow> \<not> (ms < 10 \<or> ms > 60000)"

text \<open>\<open>arg\<close> is the user buffer: \<open>fault\<close> says that it cannot be accessed.\<close>

fun sensorhub_ioctl :: "'f kfifo_ops \<Rightarrow> ioctl_request \<Rightarrow> bool \<Rightarrow> byte list \<Rightarrow>
    'f sensorhub_device \<Rightarrow> reply \<times> 'f sensorhub_device" where
  "sensorhub_ioctl K SENSORHUB_IOC_GET_CONFIG fault arg dev =
     (if fault then Err EFAULT else Data (encode_config (config dev)), dev)"
| "sensorhub_ioctl K SENSORHUB_IOC_SET_CONFIG fault arg dev =
     (if fault then (Err EFAULT, dev)
      else if \<not> interval_in_range (interval_ms (decode_config arg)) then (Err EINVAL, dev)
      else (Ret 0, sensorhub_apply_config (decode_config arg) dev))"
| "sensorhub_ioctl K SENSORHUB_IOC_GET_STATS fault arg dev =
     (if fault then Err EFAULT else Data (encode_stats (read_stats K dev)), dev)"
| "sensorhub_ioctl K SENSORHUB_IOC_RESET fault arg dev =
     (Ret 0, dev\<lparr>fifo := kfifo_reset K (fifo dev), d_generated := 0, d_injected := 0,
        d_dropped := 0, d_read_bytes := 0\<rparr>)"
| "sensorhub_ioctl K (Other_ioctl n) fault arg dev = (Err ENOTTY, dev)"

definition interval_ms_show :: "'f sensorhub_device \<Rightarrow> string" where
  "interval_ms_show dev = dec (unat (interval_ms (config dev))) @ [nl]"

definition interval_ms_store :: "(string \<Rightarrow> errno + u32) \<Rightarrow> string \<Rightarrow>
    'f sensorhub_device \<Rightarrow> reply \<times> 'f sensorhub_device" where
  "interval_ms_store kstrtouint buf dev =
     (case kstrtouint buf of
        Inl e \<Rightarrow> (Err e, dev)
      | Inr ms \<Rightarrow>
          (if \<not> interval_in_range ms then (Err EINVAL, dev)
           else (Ret (length buf), sensorhub_apply_config ((config dev)\<lparr>interval_ms := ms\<rparr>) dev)))"

definition enabled_show :: "'f sensorhub_device \<Rightarrow> string" where
  "enabled_show dev = dec (unat (enabled (config dev))) @ [nl]"

definition enabled_store :: "(string \<Rightarrow> errno + bool) \<Rightarrow> string \<Rightarrow>
    'f sensorhub_device \<Rightarrow> reply \<times> 'f sensorhub_device" where
  "enabled_store kstrtobool buf dev =
     (case kstrtobool buf of
        Inl e \<Rightarrow> (Err e, dev)
      | Inr b \<Rightarrow> (Ret (length buf),
                  sensorhub_apply_config ((config dev)\<lparr>enabled := (if b then 1 else 0)\<rparr>) dev))"

definition stats_show :: "'f kfifo_ops \<Rightarrow> 'f sensorhub_device \<Rightarrow> string" where
  "stats_show K dev =
     (let stats = read_stats K dev
      in ''generated='' @ dec (unat (generated stats)) @
         '' injected='' @ dec (unat (injected stats)) @
         '' dropped='' @ dec (unat (dropped_samples stats)) @
         '' read_bytes='' @ dec (unat (read_bytes stats)) @
         '' fifo_bytes='' @ dec (unat (fifo_bytes stats)) @
         '' fifo_capacity='' @ dec (unat (fifo_capacity stats)) @
         '' open_count='' @ dec (unat (open_count stats)) @ [nl])"

definition sensorhub_debugfs_show :: "'f kfifo_ops \<Rightarrow> 'f sensorhub_device \<Rightarrow> string" where
  "sensorhub_debugfs_show K dev =
     (let stats = read_stats K dev
      in ''interval_ms: '' @ dec (unat (interval_ms (config dev))) @ [nl] @
         ''enabled: '' @ dec (unat (enabled (config dev))) @ [nl] @
         ''generated: '' @ dec (unat (generated stats)) @ [nl] @
         ''injected: '' @ dec (unat (injected stats)) @ [nl] @
         ''dropped: '' @ dec (unat (dropped_samples stats)) @ [nl] @
         ''read_bytes: '' @ dec (unat (read_bytes stats)) @ [nl] @
         ''fifo_bytes: '' @ dec (unat (fifo_bytes stats)) @ [nl] @
         ''fifo_capacity: '' @ dec (unat (fifo_capacity stats)) @ [nl] @
         ''open_count: '' @ dec (unat (open_count stats)) @ [nl])"

section \<open>Loading and unloading the module\<close>

text \<open>
  \<open>held\<close> lists the kernel resources that the module owns, most recent first; \<open>g_sensorhub\<close> is the
  device behind the global pointer.
\<close>

datatype resource = Device_memory | Fifo_memory | Misc_device | Sysfs_group | Debugfs_dir | Queued_timer

record 'f module_state =
  g_sensorhub :: "'f sensorhub_device option"
  held :: "resource list"

record init_answers =
  kzalloc_ok :: bool
  misc_err :: "errno option"
  sysfs_err :: "errno option"
  debugfs_ok :: bool

definition fresh_device :: "'f \<Rightarrow> 'f sensorhub_device" where
  "fresh_device f = \<lparr>fifo = f, timer = None,
     config = \<lparr>interval_ms = SENSORHUB_DEFAULT_INTERVAL_MS, enabled = 1\<rparr>, d_open_count = 0,
     next_seq = 0, d_generated = 0, d_injected = 0, d_dropped = 0, d_read_bytes = 0, wake_ups = 0\<rparr>"

definition release_resource :: "resource \<Rightarrow> 'f module_state \<Rightarrow> 'f module_state" where
  "release_resource r m = m\<lparr>held := remove1 r (held m)\<rparr>"

definition acquire :: "resource \<Rightarrow> 'f module_state \<Rightarrow> 'f module_state" where
  "acquire r m = m\<lparr>held := r # held m\<rparr>"

definition sensorhub_init :: "'f kfifo_ops \<Rightarrow> init_answers \<Rightarrow> 'f module_state \<Rightarrow> errno option \<times> 'f module_state" where
  "sensorhub_init K ans m =
     (if \<not> kzalloc_ok ans then (Some ENOMEM, m\<lparr>g_sensorhub := None\<rparr>)
      else
        let m1 = acquire Device_memory m;
            err_free_dev = (\<lambda>e m. (Some e, (release_resource Device_memory m)\<lparr>g_sensorhub := None\<rparr>));
            err_free_fifo = (\<lambda>e m. err_free_dev e (release_resource Fifo_memory m));
            err_deregister_misc = (\<lambda>e m. err_free_fifo e (release_resource Misc_device m))
        in case kfifo_alloc K SENSORHUB_FIFO_BYTES of
             Inl e \<Rightarrow> err_free_dev e m1
           | Inr f \<Rightarrow>
               let m2 = (acquire Fifo_memory m1)\<lparr>g_sensorhub := Some (fresh_device f)\<rparr>
               in case misc_err ans of
                    Some e \<Rightarrow> err_free_fifo e m2
                  | None \<Rightarrow>
                      let m3 = acquire Misc_device m2
                      in case sysfs_err ans of
                           Some e \<Rightarrow> err_deregister_misc e m3
                         | None \<Rightarrow>
                             let m4 = acquire Sysfs_group m3;
                                 m5 = (if debugfs_ok ans then acquire Debugfs_dir m4 else m4);
                                 dev = fresh_device f
                             in (None, (acquire Queued_timer m5)
                                  \<lparr>g_sensorhub := Some (dev\<lparr>timer := Some (interval_ms (config dev))\<rparr>)\<rparr>))"

definition sensorhub_exit :: "'f module_state \<Rightarrow> 'f module_state" where
  "sensorhub_exit m =
     release_resource Device_memory (release_resource Fifo_memory (release_resource Misc_device
       (release_resource Sysfs_group (release_resource Debugfs_dir (release_resource Queued_timer m)))))"

end
