(* ===== verification/Driver_Refinement.thy ===== *)
theory Driver_Refinement
  imports Driver
begin

text \<open>
  What the driver promises. The specification is the same device with a queue of at most 2048 whole
  samples in place of the byte FIFO; every entry point of the driver (timer, file operations, ioctl,
  sysfs) is one event. Under the FIFO laws the driver refines the specification: same replies, same
  abstract state, for every sequence of events. The invariants and counters are then proved on the
  specification and transferred.
\<close>

section \<open>Events\<close>

datatype drv_event =
    Timer_fires u32 u64
  | Open_call
  | Release_call
  | Read_call bool bool bool nat
  | Poll_call
  | Write_call bool u64 "byte list"
  | Ioctl_call ioctl_request bool "byte list"
  | Interval_store "errno + u32" string
  | Enabled_store "errno + bool" string

text \<open>
  \<open>Read_call nonblock signal fault count\<close> is a whole call of \<open>read\<close> that nothing else interrupts: without data a
  blocking call sleeps (\<open>Asleep\<close>) unless a signal is pending. What can happen between its sections is the subject of
  \<open>Driver_Wakeup\<close>. \<open>Poll_call\<close> is the computation of the event mask.

  The timer subsystem runs the callback of a queued timer and drops a timer that is not restarted.\<close>

definition timer_fires :: "'f kfifo_ops \<Rightarrow> u32 \<Rightarrow> u64 \<Rightarrow> 'f sensorhub_device \<Rightarrow> 'f sensorhub_device" where
  "timer_fires K random_value now dev =
     (if timer dev = None then dev
      else case sensorhub_timer_cb K random_value now dev of
             (HRTIMER_NORESTART, dev1) \<Rightarrow> dev1\<lparr>timer := None\<rparr>
           | (HRTIMER_RESTART, dev1) \<Rightarrow> dev1)"

fun drv_exec :: "'f kfifo_ops \<Rightarrow> drv_event \<Rightarrow> 'f sensorhub_device \<Rightarrow> reply \<times> 'f sensorhub_device" where
  "drv_exec K (Timer_fires r now) dev = (Ret 0, timer_fires K r now dev)"
| "drv_exec K Open_call dev = sensorhub_open dev"
| "drv_exec K Release_call dev = sensorhub_release dev"
| "drv_exec K (Read_call nonblock signal fault count) dev =
     (case sensorhub_read K nonblock signal id id fault count dev of
        (Some r, dev1) \<Rightarrow> (r, dev1)
      | (None, dev1) \<Rightarrow> (Asleep, dev1))"
| "drv_exec K Poll_call dev = (Ret (unat (sensorhub_poll K dev)), dev)"
| "drv_exec K (Write_call fault now buf) dev = sensorhub_write K fault now buf dev"
| "drv_exec K (Ioctl_call cmd fault arg) dev = sensorhub_ioctl K cmd fault arg dev"
| "drv_exec K (Interval_store r buf) dev = interval_ms_store (\<lambda>_. r) buf dev"
| "drv_exec K (Enabled_store r buf) dev = enabled_store (\<lambda>_. r) buf dev"

fun drv_run :: "'f kfifo_ops \<Rightarrow> drv_event list \<Rightarrow> 'f sensorhub_device \<Rightarrow> reply list \<times> 'f sensorhub_device" where
  "drv_run K [] dev = ([], dev)"
| "drv_run K (ev # evs) dev =
     (case drv_exec K ev dev of (r, dev1) \<Rightarrow>
        (case drv_run K evs dev1 of (rs, dev2) \<Rightarrow> (r # rs, dev2)))"

section \<open>Specification: a bounded queue of samples\<close>

type_synonym spec_device = "sensorhub_sample list sensorhub_device"

definition spec_push :: "sensorhub_sample \<Rightarrow> bool \<Rightarrow> spec_device \<Rightarrow> spec_device" where
  "spec_push s by_user d =
     (let d1 = d\<lparr>next_seq := next_seq d + 1, wake_ups := wake_ups d + 1\<rparr>
      in if length (fifo d) < 2048
         then (if by_user then d1\<lparr>fifo := fifo d @ [s\<lparr>seq := next_seq d\<rparr>], d_injected := d_injected d + 1\<rparr>
               else d1\<lparr>fifo := fifo d @ [s\<lparr>seq := next_seq d\<rparr>], d_generated := d_generated d + 1\<rparr>)
         else d1\<lparr>d_dropped := d_dropped d + 1\<rparr>)"

definition spec_batch :: "nat \<Rightarrow> nat" where
  "spec_batch count = min (count div sample_size) 64"

definition spec_stats :: "spec_device \<Rightarrow> sensorhub_stats" where
  "spec_stats d = \<lparr>generated = d_generated d, injected = d_injected d, dropped_samples = d_dropped d,
     read_bytes = d_read_bytes d, fifo_bytes = word_of_nat (sample_size * length (fifo d)),
     fifo_capacity = 65536, open_count = d_open_count d\<rparr>"

fun spec_ioctl :: "ioctl_request \<Rightarrow> bool \<Rightarrow> byte list \<Rightarrow> spec_device \<Rightarrow> reply \<times> spec_device" where
  "spec_ioctl SENSORHUB_IOC_GET_CONFIG fault arg d =
     (if fault then Err EFAULT else Data (encode_config (config d)), d)"
| "spec_ioctl SENSORHUB_IOC_SET_CONFIG fault arg d =
     (if fault then (Err EFAULT, d)
      else if interval_in_range (interval_ms (decode_config arg))
      then (Ret 0, sensorhub_apply_config (decode_config arg) d) else (Err EINVAL, d))"
| "spec_ioctl SENSORHUB_IOC_GET_STATS fault arg d =
     (if fault then Err EFAULT else Data (encode_stats (spec_stats d)), d)"
| "spec_ioctl SENSORHUB_IOC_RESET fault arg d =
     (Ret 0, d\<lparr>fifo := [], d_generated := 0, d_injected := 0, d_dropped := 0, d_read_bytes := 0\<rparr>)"
| "spec_ioctl (Other_ioctl n) fault arg d = (Err ENOTTY, d)"

definition spec_read :: "bool \<Rightarrow> nat \<Rightarrow> spec_device \<Rightarrow> reply \<times> spec_device" where
  "spec_read fault count d =
     (let batch = take (spec_batch count) (fifo d)
      in (if fault \<and> batch \<noteq> [] then Err EFAULT else Data (encode_samples batch),
          d\<lparr>fifo := drop (spec_batch count) (fifo d),
            d_read_bytes := d_read_bytes d + word_of_nat (sample_size * length batch)\<rparr>))"

fun spec_exec :: "drv_event \<Rightarrow> spec_device \<Rightarrow> reply \<times> spec_device" where
  "spec_exec (Timer_fires r now) d =
     (Ret 0, if timer d = None then d
             else if enabled (config d) = 0 then d\<lparr>timer := None\<rparr>
             else (spec_push (timer_sample r now) False d)\<lparr>timer := Some (interval_ms (config d))\<rparr>)"
| "spec_exec Open_call d = sensorhub_open d"
| "spec_exec Release_call d = sensorhub_release d"
| "spec_exec (Read_call nonblock signal fault count) d =
     (if count < sample_size then (Err EINVAL, d)
      else if fifo d = [] then (if nonblock then Err EAGAIN else if signal then Err ERESTARTSYS else Asleep, d)
      else spec_read fault count d)"
| "spec_exec Poll_call d =
     (Ret (unat ((if fifo d = [] then 0 else EPOLLIN OR EPOLLRDNORM) OR (EPOLLOUT OR EPOLLWRNORM))), d)"
| "spec_exec (Write_call fault now buf) d =
     (if length buf \<noteq> sample_size then (Err EINVAL, d)
      else if fault then (Err EFAULT, d)
      else (Ret sample_size,
        spec_push ((decode_sample buf)\<lparr>timestamp_ns := now, stype := SENSORHUB_SAMPLE_USER\<rparr>) True d))"
| "spec_exec (Ioctl_call cmd fault arg) d = spec_ioctl cmd fault arg d"
| "spec_exec (Interval_store r buf) d = interval_ms_store (\<lambda>_. r) buf d"
| "spec_exec (Enabled_store r buf) d = enabled_store (\<lambda>_. r) buf d"

fun spec_run :: "drv_event list \<Rightarrow> spec_device \<Rightarrow> reply list \<times> spec_device" where
  "spec_run [] d = ([], d)"
| "spec_run (ev # evs) d =
     (case spec_exec ev d of (r, d1) \<Rightarrow> (case spec_run evs d1 of (rs, d2) \<Rightarrow> (r # rs, d2)))"

section \<open>Abstraction and invariant\<close>

definition with_fifo :: "'g \<Rightarrow> 'f sensorhub_device \<Rightarrow> 'g sensorhub_device" where
  "with_fifo q d = \<lparr>fifo = q, timer = timer d, config = config d, d_open_count = d_open_count d,
     next_seq = next_seq d, d_generated = d_generated d, d_injected = d_injected d,
     d_dropped = d_dropped d, d_read_bytes = d_read_bytes d, wake_ups = wake_ups d\<rparr>"

definition queued :: "('f \<Rightarrow> byte list) \<Rightarrow> 'f sensorhub_device \<Rightarrow> sensorhub_sample list" where
  "queued bytes d = decode_samples (length (bytes (fifo d)) div sample_size) (bytes (fifo d))"

definition abs_device :: "('f \<Rightarrow> byte list) \<Rightarrow> 'f sensorhub_device \<Rightarrow> spec_device" where
  "abs_device bytes d = with_fifo (queued bytes d) d"

text \<open>The settings are in range, and the timer is queued exactly when sampling is enabled.\<close>

definition settings_ok :: "sensorhub_config \<Rightarrow> u32 option \<Rightarrow> bool" where
  "settings_ok c t \<longleftrightarrow> interval_in_range (interval_ms c) \<and> enabled c \<in> {0, 1} \<and>
     (case t of None \<Rightarrow> enabled c = 0 | Some ms \<Rightarrow> enabled c = 1 \<and> interval_in_range ms)"

definition drv_inv :: "'f kfifo_ops \<Rightarrow> ('f \<Rightarrow> byte list) \<Rightarrow> ('f \<Rightarrow> bool) \<Rightarrow> 'f sensorhub_device \<Rightarrow> bool" where
  "drv_inv K bytes ok d \<longleftrightarrow> ok (fifo d) \<and> kfifo_size K (fifo d) = 65536 \<and>
     (\<exists>q. bytes (fifo d) = encode_samples q) \<and> settings_ok (config d) (timer d)"

lemma with_fifo_simps [simp]:
  "fifo (with_fifo q d) = q" "timer (with_fifo q d) = timer d" "config (with_fifo q d) = config d"
  "next_seq (with_fifo q d) = next_seq d" "d_generated (with_fifo q d) = d_generated d"
  "d_injected (with_fifo q d) = d_injected d" "d_dropped (with_fifo q d) = d_dropped d"
  "d_read_bytes (with_fifo q d) = d_read_bytes d" "d_open_count (with_fifo q d) = d_open_count d"
  "wake_ups (with_fifo q d) = wake_ups d"
  by (simp_all add: with_fifo_def)

lemma with_fifo_updates [simp]:
  "with_fifo q (d\<lparr>timer := t\<rparr>) = (with_fifo q d)\<lparr>timer := t\<rparr>"
  "with_fifo q (d\<lparr>config := c\<rparr>) = (with_fifo q d)\<lparr>config := c\<rparr>"
  "with_fifo q (d\<lparr>d_open_count := oc\<rparr>) = (with_fifo q d)\<lparr>d_open_count := oc\<rparr>"
  "with_fifo q (d\<lparr>next_seq := n\<rparr>) = (with_fifo q d)\<lparr>next_seq := n\<rparr>"
  "with_fifo q (d\<lparr>d_generated := g\<rparr>) = (with_fifo q d)\<lparr>d_generated := g\<rparr>"
  "with_fifo q (d\<lparr>d_injected := i\<rparr>) = (with_fifo q d)\<lparr>d_injected := i\<rparr>"
  "with_fifo q (d\<lparr>d_dropped := x\<rparr>) = (with_fifo q d)\<lparr>d_dropped := x\<rparr>"
  "with_fifo q (d\<lparr>d_read_bytes := y\<rparr>) = (with_fifo q d)\<lparr>d_read_bytes := y\<rparr>"
  "with_fifo q (d\<lparr>wake_ups := w\<rparr>) = (with_fifo q d)\<lparr>wake_ups := w\<rparr>"
  "with_fifo q (d\<lparr>fifo := f\<rparr>) = with_fifo q d"
  "(with_fifo q d)\<lparr>fifo := q'\<rparr> = with_fifo q' d"
  by (simp_all add: with_fifo_def)

lemma queued_encoded: "bytes (fifo d) = encode_samples q \<Longrightarrow> queued bytes d = q"
  by (simp add: queued_def)

lemma abs_device_encoded: "bytes (fifo d) = encode_samples q \<Longrightarrow> abs_device bytes d = with_fifo q d"
  by (simp add: abs_device_def queued_encoded)

lemma apply_settings_ok [inv_intros]:
  "interval_in_range (interval_ms cfg) \<Longrightarrow> settings_ok (config (sensorhub_apply_config cfg d)) (timer (sensorhub_apply_config cfg d))"
  by (auto simp: settings_ok_def sensorhub_apply_config_def Let_def)

lemma apply_config_with_fifo [simp]:
  "sensorhub_apply_config cfg (with_fifo q d) = with_fifo q (sensorhub_apply_config cfg d)"
  by (simp add: sensorhub_apply_config_def Let_def)

lemma apply_config_fifo [simp]: "fifo (sensorhub_apply_config cfg d) = fifo d"
  by (simp add: sensorhub_apply_config_def Let_def)

lemma encode_samples_eq_Nil: "encode_samples q = [] \<longleftrightarrow> q = []"
  using length_encode_samples [of q] by (metis encode_samples_Nil length_0_conv mult_eq_0_iff zero_neq_numeral)

section \<open>The driver refines the specification\<close>

context kfifo_api
begin

lemma inv_samples:
  assumes "drv_inv K bytes ok d"
  obtains q where "bytes (fifo d) = encode_samples q" "length q \<le> 2048" "queued bytes d = q"
    "abs_device bytes d = with_fifo q d"
proof -
  from assms obtain q where q: "bytes (fifo d) = encode_samples q" by (auto simp: drv_inv_def)
  moreover have "sample_size * length q \<le> 65536"
    using len_le [of "fifo d"] assms q by (simp add: drv_inv_def)
  ultimately show thesis using that [of q] by (simp add: queued_encoded abs_device_encoded)
qed

lemma push_refines:
  assumes "drv_inv K bytes ok d"
  shows "abs_device bytes (sensorhub_push_sample K s by_user d) = spec_push s by_user (abs_device bytes d)"
    and "drv_inv K bytes ok (sensorhub_push_sample K s by_user d)"
proof -
  obtain q where q: "bytes (fifo d) = encode_samples q" "length q \<le> 2048"
    and a: "abs_device bytes d = with_fifo q d" using inv_samples [OF assms] by blast
  have ok: "ok (fifo d)" and size: "kfifo_size K (fifo d) = 65536" using assms by (simp_all add: drv_inv_def)
  define item where "item = s\<lparr>seq := next_seq d\<rparr>"
  obtain n f where nf: "kfifo_in K (encode_sample item) (fifo d) = (n, f)" by fastforce
  have f: "ok f" "kfifo_size K f = 65536" using in_ok [OF ok, of "encode_sample item"] nf size by simp_all
  have n: "n = min 32 (65536 - 32 * length q)"
    using in_count [OF ok, of "encode_sample item"] nf size q by simp
  have b: "bytes f = (if length q < 2048 then encode_samples (q @ [item]) else encode_samples q)"
    using in_bytes [OF ok, of "encode_sample item"] nf size q by simp
  define q' where "q' = (if length q < 2048 then q @ [item] else q)"
  have b': "bytes f = encode_samples q'" using b by (simp add: q'_def)
  have p: "sensorhub_push_sample K s by_user d =
      (let d1 = d\<lparr>next_seq := next_seq d + 1, fifo := f\<rparr> in
       (if \<not> length q < 2048 then d1\<lparr>d_dropped := d_dropped d + 1\<rparr>
        else if by_user then d1\<lparr>d_injected := d_injected d + 1\<rparr>
        else d1\<lparr>d_generated := d_generated d + 1\<rparr>)\<lparr>wake_ups := wake_ups d + 1\<rparr>)"
    using n q(2) by (auto simp: sensorhub_push_sample_def item_def [symmetric] nf Let_def min_def)
  have "abs_device bytes (sensorhub_push_sample K s by_user d) = with_fifo q' (sensorhub_push_sample K s by_user d)"
    by (rule abs_device_encoded) (simp add: p b' Let_def)
  then show "abs_device bytes (sensorhub_push_sample K s by_user d) = spec_push s by_user (abs_device bytes d)"
    by (simp add: a p q'_def spec_push_def Let_def item_def)
  show "drv_inv K bytes ok (sensorhub_push_sample K s by_user d)"
    using assms f b' by (auto simp: drv_inv_def p Let_def)
qed

lemma read_refines:
  assumes "drv_inv K bytes ok d"
  shows "fst (read_copy K fault count d) = fst (spec_read fault count (abs_device bytes d))"
    and "abs_device bytes (snd (read_copy K fault count d)) =
      snd (spec_read fault count (abs_device bytes d))"
    and "drv_inv K bytes ok (snd (read_copy K fault count d))"
proof -
  obtain q where q: "bytes (fifo d) = encode_samples q"
    and a: "abs_device bytes d = with_fifo q d" using inv_samples [OF assms] by blast
  have ok: "ok (fifo d)" and size: "kfifo_size K (fifo d) = 65536" using assms by (simp_all add: drv_inv_def)
  have m: "min (count - count mod 32) (64 * 32) = 32 * spec_batch count"
    by (simp add: spec_batch_def minus_mod_eq_mult_div min_def)
  obtain bs f where o: "kfifo_out K (32 * spec_batch count) (fifo d) = (bs, f)" by fastforce
  have bs: "bs = encode_samples (take (spec_batch count) q)"
    using out_bytes [OF ok, of "32 * spec_batch count"] o q take_encode_samples by simp
  have f: "bytes f = encode_samples (drop (spec_batch count) q)" "ok f" "kfifo_size K f = 65536"
    using out_rest [OF ok, of "32 * spec_batch count"] out_ok [OF ok, of "32 * spec_batch count"]
      o q size drop_encode_samples by simp_all
  have r: "read_copy K fault count d = (if fault \<and> bs \<noteq> [] then Err EFAULT else Data bs,
      d\<lparr>fifo := f, d_read_bytes := d_read_bytes d + word_of_nat (length bs)\<rparr>)"
    unfolding read_copy_def m by (simp add: o)
  show "fst (read_copy K fault count d) = fst (spec_read fault count (abs_device bytes d))"
    by (simp add: r a bs spec_read_def Let_def encode_samples_eq_Nil)
  have "abs_device bytes (snd (read_copy K fault count d)) =
      with_fifo (drop (spec_batch count) q) (snd (read_copy K fault count d))"
    by (rule abs_device_encoded) (simp add: r f)
  then show "abs_device bytes (snd (read_copy K fault count d)) =
      snd (spec_read fault count (abs_device bytes d))"
    by (simp add: r a bs spec_read_def Let_def)
  show "drv_inv K bytes ok (snd (read_copy K fault count d))"
    using assms f by (auto simp: drv_inv_def r)
qed

lemma has_data_abs:
  assumes "drv_inv K bytes ok d"
  shows "sensorhub_has_data K d \<longleftrightarrow> fifo (abs_device bytes d) \<noteq> []"
proof -
  obtain q where "bytes (fifo d) = encode_samples q" "abs_device bytes d = with_fifo q d"
    using inv_samples [OF assms] by blast
  with is_empty [of "fifo d"] assms show ?thesis
    by (simp add: sensorhub_has_data_def drv_inv_def encode_samples_eq_Nil)
qed

lemma read_call_refines:
  assumes "drv_inv K bytes ok d"
  shows "fst (drv_exec K (Read_call nb sg fault count) d) = fst (spec_exec (Read_call nb sg fault count) (abs_device bytes d)) \<and>
    abs_device bytes (snd (drv_exec K (Read_call nb sg fault count) d)) =
      snd (spec_exec (Read_call nb sg fault count) (abs_device bytes d)) \<and>
    drv_inv K bytes ok (snd (drv_exec K (Read_call nb sg fault count) d))"
  using read_refines [OF assms, of fault count] has_data_abs [OF assms] assms
  by (auto simp: sensorhub_read_def split: prod.splits)

lemma poll_refines:
  assumes "drv_inv K bytes ok d"
  shows "fst (drv_exec K Poll_call d) = fst (spec_exec Poll_call (abs_device bytes d))"
  using has_data_abs [OF assms] by (simp add: sensorhub_poll_def)

lemma timer_refines:
  assumes "drv_inv K bytes ok d"
  shows "abs_device bytes (timer_fires K r now d) = snd (spec_exec (Timer_fires r now) (abs_device bytes d))"
    and "drv_inv K bytes ok (timer_fires K r now d)"
proof -
  note push = push_refines [OF assms, of "timer_sample r now" False]
  let ?p = "sensorhub_push_sample K (timer_sample r now) False d"
  have cfg: "config ?p = config d" by (simp add: sensorhub_push_sample_def Let_def split: prod.splits)
  have abs_timer: "abs_device bytes (x\<lparr>timer := t\<rparr>) = (abs_device bytes x)\<lparr>timer := t\<rparr>" for x t
    by (simp add: abs_device_def queued_def)
  show "abs_device bytes (timer_fires K r now d) = snd (spec_exec (Timer_fires r now) (abs_device bytes d))"
    by (simp add: timer_fires_def sensorhub_timer_cb_def Let_def abs_timer push cfg)
      (auto simp: abs_device_def)
  show "drv_inv K bytes ok (timer_fires K r now d)"
    using assms push(2) cfg
    by (auto simp: timer_fires_def sensorhub_timer_cb_def Let_def drv_inv_def settings_ok_def
        split: option.splits)
qed

lemma same_fifo:
  assumes "drv_inv K bytes ok d" "fifo d' = fifo d"
  shows "abs_device bytes d' = with_fifo (queued bytes d) d'"
    and "settings_ok (config d') (timer d') \<Longrightarrow> drv_inv K bytes ok d'"
  using assms by (auto simp: abs_device_def queued_def drv_inv_def)

lemma stats_refines:
  assumes "drv_inv K bytes ok d"
  shows "read_stats K d = spec_stats (abs_device bytes d)"
proof -
  obtain q where q: "bytes (fifo d) = encode_samples q" "abs_device bytes d = with_fifo q d"
    using inv_samples [OF assms] by blast
  then show ?thesis
    using len [of "fifo d"] assms by (simp add: read_stats_def spec_stats_def drv_inv_def)
qed

lemma reset_refines:
  assumes "drv_inv K bytes ok d"
  shows "abs_device bytes (d\<lparr>fifo := kfifo_reset K (fifo d)\<rparr>) = (abs_device bytes d)\<lparr>fifo := []\<rparr>"
    and "drv_inv K bytes ok (d\<lparr>fifo := kfifo_reset K (fifo d)\<rparr>)"
  using reset [of "fifo d"] assms
  by (auto simp: abs_device_def queued_def drv_inv_def intro: exI [of _ "[]"])

lemma abs_counters:
  "abs_device bytes (d\<lparr>d_generated := a, d_injected := b, d_dropped := c, d_read_bytes := e\<rparr>) =
     (abs_device bytes d)\<lparr>d_generated := a, d_injected := b, d_dropped := c, d_read_bytes := e\<rparr>"
  "drv_inv K bytes ok (d\<lparr>d_generated := a, d_injected := b, d_dropped := c, d_read_bytes := e\<rparr>) =
     drv_inv K bytes ok d"
  by (simp_all add: abs_device_def queued_def drv_inv_def)

lemma ioctl_refines:
  assumes "drv_inv K bytes ok d"
  shows "fst (sensorhub_ioctl K cmd fault arg d) = fst (spec_ioctl cmd fault arg (abs_device bytes d)) \<and>
    abs_device bytes (snd (sensorhub_ioctl K cmd fault arg d)) =
      snd (spec_ioctl cmd fault arg (abs_device bytes d)) \<and>
    drv_inv K bytes ok (snd (sensorhub_ioctl K cmd fault arg d))"
proof (cases cmd)
  case SENSORHUB_IOC_SET_CONFIG
  then show ?thesis
    using assms same_fifo [OF assms, of "sensorhub_apply_config (decode_config arg) d"]
    by (simp add: apply_settings_ok) (simp add: abs_device_def)
next
  case SENSORHUB_IOC_RESET
  then show ?thesis using reset_refines [OF assms] abs_counters by simp
next
  case SENSORHUB_IOC_GET_STATS
  then show ?thesis using stats_refines [OF assms] assms by simp
qed (use assms in \<open>simp_all add: abs_device_def\<close>)

lemma store_refines:
  assumes "drv_inv K bytes ok d"
  shows "fst (interval_ms_store p buf d) = fst (interval_ms_store p buf (abs_device bytes d))"
    and "abs_device bytes (snd (interval_ms_store p buf d)) = snd (interval_ms_store p buf (abs_device bytes d))"
    and "drv_inv K bytes ok (snd (interval_ms_store p buf d))"
    and "fst (enabled_store p' buf d) = fst (enabled_store p' buf (abs_device bytes d))"
    and "abs_device bytes (snd (enabled_store p' buf d)) = snd (enabled_store p' buf (abs_device bytes d))"
    and "drv_inv K bytes ok (snd (enabled_store p' buf d))"
proof -
  have abs: "abs_device bytes (sensorhub_apply_config c d) = sensorhub_apply_config c (abs_device bytes d)" for c
    using same_fifo(1) [OF assms, of "sensorhub_apply_config c d"] by (simp add: abs_device_def)
  have cfg: "config (abs_device bytes d) = config d" by (simp add: abs_device_def)
  have inv: "drv_inv K bytes ok (sensorhub_apply_config c d)" if "interval_in_range (interval_ms c)" for c
    using same_fifo(2) [OF assms, of "sensorhub_apply_config c d"] that by (simp add: apply_settings_ok)
  have "interval_in_range (interval_ms (config d))" using assms by (simp add: drv_inv_def settings_ok_def)
  with abs cfg inv assms show
    "fst (interval_ms_store p buf d) = fst (interval_ms_store p buf (abs_device bytes d))"
    "abs_device bytes (snd (interval_ms_store p buf d)) = snd (interval_ms_store p buf (abs_device bytes d))"
    "drv_inv K bytes ok (snd (interval_ms_store p buf d))"
    "fst (enabled_store p' buf d) = fst (enabled_store p' buf (abs_device bytes d))"
    "abs_device bytes (snd (enabled_store p' buf d)) = snd (enabled_store p' buf (abs_device bytes d))"
    "drv_inv K bytes ok (snd (enabled_store p' buf d))"
    by (simp_all add: interval_ms_store_def enabled_store_def split: sum.splits)
qed

lemma open_refines:
  assumes "drv_inv K bytes ok d"
  shows "abs_device bytes (snd (sensorhub_open d)) = snd (sensorhub_open (abs_device bytes d))"
    and "abs_device bytes (snd (sensorhub_release d)) = snd (sensorhub_release (abs_device bytes d))"
    and "drv_inv K bytes ok (snd (sensorhub_open d))" and "drv_inv K bytes ok (snd (sensorhub_release d))"
  using assms
  by (simp_all add: sensorhub_open_def sensorhub_release_def abs_device_def queued_def drv_inv_def)

lemma exec_refines:
  assumes "drv_inv K bytes ok d"
  shows "fst (drv_exec K ev d) = fst (spec_exec ev (abs_device bytes d)) \<and>
    abs_device bytes (snd (drv_exec K ev d)) = snd (spec_exec ev (abs_device bytes d)) \<and>
    drv_inv K bytes ok (snd (drv_exec K ev d))"
proof (cases ev)
  case (Timer_fires r now)
  then show ?thesis using timer_refines [OF assms] by simp
next
  case (Read_call nb sg fault count)
  then show ?thesis using read_call_refines [OF assms, of nb sg fault count] by simp
next
  case Poll_call
  then show ?thesis using poll_refines [OF assms] assms by simp
next
  case (Write_call fault now buf)
  then show ?thesis using push_refines [OF assms] assms by (simp add: sensorhub_write_def)
next
  case (Ioctl_call cmd fault arg)
  then show ?thesis using ioctl_refines [OF assms] by simp
qed (use open_refines [OF assms] store_refines [OF assms]
     in \<open>simp_all add: sensorhub_open_def sensorhub_release_def\<close>)

lemma run_refines:
  "drv_inv K bytes ok d \<Longrightarrow>
     fst (drv_run K evs d) = fst (spec_run evs (abs_device bytes d)) \<and>
     abs_device bytes (snd (drv_run K evs d)) = snd (spec_run evs (abs_device bytes d)) \<and>
     drv_inv K bytes ok (snd (drv_run K evs d))"
proof (induction evs arbitrary: d)
  case (Cons ev evs)
  obtain r d1 where e: "drv_exec K ev d = (r, d1)" by fastforce
  obtain a1 where s: "spec_exec ev (abs_device bytes d) = (r, a1)" "a1 = abs_device bytes d1" "drv_inv K bytes ok d1"
    using exec_refines [OF Cons.prems, of ev] by (cases "spec_exec ev (abs_device bytes d)") (simp add: e)
  with Cons.IH [of d1] show ?case by (auto simp: e split: prod.splits)
qed simp

text \<open>The device right after a successful initialisation.\<close>

lemma init_inv:
  assumes "kfifo_alloc K SENSORHUB_FIFO_BYTES = Inr f"
  shows "drv_inv K bytes ok ((fresh_device f)\<lparr>timer := Some 500\<rparr>)"
    and "abs_device bytes ((fresh_device f)\<lparr>timer := Some 500\<rparr>) = (fresh_device [])\<lparr>timer := Some 500\<rparr>"
  using alloc [of 16 f] assms
  by (auto simp: SENSORHUB_FIFO_BYTES_def drv_inv_def fresh_device_def settings_ok_def
      interval_in_range_def SENSORHUB_DEFAULT_INTERVAL_MS_def abs_device_def queued_def with_fifo_def
      intro: exI [of _ "[]"])

end

text \<open>The driver's FIFO is another lossy bounded FIFO, with room counted in samples.\<close>

definition drv_room :: "('f \<Rightarrow> byte list) \<Rightarrow> 'f sensorhub_device \<Rightarrow> nat" where
  "drv_room bytes d = 2048 - length (queued bytes d)"

lemma queued_abs: "queued bytes d = fifo (abs_device bytes d)"
  by (simp add: abs_device_def)

lemma d_dropped_abs: "d_dropped d = d_dropped (abs_device bytes d)"
  by (simp add: abs_device_def)

sublocale kfifo_api \<subseteq> drv: lossy_fifo
  "\<lambda>s d. sensorhub_push_sample K s by_user d" "queued bytes" "\<lambda>d s. s\<lparr>seq := next_seq d\<rparr>"
  "drv_room bytes" d_dropped "drv_inv K bytes ok"
proof
  fix d s assume inv: "drv_inv K bytes ok d"
  let ?p = "sensorhub_push_sample K s by_user d"
  have "queued bytes ?p = fifo (spec_push s by_user (abs_device bytes d))"
    and "d_dropped ?p = d_dropped (spec_push s by_user (abs_device bytes d))"
    using push_refines(1) [OF inv, of s by_user] queued_abs [of bytes ?p] d_dropped_abs [of ?p bytes] by simp_all
  moreover have "fifo (abs_device bytes d) = queued bytes d" "next_seq (abs_device bytes d) = next_seq d"
    "d_dropped (abs_device bytes d) = d_dropped d" by (simp_all add: abs_device_def)
  ultimately show "0 < drv_room bytes d \<Longrightarrow> queued bytes ?p = queued bytes d @ [s\<lparr>seq := next_seq d\<rparr>]"
    "0 < drv_room bytes d \<Longrightarrow> drv_room bytes ?p = drv_room bytes d - 1"
    "0 < drv_room bytes d \<Longrightarrow> d_dropped ?p = d_dropped d"
    "drv_room bytes d = 0 \<Longrightarrow> queued bytes ?p = queued bytes d"
    "drv_room bytes d = 0 \<Longrightarrow> drv_room bytes ?p = 0"
    "drv_room bytes d = 0 \<Longrightarrow> d_dropped ?p = d_dropped d + 1"
    by (auto simp: drv_room_def spec_push_def Let_def)
  show "drv_inv K bytes ok ?p" by (rule push_refines(2) [OF inv])
qed

section \<open>Conservation of samples\<close>

text \<open>
  \<open>progress out acc n d d'\<close>: between \<open>d\<close> and \<open>d'\<close> there were \<open>n\<close> attempts to store a sample, \<open>acc\<close>
  are the samples stored and \<open>out\<close> the bytes that reads took out of the queue.
\<close>

definition progress :: "byte list \<Rightarrow> sensorhub_sample list \<Rightarrow> nat \<Rightarrow> spec_device \<Rightarrow> spec_device \<Rightarrow> bool" where
  "progress out acc n d d' \<longleftrightarrow>
     encode_samples (fifo d @ acc) = out @ encode_samples (fifo d') \<and>
     d_generated d' + d_injected d' = d_generated d + d_injected d + word_of_nat (length acc) \<and>
     length acc \<le> n \<and> d_dropped d' = d_dropped d + word_of_nat (n - length acc) \<and>
     d_read_bytes d' = d_read_bytes d + word_of_nat (length out) \<and>
     next_seq d' = next_seq d + word_of_nat n \<and>
     (\<exists>is. sorted_wrt (<) is \<and> set is \<subseteq> {..<n} \<and> map seq acc = map (\<lambda>i. next_seq d + word_of_nat i) is)"

lemma progress_refl:
  "fifo d' = fifo d \<Longrightarrow> d_generated d' = d_generated d \<Longrightarrow> d_injected d' = d_injected d \<Longrightarrow>
     d_dropped d' = d_dropped d \<Longrightarrow> d_read_bytes d' = d_read_bytes d \<Longrightarrow> next_seq d' = next_seq d \<Longrightarrow>
     progress [] [] 0 d d'"
  by (simp add: progress_def)

lemma progress_trans:
  assumes "progress o1 a1 n1 d d1" "progress o2 a2 n2 d1 d2"
  shows "progress (o1 @ o2) (a1 @ a2) (n1 + n2) d d2"
proof -
  obtain is1 where is1: "sorted_wrt (<) is1" "set is1 \<subseteq> {..<n1}"
      "map seq a1 = map (\<lambda>i. next_seq d + word_of_nat i) is1"
    using assms(1) by (auto simp: progress_def)
  obtain is2 where is2: "sorted_wrt (<) is2" "set is2 \<subseteq> {..<n2}"
      "map seq a2 = map (\<lambda>i. next_seq d1 + word_of_nat i) is2"
    using assms(2) by (auto simp: progress_def)
  let ?is = "is1 @ map (\<lambda>i. n1 + i) is2"
  have "sorted_wrt (<) ?is" "set ?is \<subseteq> {..<n1 + n2}"
    using is1 is2 by (auto simp: sorted_wrt_append sorted_wrt_map subset_iff)
  moreover have "map seq (a1 @ a2) = map (\<lambda>i. next_seq d + word_of_nat i) ?is"
    using is1(3) is2(3) assms(1) by (simp add: progress_def add.assoc)
  ultimately have "\<exists>is. sorted_wrt (<) is \<and> set is \<subseteq> {..<n1 + n2} \<and>
      map seq (a1 @ a2) = map (\<lambda>i. next_seq d + word_of_nat i) is" by blast
  moreover have "n1 + n2 - length (a1 @ a2) = (n1 - length a1) + (n2 - length a2)"
    using assms by (simp add: progress_def)
  moreover have "encode_samples (fifo d @ a1 @ a2) = (o1 @ o2) @ encode_samples (fifo d2)"
    using assms by (metis append.assoc encode_samples_append progress_def)
  ultimately show ?thesis
    using assms by (simp add: progress_def add_ac)
qed

lemma spec_push_progress: "\<exists>acc. progress [] acc 1 d (spec_push s by_user d)"
proof (cases "length (fifo d) < 2048")
  case True
  then have "progress [] [s\<lparr>seq := next_seq d\<rparr>] 1 d (spec_push s by_user d)"
    by (auto simp: progress_def spec_push_def Let_def intro!: exI [of _ "[0]"])
  then show ?thesis by blast
next
  case False
  then have "progress [] [] 1 d (spec_push s by_user d)"
    by (auto simp: progress_def spec_push_def Let_def)
  then show ?thesis by blast
qed

text \<open>Event sequences without a reset and without inaccessible read buffers.\<close>

definition plain_event :: "drv_event \<Rightarrow> bool" where
  "plain_event ev \<longleftrightarrow> (case ev of Ioctl_call cmd _ _ \<Rightarrow> cmd \<noteq> SENSORHUB_IOC_RESET
     | Read_call _ _ fault _ \<Rightarrow> \<not> fault | _ \<Rightarrow> True)"

fun read_data :: "drv_event list \<Rightarrow> reply list \<Rightarrow> byte list" where
  "read_data (Read_call nonblock signal fault count # evs) (Data bs # rs) = bs @ read_data evs rs"
| "read_data (ev # evs) (r # rs) = read_data evs rs"
| "read_data evs rs = []"

fun is_read :: "drv_event \<Rightarrow> bool" where
  "is_read (Read_call nonblock signal fault count) = True"
| "is_read ev = False"

lemma read_data_other: "\<not> is_read ev \<Longrightarrow> read_data (ev # evs) (r # rs) = read_data evs rs"
  by (cases ev) simp_all

lemma read_progress:
  "progress (encode_samples (take (spec_batch count) (fifo d))) [] 0 d
     (snd (spec_read fault count d))"
  by (simp add: progress_def spec_read_def Let_def flip: encode_samples_append)

lemma exec_progress_other:
  assumes "plain_event ev" "\<not> is_read ev"
  shows "\<exists>acc n. progress [] acc n d (snd (spec_exec ev d))"
proof -
  have same: ?thesis if "progress [] [] 0 d (snd (spec_exec ev d))" using that by blast
  show ?thesis
  proof (cases ev)
    case (Timer_fires r now)
    obtain acc where "progress [] acc 1 d (spec_push (timer_sample r now) False d)"
      using spec_push_progress by blast
    then have "progress [] acc 1 d (snd (spec_exec ev d)) \<or> progress [] [] 0 d (snd (spec_exec ev d))"
      using Timer_fires by (simp add: progress_def)
    then show ?thesis by blast
  next
    case (Write_call fault now buf)
    let ?s = "(decode_sample buf)\<lparr>timestamp_ns := now, stype := SENSORHUB_SAMPLE_USER\<rparr>"
    obtain acc where "progress [] acc 1 d (spec_push ?s True d)" using spec_push_progress by blast
    then have "progress [] acc 1 d (snd (spec_exec ev d)) \<or> progress [] [] 0 d (snd (spec_exec ev d))"
      using Write_call by (simp add: progress_refl)
    then show ?thesis by blast
  next
    case (Ioctl_call cmd fault arg)
    with assms(1) show ?thesis
      by (intro same, cases cmd) (simp_all add: progress_refl plain_event_def sensorhub_apply_config_def Let_def)
  next
    case (Read_call nb sg fault count)
    with assms(2) show ?thesis by simp
  qed (rule same, simp add: progress_refl sensorhub_open_def sensorhub_release_def interval_ms_store_def
      enabled_store_def sensorhub_apply_config_def Let_def split: sum.splits)+
qed

lemma exec_progress:
  assumes "plain_event ev"
  shows "\<exists>out acc n. progress out acc n d (snd (spec_exec ev d)) \<and>
    (\<forall>evs rs. read_data (ev # evs) (fst (spec_exec ev d) # rs) = out @ read_data evs rs)"
proof (cases "is_read ev")
  case True
  then obtain nb sg fault count where ev: "ev = Read_call nb sg fault count" by (cases ev) auto
  show ?thesis
  proof (cases "count < sample_size \<or> fifo d = []")
    case True
    then show ?thesis
      using progress_refl [of d d] by (intro exI [of _ "[]"] exI [of _ 0]) (auto simp: ev)
  next
    case False
    then show ?thesis
      using assms read_progress [of count d fault]
      by (intro exI [of _ "encode_samples (take (spec_batch count) (fifo d))"] exI [of _ "[]"] exI [of _ 0])
        (simp add: ev plain_event_def spec_read_def Let_def)
  qed
next
  case False
  with exec_progress_other [OF assms] read_data_other show ?thesis by (metis append_Nil)
qed

lemma run_progress:
  "\<forall>ev \<in> set evs. plain_event ev \<Longrightarrow>
     \<exists>acc n. progress (read_data evs (fst (spec_run evs d))) acc n d (snd (spec_run evs d))"
proof (induction evs arbitrary: d)
  case Nil
  have "progress [] [] 0 d d" by (simp add: progress_refl)
  then show ?case by auto
next
  case (Cons ev evs)
  obtain r d1 where e: "spec_exec ev d = (r, d1)" by fastforce
  obtain rs d2 where run: "spec_run evs d1 = (rs, d2)" by fastforce
  obtain out acc n where 1: "progress out acc n d d1"
    "\<And>evs rs. read_data (ev # evs) (r # rs) = out @ read_data evs rs"
    using exec_progress [of ev d] Cons.prems e by auto
  obtain acc' n' where 2: "progress (read_data evs rs) acc' n' d1 d2"
    using Cons.IH [of d1] Cons.prems run by auto
  from progress_trans [OF 1(1) 2] show ?case by (auto simp: e run 1(2))
qed

section \<open>Reading with other contexts in between\<close>

lemma has_data_iff:
  assumes "kfifo_api K bytes ok" "drv_inv K bytes ok d"
  shows "sensorhub_has_data K d \<longleftrightarrow> queued bytes d \<noteq> []"
  using kfifo_api.has_data_abs [OF assms] by (simp add: abs_device_def)

lemma read_nonblock:
  assumes "kfifo_api K bytes ok" "drv_inv K bytes ok d" "sample_size \<le> count"
  shows "sensorhub_read K True signal sleep id False count d =
    (if queued bytes d = [] then (Some (Err EAGAIN), d)
     else (Some (Data (encode_samples (take (spec_batch count) (queued bytes d)))),
           snd (read_copy K False count d)))"
proof -
  have "fst (read_copy K False count d) = Data (encode_samples (take (spec_batch count) (queued bytes d)))"
    using kfifo_api.read_refines(1) [OF assms(1,2), of False count]
    by (simp add: spec_read_def Let_def abs_device_def)
  with has_data_iff [OF assms(1,2)] assms(3) show ?thesis
    by (auto simp: sensorhub_read_def split: prod.splits)
qed

section \<open>The module just after loading\<close>

lemma init_loaded:
  assumes "sensorhub_init K ans m = (None, m')" "g_sensorhub m' = Some d"
  shows "\<exists>f. kfifo_alloc K SENSORHUB_FIFO_BYTES = Inr f \<and> d = (fresh_device f)\<lparr>timer := Some 500\<rparr>"
  using assms
  by (auto simp: sensorhub_init_def Let_def acquire_def release_resource_def fresh_device_def
      SENSORHUB_DEFAULT_INTERVAL_MS_def split: if_splits sum.splits option.splits)

lemma init_loaded_inv:
  assumes "kfifo_api K bytes ok" "sensorhub_init K ans m = (None, m')" "g_sensorhub m' = Some d"
  shows "drv_inv K bytes ok d" and "abs_device bytes d = (fresh_device [])\<lparr>timer := Some 500\<rparr>"
  using init_loaded [OF assms(2,3)] kfifo_api.init_inv [OF assms(1)] by auto

text \<open>A concrete instance: the ring buffer, loaded without errors.\<close>

definition empty_ring :: ring where
  "empty_ring = \<lparr>rdata = replicate SENSORHUB_FIFO_BYTES 0, rin = 0, rout = 0\<rparr>"

definition loaded_ring :: "ring sensorhub_device" where
  "loaded_ring = (fresh_device empty_ring)\<lparr>timer := Some 500\<rparr>"

definition good_init :: init_answers where
  "good_init = \<lparr>kzalloc_ok = True, misc_err = None, sysfs_err = None, debugfs_ok = True\<rparr>"

lemma alloc_empty_ring: "kfifo_alloc ring_ops SENSORHUB_FIFO_BYTES = Inr empty_ring"
  by (simp add: ring_ops_def ring_alloc_def SENSORHUB_FIFO_BYTES_def empty_ring_def)

lemma init_ring:
  "sensorhub_init ring_ops good_init m =
     (None, m\<lparr>g_sensorhub := Some loaded_ring,
        held := Queued_timer # Debugfs_dir # Sysfs_group # Misc_device # Fifo_memory # Device_memory # held m\<rparr>)"
  by (simp add: sensorhub_init_def good_init_def alloc_empty_ring Let_def acquire_def loaded_ring_def
      fresh_device_def SENSORHUB_DEFAULT_INTERVAL_MS_def)

lemma g_sensorhub_ring: "g_sensorhub (m\<lparr>g_sensorhub := Some loaded_ring, held := hs\<rparr>) = Some loaded_ring"
  by simp

definition no_module :: "'f module_state" where
  "no_module = \<lparr>g_sensorhub = None, held = []\<rparr>"

lemma loaded_ring_inv: "drv_inv ring_ops ring_bytes ring_ok loaded_ring"
  by (rule init_loaded_inv(1) [OF ring.kfifo_api_axioms init_ring [of no_module]]) simp

text \<open>The same device after its timer has fired once.\<close>

definition sampled_ring :: "ring sensorhub_device" where
  "sampled_ring = sensorhub_push_sample ring_ops (timer_sample 3 9) False loaded_ring"

lemma queued_loaded_ring: "queued ring_bytes loaded_ring = []"
  using init_loaded_inv(2) [OF ring.kfifo_api_axioms init_ring g_sensorhub_ring]
  by (simp add: abs_device_def with_fifo_def fresh_device_def)

lemma next_seq_loaded_ring: "next_seq loaded_ring = 0"
  by (simp add: loaded_ring_def fresh_device_def)

lemma sampled_ring_inv: "drv_inv ring_ops ring_bytes ring_ok sampled_ring"
  unfolding sampled_ring_def by (rule kfifo_api.push_refines(2) [OF ring.kfifo_api_axioms loaded_ring_inv])

lemma queued_sampled_ring: "queued ring_bytes sampled_ring = [timer_sample 3 9]"
proof -
  have "abs_device ring_bytes sampled_ring = spec_push (timer_sample 3 9) False (abs_device ring_bytes loaded_ring)"
    unfolding sampled_ring_def by (rule kfifo_api.push_refines(1) [OF ring.kfifo_api_axioms loaded_ring_inv])
  from arg_cong [OF this, of fifo] show ?thesis
    by (simp add: abs_device_def with_fifo_def spec_push_def Let_def queued_loaded_ring next_seq_loaded_ring
        timer_sample_def zero_sample_def)
qed

section \<open>Properties\<close>

text \<open>
  Property C4 (the driver implements a bounded queue of samples). For every FIFO that satisfies the
  kernel's documented laws and every sequence of timer expirations, reads (blocking or not, with their errors), polls, writes, ioctls and sysfs
  stores after loading, the driver gives the replies of the specification and its state is the
  specification's: in particular the byte FIFO always holds whole samples, at most 2048.
\<close>

theorem driver_refines:
  assumes "kfifo_api K bytes ok"
    and "sensorhub_init K ans m = (None, m')" and "g_sensorhub m' = Some d"
  shows "fst (drv_run K evs d) = fst (spec_run evs ((fresh_device [])\<lparr>timer := Some 500\<rparr>)) \<and>
    abs_device bytes (snd (drv_run K evs d)) =
      snd (spec_run evs ((fresh_device [])\<lparr>timer := Some 500\<rparr>)) \<and>
    (\<exists>q. bytes (fifo (snd (drv_run K evs d))) = encode_samples q \<and> length q \<le> 2048)"
proof -
  note init = init_loaded_inv [OF assms]
  note run = kfifo_api.run_refines [OF assms(1) init(1), of evs]
  then obtain q where "bytes (fifo (snd (drv_run K evs d))) = encode_samples q"
    "length q \<le> 2048" using kfifo_api.inv_samples [OF assms(1)] by blast
  with run init(2) show ?thesis by auto
qed

theorem driver_refines_witness:
  "\<exists>q. ring_bytes (fifo (snd (drv_run ring_ops [Timer_fires 5 7, Write_call False 8 (replicate 32 1)]
     loaded_ring))) = encode_samples q \<and> length q \<le> 2048"
  using driver_refines [OF ring.kfifo_api_axioms init_ring g_sensorhub_ring] by blast

text \<open>
  Samples are delivered in order, once, and every loss is counted. Over any sequence of
  events without a reset and without faulting read buffers: the samples that were queued and those
  accepted meanwhile are exactly what the readers got followed by what is still queued; the counters
  for generated, injected, dropped and read bytes advance by exactly these amounts; and the sequence
  numbers of the accepted samples are increasing, every missing number being a dropped sample.
\<close>

theorem driver_conserves_samples:
  assumes "kfifo_api K bytes ok" and "drv_inv K bytes ok d" and "\<forall>ev \<in> set evs. plain_event ev"
    and "drv_run K evs d = (rs, d')"
  shows "\<exists>acc n is. encode_samples (queued bytes d @ acc) = read_data evs rs @ encode_samples (queued bytes d') \<and>
    d_generated d' + d_injected d' = d_generated d + d_injected d + word_of_nat (length acc) \<and>
    length acc \<le> n \<and> d_dropped d' = d_dropped d + word_of_nat (n - length acc) \<and>
    d_read_bytes d' = d_read_bytes d + word_of_nat (length (read_data evs rs)) \<and>
    next_seq d' = next_seq d + word_of_nat n \<and> sorted_wrt (<) is \<and> set is \<subseteq> {..<n} \<and>
    map seq acc = map (\<lambda>i. next_seq d + word_of_nat i) is"
proof -
  have run: "spec_run evs (abs_device bytes d) = (rs, abs_device bytes d')"
    using kfifo_api.run_refines [OF assms(1,2), of evs] assms(4) by (auto simp: prod_eq_iff)
  obtain acc n where "progress (read_data evs rs) acc n (abs_device bytes d) (abs_device bytes d')"
    using run_progress [OF assms(3), of "abs_device bytes d"] by (auto simp: run)
  then show ?thesis unfolding progress_def abs_device_def with_fifo_simps by blast
qed

theorem driver_conserves_samples_witness:
  "\<exists>acc n is. encode_samples (queued ring_bytes loaded_ring @ acc) =
       read_data [Timer_fires 5 7, Read_call True False False 64] (fst (drv_run ring_ops [Timer_fires 5 7, Read_call True False False 64] loaded_ring)) @
       encode_samples (queued ring_bytes (snd (drv_run ring_ops [Timer_fires 5 7, Read_call True False False 64] loaded_ring))) \<and>
     length acc \<le> n \<and> set is \<subseteq> {..<n}"
  using driver_conserves_samples [OF ring.kfifo_api_axioms loaded_ring_inv,
      of "[Timer_fires 5 7, Read_call True False False 64]"
         "fst (drv_run ring_ops [Timer_fires 5 7, Read_call True False False 64] loaded_ring)"
         "snd (drv_run ring_ops [Timer_fires 5 7, Read_call True False False 64] loaded_ring)"]
  by (fastforce simp: plain_event_def)

text \<open>
  Settings stay in range. Whatever is written through ioctl and sysfs, the sampling
  interval stays between 10 and 60000 milliseconds, the enable flag is 0 or 1, and the timer is queued
  exactly while sampling is enabled, never with a shorter or longer period than that range.
\<close>

theorem driver_settings_in_range:
  assumes "kfifo_api K bytes ok"
    and "sensorhub_init K ans m = (None, m')" and "g_sensorhub m' = Some d0"
    and "d = snd (drv_run K evs d0)"
  shows "10 \<le> unat (interval_ms (config d)) \<and> unat (interval_ms (config d)) \<le> 60000 \<and>
    (enabled (config d) = 0 \<or> enabled (config d) = 1) \<and>
    (timer d = None \<longleftrightarrow> enabled (config d) = 0) \<and>
    (\<forall>ms. timer d = Some ms \<longrightarrow> 10 \<le> unat ms \<and> unat ms \<le> 60000)"
proof -
  have "settings_ok (config d) (timer d)"
    using kfifo_api.run_refines [OF assms(1) init_loaded_inv(1) [OF assms(1-3)], of evs] assms(4)
    by (simp add: drv_inv_def)
  moreover have "interval_in_range ms \<Longrightarrow> 10 \<le> unat ms \<and> unat ms \<le> 60000" for ms
    by (simp add: interval_in_range_def not_less word_le_nat_alt)
  ultimately show ?thesis by (auto simp: settings_ok_def split: option.splits)
qed

theorem driver_settings_in_range_witness:
  "10 \<le> unat (interval_ms (config (snd (drv_run ring_ops [Interval_store (Inr 5) ''5'',
     Enabled_store (Inr False) ''0''] loaded_ring))))"
  using driver_settings_in_range [OF ring.kfifo_api_axioms init_ring g_sensorhub_ring refl] by blast

text \<open>
  Reading. A read with a buffer of less than one sample is refused. A non-blocking read
  with no other reader in between fails with \<open>EAGAIN\<close> exactly when nothing is queued, otherwise it
  returns the oldest samples, whole ones only, at most 64 and at most what the buffer holds. A blocking
  read that has slept and then finds data behaves the same way on the device it wakes up to; a signal
  without data gives \<open>ERESTARTSYS\<close>.
\<close>

theorem driver_read:
  assumes "kfifo_api K bytes ok" and "drv_inv K bytes ok d" and "drv_inv K bytes ok (sleep d)"
  shows "(count < 32 \<longrightarrow> sensorhub_read K nonblock signal sleep id False count d = (Some (Err EINVAL), d)) \<and>
    (32 \<le> count \<longrightarrow> queued bytes d = [] \<longrightarrow>
       sensorhub_read K True signal sleep id False count d = (Some (Err EAGAIN), d)) \<and>
    (32 \<le> count \<longrightarrow> queued bytes d \<noteq> [] \<longrightarrow>
       fst (sensorhub_read K nonblock signal sleep id False count d) =
         Some (Data (encode_samples (take (min (count div 32) 64) (queued bytes d)))) \<and>
       queued bytes (snd (sensorhub_read K nonblock signal sleep id False count d)) =
         drop (min (count div 32) 64) (queued bytes d)) \<and>
    (32 \<le> count \<longrightarrow> queued bytes d = [] \<longrightarrow> queued bytes (sleep d) = [] \<longrightarrow>
       fst (sensorhub_read K False signal sleep id False count d) = (if signal then Some (Err ERESTARTSYS) else None)) \<and>
    (32 \<le> count \<longrightarrow> queued bytes d = [] \<longrightarrow> queued bytes (sleep d) \<noteq> [] \<longrightarrow>
       fst (sensorhub_read K False signal sleep id False count d) =
         Some (Data (encode_samples (take (min (count div 32) 64) (queued bytes (sleep d))))))"
proof -
  have copy: "fst (read_copy K False count x) = Data (encode_samples (take (min (count div 32) 64) (queued bytes x)))"
    "queued bytes (snd (read_copy K False count x)) = drop (min (count div 32) 64) (queued bytes x)"
    if "drv_inv K bytes ok x" for x
    using kfifo_api.read_refines(1) [OF assms(1) that, of False count]
      arg_cong [OF kfifo_api.read_refines(2) [OF assms(1) that, of False count], of fifo]
    by (simp_all add: spec_read_def Let_def abs_device_def spec_batch_def)
  note facts = copy [OF assms(2)] copy [OF assms(3)] has_data_iff [OF assms(1,2)] has_data_iff [OF assms(1,3)]
  show ?thesis
    by (intro conjI impI) (simp_all add: sensorhub_read_def Let_def facts case_prod_beta)
qed

theorem driver_read_witness:
  "sensorhub_read ring_ops True False id id False 64 loaded_ring = (Some (Err EAGAIN), loaded_ring)"
proof -
  have "queued ring_bytes loaded_ring = []"
    using init_loaded_inv(2) [OF ring.kfifo_api_axioms init_ring [of no_module], of loaded_ring]
    by (simp add: abs_device_def with_fifo_def fresh_device_def)
  then show ?thesis
    using driver_read [OF ring.kfifo_api_axioms loaded_ring_inv, of id 64] loaded_ring_inv by simp
qed

text \<open>
  Two readers. The test for data and the copy are separate critical sections. When
  another reader takes everything in between, a read that had seen data returns 0 bytes, which a
  caller takes for the end of the file, in blocking mode too; it neither waits nor reports \<open>EAGAIN\<close>.
\<close>

theorem driver_read_race_eof:
  assumes "kfifo_api K bytes ok" and "drv_inv K bytes ok d" and "queued bytes d \<noteq> []"
    and "drv_inv K bytes ok (between d)" and "queued bytes (between d) = []" and "32 \<le> count"
  shows "fst (sensorhub_read K nonblock signal sleep between fault count d) = Some (Data [])"
proof -
  have "fst (read_copy K fault count (between d)) = Data []"
    using kfifo_api.read_refines(1) [OF assms(1,4), of fault count] assms(5)
    by (simp add: spec_read_def Let_def abs_device_def)
  with has_data_iff [OF assms(1,2)] assms(3,6) show ?thesis
    by (simp add: sensorhub_read_def Let_def case_prod_beta)
qed

theorem driver_read_race_eof_witness:
  "fst (sensorhub_read ring_ops False False id (\<lambda>_. loaded_ring) False 64
     (sensorhub_push_sample ring_ops zero_sample True loaded_ring)) = Some (Data [])"
proof (rule driver_read_race_eof [OF ring.kfifo_api_axioms])
  have empty: "queued ring_bytes loaded_ring = []"
    using init_loaded_inv(2) [OF ring.kfifo_api_axioms init_ring [of no_module], of loaded_ring]
    by (simp add: abs_device_def with_fifo_def fresh_device_def)
  show "queued ring_bytes (sensorhub_push_sample ring_ops zero_sample True loaded_ring) \<noteq> []"
    using ring.drv.put_accept [OF loaded_ring_inv, of zero_sample] empty by (simp add: drv_room_def)
  show "drv_inv ring_ops ring_bytes ring_ok (sensorhub_push_sample ring_ops zero_sample True loaded_ring)"
    by (rule ring.push_refines(2) [OF loaded_ring_inv])
  show "queued ring_bytes loaded_ring = []" by (rule empty)
qed (simp_all add: loaded_ring_inv)

text \<open>
  Property C38 (loading and unloading). A failed initialisation gives back every resource it took and
  leaves the global pointer null; after a successful one, unloading releases everything.
\<close>

theorem driver_init_exit_balanced:
  "(fst (sensorhub_init K ans m) \<noteq> None \<longleftrightarrow> held (snd (sensorhub_init K ans m)) = held m) \<and>
   (fst (sensorhub_init K ans m) \<noteq> None \<longleftrightarrow> g_sensorhub (snd (sensorhub_init K ans m)) = None) \<and>
   (fst (sensorhub_init K ans m) = None \<longleftrightarrow>
      kzalloc_ok ans \<and> (\<exists>f. kfifo_alloc K SENSORHUB_FIFO_BYTES = Inr f) \<and> misc_err ans = None \<and> sysfs_err ans = None) \<and>
   (held m = [] \<longrightarrow> fst (sensorhub_init K ans m) = None \<longrightarrow> held (sensorhub_exit (snd (sensorhub_init K ans m))) = [])"
  by (auto simp: sensorhub_init_def sensorhub_exit_def Let_def acquire_def release_resource_def
      split: sum.splits option.splits)

theorem driver_init_exit_balanced_witness:
  "held (sensorhub_exit (snd (sensorhub_init ring_ops good_init no_module))) = []"
  using driver_init_exit_balanced [of ring_ops good_init no_module] by (simp add: init_ring no_module_def)

end
