(* ===== verification/Sensor_Device.thy ===== *)
theory Sensor_Device
  imports Driver_Refinement
begin

text \<open>
  The sample sources of the daemon, \<open>userspace/src/device/sensor_device.cpp\<close> with its header: the
  reader of the driver's character device and the simulated device on a timer descriptor. System
  calls: the answers of \<open>read\<close> are a list (one element per call); \<open>ioctl\<close> is a function on the state
  of whoever answers it, so that the driver model can be plugged in.
\<close>

section \<open>SensorDevice\<close>

record sensor_device =
  dev_fd :: fd
  dev_closed :: "fd list"

definition new_sensor_device :: sensor_device where
  "new_sensor_device = \<lparr>dev_fd = -1, dev_closed = []\<rparr>"

definition open_device :: "errno + fd \<Rightarrow> string \<Rightarrow> sensor_device \<Rightarrow> unit result \<times> sensor_device" where
  "open_device ans path s =
     (case ans of
        Inl e \<Rightarrow> (Inl (Sys_error (''open '' @ path) e), s)
      | Inr f \<Rightarrow> (Inr (), \<lparr>dev_fd = f,
                   dev_closed = dev_closed s @ (if 0 \<le> dev_fd s then [dev_fd s] else [])\<rparr>))"

text \<open>\<open>out\<close> is the vector of samples read so far.\<close>

fun read_available :: "byte io_in list \<Rightarrow> sensorhub_sample list \<Rightarrow> sensorhub_sample list result option" where
  "read_available [] out = None"
| "read_available (Got bs # rest) out =
     (if 0 < length bs
      then read_available rest (out @ decode_samples (length bs div sample_size) bs)
      else Some (Inr out))"
| "read_available (In_err e # rest) out =
     (if e = EAGAIN then Some (Inr out)
      else if e = EINTR then read_available rest out
      else Some (Inl (Sys_error ''read sensor device'' e)))"

type_synonym 'w ioctl_call = "ioctl_request \<Rightarrow> byte list \<Rightarrow> 'w \<Rightarrow> (errno + byte list) \<times> 'w"

definition get_stats :: "'w ioctl_call \<Rightarrow> 'w \<Rightarrow> sensorhub_stats result \<times> 'w" where
  "get_stats ioctl w =
     (case ioctl SENSORHUB_IOC_GET_STATS (replicate 48 0) w of
        (Inl e, w1) \<Rightarrow> (Inl (Sys_error ''ioctl GET_STATS'' e), w1)
      | (Inr bs, w1) \<Rightarrow> (Inr (decode_stats bs), w1))"

definition get_config :: "'w ioctl_call \<Rightarrow> 'w \<Rightarrow> sensorhub_config result \<times> 'w" where
  "get_config ioctl w =
     (case ioctl SENSORHUB_IOC_GET_CONFIG (replicate 8 0) w of
        (Inl e, w1) \<Rightarrow> (Inl (Sys_error ''ioctl GET_CONFIG'' e), w1)
      | (Inr bs, w1) \<Rightarrow> (Inr (decode_config bs), w1))"

definition set_config :: "'w ioctl_call \<Rightarrow> sensorhub_config \<Rightarrow> 'w \<Rightarrow> unit result \<times> 'w" where
  "set_config ioctl cfg w =
     (case ioctl SENSORHUB_IOC_SET_CONFIG (encode_config cfg) w of
        (Inl e, w1) \<Rightarrow> (Inl (Sys_error ''ioctl SET_CONFIG'' e), w1)
      | (Inr bs, w1) \<Rightarrow> (Inr (), w1))"

section \<open>SimulatedSensorDevice\<close>

text \<open>\<open>timer_spec\<close> is the programmed interval (seconds, nanoseconds); \<open>sim_seq\<close> the next number.\<close>

record simulated_device =
  timer_fd :: fd
  sim_seq :: u64
  timer_spec :: "u32 \<times> u32"
  sim_closed :: "fd list"

definition new_simulated_device :: simulated_device where
  "new_simulated_device = \<lparr>timer_fd = -1, sim_seq = 0, timer_spec = (0, 0), sim_closed = []\<rparr>"

definition start :: "errno + fd \<Rightarrow> errno option \<Rightarrow> u32 \<Rightarrow> simulated_device \<Rightarrow> unit result \<times> simulated_device" where
  "start create settime_err ms s =
     (case create of
        Inl e \<Rightarrow> (Inl (Sys_error ''timerfd_create'' e), s)
      | Inr f \<Rightarrow>
          (case settime_err of
             Some e \<Rightarrow> (Inl (Sys_error ''timerfd_settime'' e), s\<lparr>sim_closed := sim_closed s @ [f]\<rparr>)
           | None \<Rightarrow> (Inr (), s\<lparr>timer_fd := f, timer_spec := (ms div 1000, (ms mod 1000) * 1000 * 1000),
                        sim_closed := sim_closed s @ (if 0 \<le> timer_fd s then [timer_fd s] else [])\<rparr>)))"

text \<open>The loop over the expirations: \<open>clock i\<close> is the time read for the \<open>i\<close>-th sample.\<close>

definition sim_sample :: "u64 \<Rightarrow> u64 \<Rightarrow> sensorhub_sample" where
  "sim_sample n now = zero_sample\<lparr>seq := n, timestamp_ns := now, stype := SENSORHUB_SAMPLE_TEMP,
     value0 := 25000 + ucast ((n * 37) mod 8000)\<rparr>"

fun sim_loop :: "(nat \<Rightarrow> u64) \<Rightarrow> nat \<Rightarrow> nat \<Rightarrow> u64 \<Rightarrow> sensorhub_sample list \<times> u64" where
  "sim_loop clock i 0 n = ([], n)"
| "sim_loop clock i (Suc k) n =
     (case sim_loop clock (Suc i) k (n + 1) of (out, n') \<Rightarrow> (sim_sample n (clock i) # out, n'))"

definition sim_read_available :: "(nat \<Rightarrow> u64) \<Rightarrow> errno + u64 \<Rightarrow> simulated_device \<Rightarrow>
    sensorhub_sample list result \<times> simulated_device" where
  "sim_read_available clock ans s =
     (case ans of
        Inl e \<Rightarrow> (if e = EAGAIN then Inr [] else Inl (Sys_error ''read timerfd'' e), s)
      | Inr expirations \<Rightarrow>
          (case sim_loop clock 0 (unat expirations) (sim_seq s) of
             (out, n) \<Rightarrow> (Inr out, s\<lparr>sim_seq := n\<rparr>)))"

section \<open>Reading a stream of whole samples\<close>

lemma read_available_chunk:
  "ss \<noteq> [] \<Longrightarrow> read_available (Got (encode_samples ss) # rest) out = read_available rest (out @ ss)"
  by (simp add: encode_samples_eq_Nil)

lemma sim_loop_spec:
  "sim_loop clock i k n =
     (map (\<lambda>j. sim_sample (n + word_of_nat j) (clock (i + j))) [0..<k], n + word_of_nat k)"
proof (induction k arbitrary: i n)
  case (Suc k)
  have "[0..<Suc k] = 0 # map Suc [0..<k]" by (simp add: map_Suc_upt upt_conv_Cons)
  with Suc show ?case by (simp add: add.assoc del: upt_Suc)
qed simp

lemma sim_value_range:
  "25000 \<le> sint (value0 (sim_sample n now)) \<and> sint (value0 (sim_sample n now)) < 33000"
proof -
  have lt: "unat ((n * 37) mod 8000) < 8000" by (simp add: unat_mod)
  then have "unat (ucast ((n * 37) mod 8000) :: u32) = unat ((n * 37) mod 8000)"
    by (simp add: unsigned_ucast_eq take_bit_eq_mod)
  with lt have u: "unat (25000 + ucast ((n * 37) mod 8000) :: u32) = 25000 + unat ((n * 37) mod 8000)"
    by (simp add: unat_word_ariths)
  with lt have "unat (25000 + ucast ((n * 37) mod 8000) :: u32) < 2 ^ 31" by simp
  from sint_small [OF this] have "sint (25000 + ucast ((n * 37) mod 8000) :: u32) =
      int (unat (25000 + ucast ((n * 37) mod 8000) :: u32))" by simp
  then have "sint (value0 (sim_sample n now)) = 25000 + int (unat ((n * 37) mod 8000))"
    unfolding u by (simp add: sim_sample_def)
  with lt show ?thesis by linarith
qed

lemma sim_sample_fields [simp]:
  "seq (sim_sample n now) = n" "timestamp_ns (sim_sample n now) = now"
  "stype (sim_sample n now) = SENSORHUB_SAMPLE_TEMP"
  by (simp_all add: sim_sample_def)

section \<open>Reading the driver\<close>

text \<open>The answers of successive non-blocking reads with the daemon's buffer of 64 samples.\<close>

fun drv_reads :: "'f kfifo_ops \<Rightarrow> nat \<Rightarrow> 'f sensorhub_device \<Rightarrow> byte io_in list \<times> 'f sensorhub_device" where
  "drv_reads K 0 d = ([], d)"
| "drv_reads K (Suc n) d =
     (case sensorhub_read K True False id id False (64 * sample_size) d of
        (Some (Data bs), d1) \<Rightarrow> (case drv_reads K n d1 of (xs, d2) \<Rightarrow> (Got bs # xs, d2))
      | (Some (Err e), d1) \<Rightarrow> ([In_err e], d1)
      | (_, d1) \<Rightarrow> ([], d1))"

definition drv_ioctl :: "'f kfifo_ops \<Rightarrow> 'f sensorhub_device ioctl_call" where
  "drv_ioctl K cmd arg d =
     (case sensorhub_ioctl K cmd False arg d of
        (Err e, d1) \<Rightarrow> (Inl e, d1)
      | (Data bs, d1) \<Rightarrow> (Inr bs, d1)
      | (_, d1) \<Rightarrow> (Inr [], d1))"

lemma queued_read_copy:
  assumes "kfifo_api K bytes ok" "drv_inv K bytes ok d"
  shows "queued bytes (snd (read_copy K False count d)) = drop (spec_batch count) (queued bytes d)"
  using arg_cong [OF kfifo_api.read_refines(2) [OF assms, of False count], of fifo]
  by (simp add: spec_read_def Let_def abs_device_def)

lemma read_available_driver:
  assumes "kfifo_api K bytes ok"
  shows "drv_inv K bytes ok d \<Longrightarrow> length (queued bytes d) \<le> 64 * n \<Longrightarrow>
    read_available (fst (drv_reads K (Suc n) d)) out = Some (Inr (out @ queued bytes d)) \<and>
    queued bytes (snd (drv_reads K (Suc n) d)) = [] \<and> drv_inv K bytes ok (snd (drv_reads K (Suc n) d))"
proof (induction n arbitrary: d out)
  case 0
  then show ?case by (simp add: read_nonblock [OF assms 0(1)])
next
  case (Suc n)
  show ?case
  proof (cases "queued bytes d = []")
    case True
    with Suc.prems show ?thesis by (simp add: read_nonblock [OF assms Suc.prems(1)])
  next
    case False
    let ?d1 = "snd (read_copy K False (64 * 32) d)"
    have inv: "drv_inv K bytes ok ?d1"
      by (rule kfifo_api.read_refines(3) [OF assms Suc.prems(1)])
    have q: "queued bytes ?d1 = drop 64 (queued bytes d)"
      using queued_read_copy [OF assms Suc.prems(1), of "64 * 32"] by (simp add: spec_batch_def)
    have "drv_reads K (Suc (Suc n)) d =
        (Got (encode_samples (take 64 (queued bytes d))) # fst (drv_reads K (Suc n) ?d1), snd (drv_reads K (Suc n) ?d1))"
      using False read_nonblock [OF assms Suc.prems(1), of "64 * 32"]
      by (simp add: spec_batch_def case_prod_beta del: drv_reads.simps(2) add: drv_reads.simps(2) [of K "Suc n"])
    moreover have "take 64 (queued bytes d) \<noteq> []" using False by simp
    ultimately show ?thesis
      using Suc.IH [OF inv, of "out @ take 64 (queued bytes d)"] Suc.prems(2) q
      by (simp add: read_available_chunk del: drv_reads.simps read_available.simps)
  qed
qed

section \<open>Properties\<close>

text \<open>
  The device reader empties the driver. When the daemon reads the driver's device, the
  loop returns after at most 33 reads with exactly the samples that were queued, in order, and leaves
  the device empty: the next \<open>poll\<close> reports no data.
\<close>

theorem device_reader_empties_driver:
  assumes "kfifo_api K bytes ok" and "drv_inv K bytes ok d"
  shows "read_available (fst (drv_reads K 33 d)) [] = Some (Inr (queued bytes d)) \<and>
    sensorhub_poll K (snd (drv_reads K 33 d)) AND EPOLLIN = 0"
proof -
  obtain q where "queued bytes d = q" "length q \<le> 2048"
    using kfifo_api.inv_samples [OF assms] by blast
  then have "length (queued bytes d) \<le> 64 * 32" by simp
  from read_available_driver [OF assms this, of "[]"] have
    r: "read_available (fst (drv_reads K 33 d)) [] = Some (Inr (queued bytes d))"
    "queued bytes (snd (drv_reads K 33 d)) = []" "drv_inv K bytes ok (snd (drv_reads K 33 d))"
    by (simp_all del: drv_reads.simps)
  moreover have "\<not> sensorhub_has_data K (snd (drv_reads K 33 d))"
    using has_data_iff [OF assms(1) r(3)] r(2) by simp
  ultimately show ?thesis
    by (simp add: sensorhub_poll_def EPOLLIN_def EPOLLOUT_def EPOLLWRNORM_def del: drv_reads.simps)
qed

theorem device_reader_empties_driver_witness:
  "read_available (fst (drv_reads ring_ops 33 sampled_ring)) [] = Some (Inr [timer_sample 3 9])"
  using device_reader_empties_driver [OF ring.kfifo_api_axioms sampled_ring_inv] queued_sampled_ring
  by (simp del: drv_reads.simps)

text \<open>
  Settings reach the driver. Setting a configuration through the device wrapper and
  reading it back gives the interval that was set and the enable flag as 0 or 1 when the interval is in
  range; otherwise the call throws and nothing changes.
\<close>

theorem device_config_roundtrip:
  "(if 10 \<le> unat (interval_ms cfg) \<and> unat (interval_ms cfg) \<le> 60000
    then set_config (drv_ioctl K) cfg d = (Inr (), sensorhub_apply_config cfg d) \<and>
      fst (get_config (drv_ioctl K) (sensorhub_apply_config cfg d)) =
        Inr \<lparr>interval_ms = interval_ms cfg, enabled = (if enabled cfg \<noteq> 0 then 1 else 0)\<rparr>
    else set_config (drv_ioctl K) cfg d = (Inl (Sys_error ''ioctl SET_CONFIG'' EINVAL), d))"
  by (auto simp: set_config_def get_config_def drv_ioctl_def interval_in_range_def not_less
      word_le_nat_alt word_less_nat_alt sensorhub_apply_config_def Let_def)

text \<open>
  Simulated samples. A read that reports \<open>k\<close> expirations yields \<open>k\<close> samples with
  consecutive sequence numbers (modulo 2^64) that continue the previous read, all of temperature type
  and with values between 25000 and 32999.
\<close>

theorem simulated_samples:
  assumes "sim_read_available clock (Inr k) s = (Inr out, s')"
  shows "length out = unat k \<and> sim_seq s' = sim_seq s + k \<and>
    (\<forall>j < unat k. seq (out ! j) = sim_seq s + word_of_nat j \<and> timestamp_ns (out ! j) = clock j \<and>
       stype (out ! j) = SENSORHUB_SAMPLE_TEMP \<and>
       25000 \<le> sint (value0 (out ! j)) \<and> sint (value0 (out ! j)) < 33000)"
proof -
  have "out = map (\<lambda>j. sim_sample (sim_seq s + word_of_nat j) (clock j)) [0..<unat k]"
    "sim_seq s' = sim_seq s + k"
    using assms by (auto simp: sim_read_available_def sim_loop_spec)
  then show ?thesis
    using sim_value_range by simp
qed

theorem simulated_samples_witness:
  "seq (sim_sample (5 + word_of_nat 1) 8) = 6 \<and>
   25000 \<le> sint (value0 ([sim_sample 5 7, sim_sample 6 8] ! 1))"
proof -
  have "sim_read_available (\<lambda>i. 7 + word_of_nat i) (Inr 2) (new_simulated_device\<lparr>sim_seq := 5\<rparr>) =
      (Inr [sim_sample 5 7, sim_sample 6 8], new_simulated_device\<lparr>sim_seq := 7\<rparr>)"
    by (simp add: sim_read_available_def sim_loop_spec new_simulated_device_def upt_rec)
  from simulated_samples [OF this] have
    "\<forall>j < 2. 25000 \<le> sint (value0 ([sim_sample 5 7, sim_sample 6 8] ! j))" by simp
  then have "25000 \<le> sint (value0 ([sim_sample 5 7, sim_sample 6 8] ! 1))" by (simp only: one_less_numeral_iff semiring_norm)
  then show ?thesis by simp
qed

text \<open>
  Timer period. The programmed period is the configured number of milliseconds, with a
  nanosecond part below one second; an interval of 0 gives the zero setting, which disarms the timer.
\<close>

theorem simulated_period:
  assumes "start (Inr f) None ms s = (Inr (), s')"
  shows "unat (fst (timer_spec s')) * 1000000000 + unat (snd (timer_spec s')) = unat ms * 1000000 \<and>
    unat (snd (timer_spec s')) < 1000000000 \<and> (timer_spec s' = (0, 0) \<longleftrightarrow> ms = 0)"
proof -
  have spec: "timer_spec s' = (ms div 1000, (ms mod 1000) * 1000 * 1000)"
    using assms by (auto simp: start_def)
  have d: "unat (ms div 1000) = unat ms div 1000" by (simp add: unat_div)
  have m: "unat ((ms mod 1000) * 1000 * 1000) = (unat ms mod 1000) * 1000000"
    by (simp add: unat_word_ariths unat_mod)
  have "unat ms div 1000 * 1000000000 + (unat ms mod 1000) * 1000000 = unat ms * 1000000"
  proof -
    define a b where "a = unat ms div 1000" and "b = unat ms mod 1000"
    have "unat ms = a * 1000 + b" by (simp add: a_def b_def)
    then have "a * 1000000000 + b * 1000000 = unat ms * 1000000" by simp
    then show ?thesis by (simp only: a_def b_def)
  qed
  moreover have "timer_spec s' = (0, 0) \<longleftrightarrow> unat ms div 1000 = 0 \<and> (unat ms mod 1000) * 1000000 = 0"
    unfolding spec prod.inject by (metis d m unat_eq_0 unat_0)
  ultimately show ?thesis using spec d m by (auto simp: unat_eq_0)
qed

theorem simulated_period_witness:
  "unat (fst (timer_spec (snd (start (Inr 4) None 1500 new_simulated_device)))) * 1000000000 +
     unat (snd (timer_spec (snd (start (Inr 4) None 1500 new_simulated_device)))) = 1500 * 1000000"
proof -
  have "start (Inr 4) None 1500 new_simulated_device =
      (Inr (), snd (start (Inr 4) None 1500 new_simulated_device))" by (simp add: start_def)
  from simulated_period [OF this] show ?thesis by simp
qed

end
