(* ===== verification/Log_Writer.thy ===== *)
theory Log_Writer
  imports Uapi
begin

text \<open>
  The text form of a sample and the rotating log file, \<open>userspace/src/storage/log_writer.cpp\<close>.

  The file system is the part of the state that maps a path to the contents of the regular file
  there. The answers of the operating system during one \<open>write_sample\<close> (whether directories can be
  created, files opened, removed and renamed, and how many of the written bytes reach the file)
  are the argument \<open>log_answers\<close>.
\<close>

section \<open>One sample as a line of text\<close>

definition sample_type_name :: "u32 \<Rightarrow> string" where
  "sample_type_name t =
     (if t = SENSORHUB_SAMPLE_TEMP then ''temp''
      else if t = SENSORHUB_SAMPLE_ACCEL then ''accel''
      else if t = SENSORHUB_SAMPLE_GYRO then ''gyro''
      else if t = SENSORHUB_SAMPLE_USER then ''user''
      else ''unknown'')"

definition sample_to_line :: "sensorhub_sample \<Rightarrow> string" where
  "sample_to_line s =
     ''seq='' @ dec (unat (seq s)) @
     '' ts_ns='' @ dec (unat (timestamp_ns s)) @
     '' type='' @ sample_type_name (stype s) @
     '' v0='' @ dec_int (sint (value0 s)) @
     '' v1='' @ dec_int (sint (value1 s)) @
     '' v2='' @ dec_int (sint (value2 s))"

lemma append_sep_inject:
  "c \<notin> set xs \<Longrightarrow> c \<notin> set ys \<Longrightarrow> xs @ c # r = ys @ c # r' \<longleftrightarrow> xs = ys \<and> r = r'"
proof (induction xs arbitrary: ys)
  case Nil
  then show ?case by (cases ys) auto
next
  case (Cons x xs)
  then show ?case by (cases ys) auto
qed

lemma blank_notin_dec [simp]: "CHR '' '' \<notin> set (dec n)"
  using dec_digits [of "CHR '' ''" n] by (auto simp: is_digit_def)

lemma blank_notin_dec_int [simp]: "CHR '' '' \<notin> set (dec_int i)"
  by (auto simp: dec_int_def)

lemma blank_notin_type_name [simp]: "CHR '' '' \<notin> set (sample_type_name t)"
  by (simp add: sample_type_name_def)

lemma nl_notin_dec [simp]: "nl \<notin> set (dec n)"
  using dec_digits [of nl n] by (auto simp: is_digit_def)

lemma nl_notin_dec_int [simp]: "nl \<notin> set (dec_int i)"
  by (simp add: dec_int_def)

lemma nl_notin_type_name [simp]: "nl \<notin> set (sample_type_name t)"
  by (simp add: sample_type_name_def)

lemma sample_to_line_no_nl: "nl \<notin> set (sample_to_line s)"
  by (simp add: sample_to_line_def)

lemma sample_to_line_inject:
  "sample_to_line a = sample_to_line b \<longleftrightarrow>
     seq a = seq b \<and> timestamp_ns a = timestamp_ns b \<and>
     sample_type_name (stype a) = sample_type_name (stype b) \<and>
     value0 a = value0 b \<and> value1 a = value1 b \<and> value2 a = value2 b"
  by (auto simp: sample_to_line_def append_sep_inject dest: unsigned_word_eqI signed_word_eqI)

definition known_type :: "u32 \<Rightarrow> bool" where
  "known_type t \<longleftrightarrow> t = SENSORHUB_SAMPLE_TEMP \<or> t = SENSORHUB_SAMPLE_ACCEL \<or>
     t = SENSORHUB_SAMPLE_GYRO \<or> t = SENSORHUB_SAMPLE_USER"

lemma length_dec_u64: "length (dec (unat w)) \<le> 20" for w :: u64
  using length_dec [of "unat w" 19] unat_less_u64 [of w] by simp

lemma length_dec_s32: "length (dec_int (sint w)) \<le> 11" for w :: s32
proof -
  have "- (2 ^ 31) \<le> sint w" "sint w < 2 ^ 31"
    using sint_greater_eq [of w] sint_less [of w] by simp_all
  then have "length (dec (nat (- sint w))) \<le> 10" "length (dec (nat (sint w))) \<le> 10"
    using length_dec [of "nat (- sint w)" 9] length_dec [of "nat (sint w)" 9] by simp_all
  then show ?thesis by (simp add: dec_int_def)
qed

lemma length_type_name: "length (sample_type_name t) \<le> 7"
  by (simp add: sample_type_name_def)

lemma length_sample_to_line: "length (sample_to_line s) \<le> 109"
proof -
  have "length (dec (unat (seq s))) \<le> 20" "length (dec (unat (timestamp_ns s))) \<le> 20"
    by (rule length_dec_u64)+
  moreover have "length (dec_int (sint (value0 s))) \<le> 11"
    "length (dec_int (sint (value1 s))) \<le> 11" "length (dec_int (sint (value2 s))) \<le> 11"
    by (rule length_dec_s32)+
  ultimately show ?thesis
    using length_type_name [of "stype s"] by (simp add: sample_to_line_def)
qed

section \<open>The log file\<close>

record log_state =
  path :: string
  rotate_bytes :: u64
  is_open :: bool
  stream_good :: bool
  current_bytes :: u64
  files :: "string \<Rightarrow> string option"

record log_answers =
  mkdir_err :: "string option"
  stat_err :: "string option"
  open_app_ok :: bool
  remove_ok :: bool
  rename_ok :: bool
  open_trunc_ok :: bool
  written :: nat

definition new_log_writer :: "string \<Rightarrow> u64 \<Rightarrow> (string \<Rightarrow> string option) \<Rightarrow> log_state" where
  "new_log_writer p limit fs = \<lparr>path = p, rotate_bytes = limit, is_open = False,
     stream_good = False, current_bytes = 0, files = fs\<rparr>"

definition has_parent_path :: "string \<Rightarrow> bool" where
  "has_parent_path p \<longleftrightarrow> CHR ''/'' \<in> set p"

definition open_if_needed :: "log_answers \<Rightarrow> log_state \<Rightarrow> unit result \<times> log_state" where
  "open_if_needed ans st =
     (if is_open st then (Inr (), st)
      else if has_parent_path (path st) \<and> mkdir_err ans \<noteq> None
      then (Inl (Filesystem_error (the (mkdir_err ans))), st)
      else if stat_err ans \<noteq> None
      then (Inl (Filesystem_error (the (stat_err ans))), st)
      else
        let st1 = st\<lparr>current_bytes :=
                      (case files st (path st) of Some c \<Rightarrow> word_of_nat (length c) | None \<Rightarrow> 0)\<rparr>
        in if open_app_ok ans
           then (Inr (), st1\<lparr>is_open := True, stream_good := True,
                   files := (files st)(path st \<mapsto>
                      (case files st (path st) of Some c \<Rightarrow> c | None \<Rightarrow> []))\<rparr>)
           else (Inl (Runtime_error (''cannot open log file: '' @ path st)), st1))"

definition rotated_path :: "log_state \<Rightarrow> string" where
  "rotated_path st = path st @ ''.1''"

definition rotate_if_needed :: "log_answers \<Rightarrow> log_state \<Rightarrow> unit result \<times> log_state" where
  "rotate_if_needed ans st =
     (if rotate_bytes st = 0 \<or> current_bytes st < rotate_bytes st then (Inr (), st)
      else
        let rotated = rotated_path st;
            fs1 = (if remove_ok ans then (files st)(rotated := None) else files st);
            fs2 = (case fs1 (path st) of
                     Some c \<Rightarrow> if rename_ok ans then fs1(rotated \<mapsto> c, path st := None) else fs1
                   | None \<Rightarrow> fs1);
            st1 = st\<lparr>is_open := False, current_bytes := 0, files := fs2\<rparr>
        in if open_trunc_ok ans
           then (Inr (), st1\<lparr>is_open := True, stream_good := True, files := fs2(path st \<mapsto> [])\<rparr>)
           else (Inl (Runtime_error (''cannot reopen log file after rotation: '' @ path st)), st1))"

definition append_line :: "log_answers \<Rightarrow> string \<Rightarrow> log_state \<Rightarrow> log_state" where
  "append_line ans line st =
     (let text = line @ [nl];
          old = (case files st (path st) of Some c \<Rightarrow> c | None \<Rightarrow> []);
          st1 = (if stream_good st
                 then st\<lparr>files := (files st)(path st \<mapsto> old @ take (written ans) text),
                         stream_good := length text \<le> written ans\<rparr>
                 else st)
      in st1\<lparr>current_bytes := current_bytes st + (word_of_nat (length line) + 1)\<rparr>)"

definition write_sample :: "log_answers \<Rightarrow> sensorhub_sample \<Rightarrow> log_state \<Rightarrow> unit result \<times> log_state" where
  "write_sample ans sample st =
     (case open_if_needed ans st of
        (Inl e, st1) \<Rightarrow> (Inl e, st1)
      | (Inr _, st1) \<Rightarrow>
          (case rotate_if_needed ans st1 of
             (Inl e, st2) \<Rightarrow> (Inl e, st2)
           | (Inr _, st2) \<Rightarrow> (Inr (), append_line ans (sample_to_line sample) st2)))"

section \<open>The byte counter is the size of the file\<close>

definition log_inv :: "log_state \<Rightarrow> bool" where
  "log_inv st \<longleftrightarrow> (is_open st \<and> stream_good st \<longrightarrow>
     (\<exists>c. files st (path st) = Some c \<and> current_bytes st = word_of_nat (length c)))"

lemma rotated_neq_path [simp]: "rotated_path st \<noteq> path st" "path st \<noteq> rotated_path st"
  by (auto simp: rotated_path_def)

lemma log_inv_new [inv_intros]: "log_inv (new_log_writer p r fs)"
  by (simp add: log_inv_def new_log_writer_def)

lemma open_if_needed_inv [inv_intros]: "log_inv st \<Longrightarrow> log_inv (snd (open_if_needed ans st))"
  by (auto simp: log_inv_def open_if_needed_def Let_def split: option.splits)

lemma rotate_if_needed_inv [inv_intros]: "log_inv st \<Longrightarrow> log_inv (snd (rotate_if_needed ans st))"
  by (auto simp: log_inv_def rotate_if_needed_def Let_def split: option.splits)

lemma append_line_inv [inv_intros]: "is_open st \<Longrightarrow> log_inv st \<Longrightarrow> log_inv (append_line ans l st)"
  by (auto simp: log_inv_def append_line_def Let_def split: option.splits)

lemma open_if_needed_frame [simp]:
  "path (snd (open_if_needed ans st)) = path st"
  "rotate_bytes (snd (open_if_needed ans st)) = rotate_bytes st"
  by (simp_all add: open_if_needed_def Let_def)

lemma rotate_if_needed_frame [simp]:
  "path (snd (rotate_if_needed ans st)) = path st"
  "rotate_bytes (snd (rotate_if_needed ans st)) = rotate_bytes st"
  by (simp_all add: rotate_if_needed_def Let_def)

lemma append_line_frame [simp]:
  "path (append_line ans l st) = path st" "rotate_bytes (append_line ans l st) = rotate_bytes st"
  "is_open (append_line ans l st) = is_open st"
  by (simp_all add: append_line_def Let_def)

lemma open_if_needed_opens:
  "fst (open_if_needed ans st) = Inr () \<Longrightarrow> is_open (snd (open_if_needed ans st))"
  by (auto simp: open_if_needed_def Let_def split: if_splits)

lemma rotate_if_needed_opens:
  "fst (rotate_if_needed ans st) = Inr () \<Longrightarrow> is_open st \<Longrightarrow> is_open (snd (rotate_if_needed ans st))"
  by (auto simp: rotate_if_needed_def Let_def split: if_splits)

lemma write_sample_ok_iff:
  "write_sample ans s st = (Inr (), st') \<longleftrightarrow>
     (\<exists>st1 st2. open_if_needed ans st = (Inr (), st1) \<and> rotate_if_needed ans st1 = (Inr (), st2) \<and>
        st' = append_line ans (sample_to_line s) st2)"
  by (auto simp: write_sample_def split: prod.splits sum.splits)

lemma write_sample_frame [simp]:
  "path (snd (write_sample ans s st)) = path st"
  "rotate_bytes (snd (write_sample ans s st)) = rotate_bytes st"
proof -
  obtain r1 st1 where o: "open_if_needed ans st = (r1, st1)" by fastforce
  obtain r2 st2 where r: "rotate_if_needed ans st1 = (r2, st2)" by fastforce
  have "path st1 = path st" "rotate_bytes st1 = rotate_bytes st"
    using open_if_needed_frame [of ans st] by (simp_all add: o)
  moreover have "path st2 = path st1" "rotate_bytes st2 = rotate_bytes st1"
    using rotate_if_needed_frame [of ans st1] by (simp_all add: r)
  ultimately show "path (snd (write_sample ans s st)) = path st"
    "rotate_bytes (snd (write_sample ans s st)) = rotate_bytes st"
    by (simp_all add: write_sample_def o r split: sum.splits)
qed

lemma write_sample_inv [inv_intros]: "log_inv st \<Longrightarrow> log_inv (snd (write_sample ans s st))"
proof -
  assume inv: "log_inv st"
  obtain r1 st1 where o: "open_if_needed ans st = (r1, st1)" by fastforce
  obtain r2 st2 where r: "rotate_if_needed ans st1 = (r2, st2)" by fastforce
  have i1: "log_inv st1" using open_if_needed_inv [OF inv, of ans] by (simp add: o)
  have i2: "log_inv st2" using rotate_if_needed_inv [OF i1, of ans] by (simp add: r)
  have "is_open st2" if "r1 = Inr ()" "r2 = Inr ()"
    using open_if_needed_opens [of ans st] rotate_if_needed_opens [of ans st1] that
    by (simp add: o r)
  with i1 i2 show ?thesis
    by (auto simp: write_sample_def o r split: sum.splits intro: append_line_inv)
qed

section \<open>Writing with a healthy file system\<close>

definition content :: "log_state \<Rightarrow> string" where
  "content st = (case files st (path st) of Some c \<Rightarrow> c | None \<Rightarrow> [])"

definition archived :: "log_state \<Rightarrow> string" where
  "archived st = (case files st (rotated_path st) of Some c \<Rightarrow> c | None \<Rightarrow> [])"

definition healthy :: "log_answers \<Rightarrow> bool" where
  "healthy ans \<longleftrightarrow> mkdir_err ans = None \<and> stat_err ans = None \<and> open_app_ok ans \<and>
     rename_ok ans \<and> open_trunc_ok ans \<and> 110 \<le> written ans"

definition ready_stream :: "log_state \<Rightarrow> bool" where
  "ready_stream st \<longleftrightarrow> log_inv st \<and> (is_open st \<longrightarrow> stream_good st)"

lemma ready_new: "ready_stream (new_log_writer p limit fs)"
  by (simp add: ready_stream_def log_inv_new) (simp add: new_log_writer_def)

definition rotation_due :: "log_state \<Rightarrow> bool" where
  "rotation_due st \<longleftrightarrow> rotate_bytes st \<noteq> 0 \<and> rotate_bytes st \<le> word_of_nat (length (content st))"

definition line_text :: "sensorhub_sample \<Rightarrow> string" where
  "line_text s = sample_to_line s @ [nl]"

lemma length_line_text: "length (line_text s) \<le> 110"
  using length_sample_to_line [of s] by (simp add: line_text_def)

lemma open_healthy:
  assumes "healthy ans" and "ready_stream st"
  obtains st1 where "open_if_needed ans st = (Inr (), st1)" "is_open st1" "stream_good st1"
    "files st1 (path st1) = Some (content st)" "archived st1 = archived st"
    "current_bytes st1 = word_of_nat (length (content st))"
    "path st1 = path st" "rotate_bytes st1 = rotate_bytes st"
proof (cases "is_open st")
  case True
  with assms(2) obtain c where "files st (path st) = Some c" "current_bytes st = word_of_nat (length c)"
    by (auto simp: ready_stream_def log_inv_def)
  with True assms(2) show ?thesis
    by (intro that [of st]) (simp_all add: open_if_needed_def content_def ready_stream_def)
next
  case False
  then show ?thesis
    using assms(1)
    by (intro that [of "snd (open_if_needed ans st)"]) (auto simp: open_if_needed_def healthy_def content_def archived_def
        rotated_path_def Let_def split: option.splits)
qed

lemma rotate_healthy:
  assumes "healthy ans" "is_open st" "stream_good st" "files st (path st) = Some c"
    "current_bytes st = word_of_nat (length c)"
  obtains st2 where "rotate_if_needed ans st = (Inr (), st2)" "is_open st2" "stream_good st2"
    "content st2 = (if rotation_due st then [] else c)"
    "archived st2 = (if rotation_due st then c else archived st)"
    "files st2 (path st2) \<noteq> None"
    "current_bytes st2 = word_of_nat (length (content st2))"
    "path st2 = path st" "rotate_bytes st2 = rotate_bytes st"
proof (cases "rotation_due st")
  case False
  with assms have "rotate_if_needed ans st = (Inr (), st)"
    by (auto simp: rotation_due_def rotate_if_needed_def content_def not_le)
  with False assms show ?thesis
    by (intro that [of st]) (simp_all add: content_def)
next
  case True
  with assms have "\<not> (rotate_bytes st = 0 \<or> current_bytes st < rotate_bytes st)"
    by (auto simp: rotation_due_def content_def)
  with True assms show ?thesis
    by (intro that [of "snd (rotate_if_needed ans st)"]) (auto simp: rotate_if_needed_def healthy_def content_def archived_def
        rotated_path_def Let_def)
qed

lemma append_healthy:
  assumes "healthy ans" "stream_good st"
  shows "stream_good (append_line ans (sample_to_line s) st)"
    and "content (append_line ans (sample_to_line s) st) = content st @ line_text s"
    and "archived (append_line ans (sample_to_line s) st) = archived st"
  using assms length_sample_to_line [of s]
  by (auto simp: append_line_def healthy_def content_def archived_def line_text_def
      rotated_path_def Let_def)

lemma rotation_due_cong:
  "rotate_bytes st = rotate_bytes st' \<Longrightarrow> content st = content st' \<Longrightarrow> rotation_due st = rotation_due st'"
  by (simp add: rotation_due_def)

lemma write_sample_healthy:
  assumes "healthy ans" and "ready_stream st"
  obtains st' where "write_sample ans s st = (Inr (), st')" "ready_stream st'"
    "content st' = (if rotation_due st then [] else content st) @ line_text s"
    "archived st' = (if rotation_due st then content st else archived st)"
    "rotate_bytes st' = rotate_bytes st" "is_open st'" "stream_good st'"
proof -
  obtain st1 where 1: "open_if_needed ans st = (Inr (), st1)" "is_open st1" "stream_good st1"
    "files st1 (path st1) = Some (content st)" "archived st1 = archived st"
    "current_bytes st1 = word_of_nat (length (content st))"
    "path st1 = path st" "rotate_bytes st1 = rotate_bytes st"
    by (rule open_healthy [OF assms])
  obtain st2 where 2: "rotate_if_needed ans st1 = (Inr (), st2)" "is_open st2" "stream_good st2"
    "content st2 = (if rotation_due st1 then [] else content st)"
    "archived st2 = (if rotation_due st1 then content st else archived st1)"
    "path st2 = path st1" "rotate_bytes st2 = rotate_bytes st1"
    by (rule rotate_healthy [OF assms(1) 1(2,3,4,6)])
  define st' where "st' = append_line ans (sample_to_line s) st2"
  have w: "write_sample ans s st = (Inr (), st')"
    using 1(1) 2(1) by (auto simp: write_sample_ok_iff st'_def)
  have "log_inv st'"
    using write_sample_inv [of st ans s] assms(2) by (simp add: w ready_stream_def)
  moreover have good: "stream_good st'"
    unfolding st'_def by (rule append_healthy(1) [OF assms(1) 2(3)])
  ultimately have ready: "ready_stream st'" by (simp add: ready_stream_def)
  have due: "rotation_due st1 = rotation_due st"
    using 1(4,8) by (intro rotation_due_cong) (simp_all add: content_def)
  show ?thesis
    using 1 2 good by (intro that [OF w ready])
      (simp_all add: due append_healthy [OF assms(1)] st'_def)
qed

text \<open>A write that throws appends nothing: the text of the log is still there, in place or as the archive.\<close>

lemma write_sample_fails:
  assumes "write_sample ans s st = (Inl e, st')"
  shows "content st' = content st \<or> archived st' = content st"
proof (cases "fst (open_if_needed ans st)")
  case (Inl e1)
  with assms have "open_if_needed ans st = (Inl e1, st')"
    by (cases "open_if_needed ans st") (auto simp: write_sample_def)
  then have "files st' = files st" "path st' = path st" by (auto simp: open_if_needed_def Let_def split: if_splits)
  then show ?thesis by (simp add: content_def)
next
  case (Inr u)
  then obtain st1 where st1: "open_if_needed ans st = (Inr (), st1)" by (cases "open_if_needed ans st") auto
  with assms have "rotate_if_needed ans st1 = (Inl e, st')"
    by (auto simp: write_sample_def split: prod.splits sum.splits)
  moreover from st1 have "content st1 = content st"
    by (auto simp: open_if_needed_def content_def Let_def split: if_splits option.splits)
  ultimately show ?thesis
    by (auto simp: rotate_if_needed_def content_def archived_def rotated_path_def Let_def split: if_splits option.splits)
qed

section \<open>Runs of the log writer\<close>

fun write_all :: "(log_answers \<times> sensorhub_sample) list \<Rightarrow> log_state \<Rightarrow> unit result \<times> log_state" where
  "write_all [] st = (Inr (), st)"
| "write_all ((ans, s) # rest) st =
     (case write_sample ans s st of
        (Inl e, st') \<Rightarrow> (Inl e, st')
      | (Inr _, st') \<Rightarrow> write_all rest st')"

text \<open>
  Specification: the two files as pairs of texts, archive and log. A line goes to the end of the log; if the
  log has reached the limit before, it becomes the archive first. (The size is compared as a 64-bit number.)
\<close>

fun log_after :: "u64 \<Rightarrow> sensorhub_sample list \<Rightarrow> string \<times> string \<Rightarrow> string \<times> string" where
  "log_after limit [] (a, c) = (a, c)"
| "log_after limit (s # ss) (a, c) =
     log_after limit ss
       (if limit \<noteq> 0 \<and> limit \<le> word_of_nat (length c) then (c, line_text s) else (a, c @ line_text s))"

definition log_texts :: "log_state \<Rightarrow> string \<times> string" where
  "log_texts st = (archived st, content st)"

lemma write_all_healthy:
  assumes "\<forall>(ans, s) \<in> set ws. healthy ans" and "ready_stream st"
  shows "\<exists>st'. write_all ws st = (Inr (), st') \<and> ready_stream st' \<and> rotate_bytes st' = rotate_bytes st \<and>
    log_texts st' = log_after (rotate_bytes st) (map snd ws) (log_texts st)"
  using assms
proof (induction ws arbitrary: st)
  case Nil
  then show ?case by (simp add: log_texts_def)
next
  case (Cons w ws)
  obtain ans s where w: "w = (ans, s)" by fastforce
  have h: "healthy ans" using Cons.prems(1) by (simp add: w)
  obtain st1 where st1: "write_sample ans s st = (Inr (), st1)" "ready_stream st1"
    "content st1 = (if rotation_due st then [] else content st) @ line_text s"
    "archived st1 = (if rotation_due st then content st else archived st)"
    "rotate_bytes st1 = rotate_bytes st"
    by (rule write_sample_healthy [OF h Cons.prems(2)])
  have "\<forall>(ans, s) \<in> set ws. healthy ans" using Cons.prems(1) by simp
  from Cons.IH [OF this st1(2)] obtain st' where
    "write_all ws st1 = (Inr (), st')" "ready_stream st'" "rotate_bytes st' = rotate_bytes st"
    "log_texts st' = log_after (rotate_bytes st) (map snd ws) (log_texts st1)" using st1(5) by auto
  then show ?case using st1(1,3,4) by (simp add: w log_texts_def rotation_due_def)
qed

lemma log_after_unlimited: "log_after 0 ss (a, c) = (a, c @ concat (map line_text ss))"
  by (induction ss arbitrary: c) simp_all

text \<open>The two texts are the end of the history, and what is missing is paid for by a full archive.\<close>

lemma log_after_history:
  "log_after limit ss (a, c) = (a', c') \<Longrightarrow>
     \<exists>gone. a @ c @ concat (map line_text ss) = gone @ a' @ c' \<and>
       (gone = [] \<or> limit \<noteq> 0 \<and> unat limit \<le> length a') \<and> (unat limit \<le> length a \<longrightarrow> unat limit \<le> length a')"
proof (induction limit ss "(a, c)" arbitrary: a c rule: log_after.induct)
  case (2 limit s ss a c)
  show ?case
  proof (cases "limit \<noteq> 0 \<and> limit \<le> word_of_nat (length c)")
    case True
    have "unat (word_of_nat (length c) :: u64) \<le> length c" by (simp add: unsigned_of_nat)
    with True have len: "unat limit \<le> length c" by (simp add: word_le_nat_alt)
    from True "2.prems" have "log_after limit ss (c, line_text s) = (a', c')" by simp
    with 2(1) [OF if_P [OF True]] obtain gone where
      "c @ line_text s @ concat (map line_text ss) = gone @ a' @ c'" "unat limit \<le> length a'" using len by auto
    with True show ?thesis by (intro exI [of _ "a @ gone"]) simp
  next
    case False
    then have "log_after limit ss (a, c @ line_text s) = (a', c')" using "2.prems" by (auto simp: if_not_P)
    with 2(1) [OF if_not_P [OF False]] show ?thesis by auto
  qed
qed auto

lemma write_sample_bound:
  assumes "healthy ans" "ready_stream st" "rotate_bytes st \<noteq> 0" "length (content st) < 2 ^ 64"
    and w: "write_sample ans s st = (r, st')"
  shows "length (content st') < unat (rotate_bytes st) + 110"
proof -
  have "length (content st) < unat (rotate_bytes st)" if "\<not> rotation_due st"
    using that assms(3,4)
    by (simp add: rotation_due_def not_le word_less_nat_alt unat_of_nat)
  moreover have "0 < unat (rotate_bytes st)" using assms(3) by (simp add: unat_gt_0)
  moreover have "content st' = (if rotation_due st then [] else content st) @ line_text s"
    by (rule write_sample_healthy [OF assms(1,2), of s]) (use w in simp)
  ultimately show ?thesis
    using length_line_text [of s] by (cases "rotation_due st") simp_all
qed

lemma write_all_bound:
  assumes "\<forall>(ans, s) \<in> set ws. healthy ans" "ready_stream st" "ws \<noteq> []"
    "rotate_bytes st \<noteq> 0" "unat (rotate_bytes st) \<le> 2 ^ 63" "length (content st) < 2 ^ 64"
  shows "length (content (snd (write_all ws st))) < unat (rotate_bytes st) + 110"
  using assms
proof (induction ws arbitrary: st)
  case Nil
  then show ?case by simp
next
  case (Cons w ws)
  obtain ans s where w: "w = (ans, s)" by fastforce
  have h: "healthy ans" using Cons.prems(1) by (simp add: w)
  obtain st1 where st1: "write_sample ans s st = (Inr (), st1)" "ready_stream st1"
    "rotate_bytes st1 = rotate_bytes st"
    by (rule write_sample_healthy [OF h Cons.prems(2)])
  have b: "length (content st1) < unat (rotate_bytes st) + 110"
    using write_sample_bound [OF h Cons.prems(2,4,6) st1(1)] .
  show ?case
  proof (cases "ws = []")
    case True
    with b st1 w show ?thesis by simp
  next
    case False
    have "length (content st1) < 2 ^ 64" using b Cons.prems(5) by simp
    with Cons.IH [of st1] False st1 Cons.prems show ?thesis by (simp add: w)
  qed
qed

section \<open>Properties\<close>

fun write_any :: "(log_answers \<times> sensorhub_sample) list \<Rightarrow> log_state \<Rightarrow> log_state" where
  "write_any [] st = st"
| "write_any ((ans, s) # rest) st = write_any rest (snd (write_sample ans s st))"

lemma write_any_inv [inv_intros]: "log_inv st \<Longrightarrow> log_inv (write_any ws st)"
  by (induction ws st rule: write_any.induct) (auto intro: inv_intros)

lemma write_any_path [simp]: "path (write_any ws st) = path st"
  by (induction ws st rule: write_any.induct) simp_all

text \<open>
  Byte counter. Whatever fails on the way (directories, opens, renames, short writes),
  as long as the stream is open and in a good state the counter that decides about rotation is the
  size of the log file.
\<close>

theorem log_counter_exact:
  assumes "is_open (write_any ws (new_log_writer p limit fs))"
    and "stream_good (write_any ws (new_log_writer p limit fs))"
  shows "\<exists>c. files (write_any ws (new_log_writer p limit fs)) p = Some c \<and>
    current_bytes (write_any ws (new_log_writer p limit fs)) = word_of_nat (length c)"
  using write_any_inv [OF log_inv_new, of ws p limit fs] assms
  by (auto simp: log_inv_def) (simp add: new_log_writer_def)

definition good_answers :: log_answers where
  "good_answers = \<lparr>mkdir_err = None, stat_err = None, open_app_ok = True, remove_ok = True,
     rename_ok = True, open_trunc_ok = True, written = 110\<rparr>"

lemma healthy_good [simp]: "healthy good_answers"
  by (simp add: healthy_def good_answers_def)

lemma write_good:
  assumes "ready_stream st"
  shows "is_open (snd (write_sample good_answers s st)) \<and>
    stream_good (snd (write_sample good_answers s st))"
  by (rule write_sample_healthy [OF healthy_good assms, of s]) simp

theorem log_counter_exact_witness:
  "\<exists>c. files (write_any [(good_answers, zero_sample)] (new_log_writer ''l'' 0 Map.empty)) ''l'' = Some c \<and>
    current_bytes (write_any [(good_answers, zero_sample)] (new_log_writer ''l'' 0 Map.empty)) =
      word_of_nat (length c)"
  using write_good [OF ready_new, of zero_sample] by (intro log_counter_exact) simp_all

text \<open>
  Property C20 (the log files and their rotation). On a healthy file system every write succeeds, and the archive and the log
  hold exactly what the specification \<open>log_after\<close> says: each line is appended to the log, and a log that has reached the limit
  becomes the archive first. Hence the archive followed by the log is the end of the complete
  history (what the files held at the start, then one line per sample in order), nothing is lost without
  rotation, and once something is lost the archive holds at least as many bytes as the limit.
\<close>

theorem log_history_kept:
  assumes "\<forall>(ans, s) \<in> set ws. healthy ans" and "w0 = new_log_writer p limit fs"
  shows "\<exists>st gone. write_all ws w0 = (Inr (), st) \<and>
    log_texts st = log_after limit (map snd ws) (log_texts w0) \<and>
    archived w0 @ content w0 @ concat (map (\<lambda>w. sample_to_line (snd w) @ [nl]) ws) = gone @ archived st @ content st \<and>
    (gone = [] \<or> limit \<noteq> 0 \<and> unat limit \<le> length (archived st))"
proof -
  have "ready_stream w0" "rotate_bytes w0 = limit" unfolding assms(2) by (rule ready_new) (simp add: new_log_writer_def)
  with write_all_healthy [OF assms(1), of w0] obtain st where st: "write_all ws w0 = (Inr (), st)"
    "log_texts st = log_after limit (map snd ws) (log_texts w0)" by auto
  have "concat (map line_text (map snd ws)) = concat (map (\<lambda>w. sample_to_line (snd w) @ [nl]) ws)"
    by (simp add: line_text_def comp_def)
  with log_after_history [of limit "map snd ws" "archived w0" "content w0" "archived st" "content st"] st show ?thesis
    by (auto simp: log_texts_def simp del: map_map)
qed

text \<open>A log of three bytes with limit 2 is rotated before the line is written.\<close>

theorem log_history_kept_witness:
  "\<exists>st. write_all [(good_answers, zero_sample)] (new_log_writer ''l'' 2 [''l'' \<mapsto> ''old'', ''l.1'' \<mapsto> ''older'']) = (Inr (), st) \<and>
    archived st = ''old'' \<and> content st = sample_to_line zero_sample @ [nl]"
proof -
  let ?w = "new_log_writer ''l'' 2 [''l'' \<mapsto> ''old'', ''l.1'' \<mapsto> ''older'']"
  have "log_texts ?w = (''older'', ''old'')"
    by (simp add: log_texts_def archived_def content_def new_log_writer_def rotated_path_def)
  then show ?thesis
    using log_history_kept [OF _ refl, of "[(good_answers, zero_sample)]" "''l''" 2 "[''l'' \<mapsto> ''old'', ''l.1'' \<mapsto> ''older'']"]
    by (auto simp: log_texts_def line_text_def)
qed

text \<open>
  Property C21 (bounded log file). With rotation enabled, after any write the log file is less than
  110 bytes longer than the configured limit: one line, at most 109 characters and its line break.
\<close>

theorem log_size_bounded:
  assumes "\<forall>(ans, s) \<in> set ws. healthy ans" and "ws \<noteq> []"
    and "limit \<noteq> 0" and "unat limit \<le> 2 ^ 63"
    and "length (content (new_log_writer p limit fs)) < 2 ^ 64"
  shows "length (content (snd (write_all ws (new_log_writer p limit fs)))) < unat limit + 110"
proof -
  from write_all_bound [OF assms(1) ready_new assms(2)] assms(3,4,5) show ?thesis
    by (simp add: new_log_writer_def)
qed

theorem log_size_bounded_witness:
  "length (content (snd (write_all [(good_answers, zero_sample)] (new_log_writer ''l'' 80 Map.empty)))) < 190"
  using log_size_bounded [of "[(good_answers, zero_sample)]" 80 "''l''" Map.empty]
  by (simp add: content_def new_log_writer_def)

text \<open>
  Failed rename. When a rotation is due and the rename fails, the log file is still
  truncated: afterwards it holds the new line only, and the archive is what it was (or gone). The
  old contents of the log are in neither file.
\<close>

theorem log_rename_failure_loses:
  assumes "is_open st" "stream_good st" "log_inv st" "rotation_due st"
    and "\<not> rename_ok ans" "open_trunc_ok ans" "110 \<le> written ans"
  shows "\<exists>st'. write_sample ans s st = (Inr (), st') \<and> files st' (path st) = Some (sample_to_line s @ [nl]) \<and>
    files st' (rotated_path st) = (if remove_ok ans then None else files st (rotated_path st))"
proof -
  obtain c where c: "files st (path st) = Some c" "current_bytes st = word_of_nat (length c)"
    using assms(1-3) by (auto simp: log_inv_def)
  have due: "\<not> (rotate_bytes st = 0 \<or> current_bytes st < rotate_bytes st)"
    using assms(4) c by (auto simp: rotation_due_def content_def)
  have "open_if_needed ans st = (Inr (), st)" using assms(1) by (simp add: open_if_needed_def)
  with assms due c length_sample_to_line [of s] show ?thesis
    by (auto simp: write_sample_def rotate_if_needed_def append_line_def rotated_path_def Let_def)
qed

definition full_log :: log_state where
  "full_log = \<lparr>path = ''l'', rotate_bytes = 2, is_open = True, stream_good = True, current_bytes = 3,
     files = [''l'' \<mapsto> ''old'']\<rparr>"

theorem log_rename_failure_loses_witness:
  "\<exists>st'. write_sample (good_answers\<lparr>rename_ok := False\<rparr>) zero_sample full_log = (Inr (), st') \<and>
    files st' ''l'' = Some (sample_to_line zero_sample @ [nl]) \<and> files st' ''l.1'' = None"
  using log_rename_failure_loses [of full_log "good_answers\<lparr>rename_ok := False\<rparr>" zero_sample]
  by (simp add: full_log_def good_answers_def log_inv_def rotation_due_def content_def rotated_path_def)

text \<open>
  Property C36 (faithful text). The text line of a sample has no line break and at most 109 characters, and it determines every
  field of the sample, with one exception: types that the interface does not define are all printed as
  \<open>unknown\<close>. Distinct samples of the defined types are distinct lines in the log and on the network.
\<close>

theorem sample_line_faithful:
  "(sample_to_line a = sample_to_line b \<longleftrightarrow>
      a = b \<or> \<not> known_type (stype a) \<and> \<not> known_type (stype b) \<and> a = b\<lparr>stype := stype a\<rparr>) \<and>
   nl \<notin> set (sample_to_line a) \<and> length (sample_to_line a) \<le> 109"
proof -
  have "sample_type_name (stype a) = sample_type_name (stype b) \<longleftrightarrow>
      stype a = stype b \<or> \<not> known_type (stype a) \<and> \<not> known_type (stype b)"
    by (auto simp: known_type_def sample_type_name_def sample_type_defs)
  then have "sample_to_line a = sample_to_line b \<longleftrightarrow>
      a = b \<or> \<not> known_type (stype a) \<and> \<not> known_type (stype b) \<and> a = b\<lparr>stype := stype a\<rparr>"
    unfolding sample_to_line_inject by (cases a, cases b) auto
  with sample_to_line_no_nl length_sample_to_line show ?thesis by blast
qed

theorem sample_line_faithful_witness:
  "sample_to_line (zero_sample\<lparr>stype := 1\<rparr>) \<noteq> sample_to_line (zero_sample\<lparr>stype := 1, value0 := - 1\<rparr>) \<and>
   sample_to_line (zero_sample\<lparr>stype := 8\<rparr>) = sample_to_line (zero_sample\<lparr>stype := 9\<rparr>)"
  using sample_line_faithful [of "zero_sample\<lparr>stype := 1\<rparr>" "zero_sample\<lparr>stype := 1, value0 := - 1\<rparr>"]
    sample_line_faithful [of "zero_sample\<lparr>stype := 8\<rparr>" "zero_sample\<lparr>stype := 9\<rparr>"]
  by (simp add: known_type_def sample_type_defs zero_sample_def)

end
