(* ===== verification/Tcp_Broadcaster.thy ===== *)
theory Tcp_Broadcaster
  imports Cpp_Std "HOL-Library.Sublist"
begin

text \<open>
  The TCP fan-out, \<open>userspace/src/net/tcp_broadcaster.cpp\<close> with its header. \<open>tcp_clients\<close> is the
  vector of client descriptors. Two components record what the operating system sees: \<open>tcp_wire\<close>
  the bytes that \<open>send\<close> accepted on a descriptor since its connection was accepted, \<open>tcp_closed\<close>
  the descriptors that the program closed, in order.

  The mutex makes \<open>broadcast_line\<close> and the insertion of a client atomic. A broadcast sends once to
  each client, so the answers of one broadcast are a function of the descriptor.
\<close>

section \<open>State and operations\<close>

record tcp_broadcaster =
  listen_fd :: fd
  tcp_clients :: "fd list"
  tcp_wire :: "fd \<Rightarrow> string"
  tcp_closed :: "fd list"

definition new_tcp_broadcaster :: tcp_broadcaster where
  "new_tcp_broadcaster = \<lparr>listen_fd = -1, tcp_clients = [], tcp_wire = (\<lambda>_. []), tcp_closed = []\<rparr>"

record listen_answers =
  socket_res :: "errno + fd"
  bind_err :: "errno option"
  listen_err :: "errno option"

definition close_fd :: "fd \<Rightarrow> tcp_broadcaster \<Rightarrow> tcp_broadcaster" where
  "close_fd f s = s\<lparr>tcp_closed := tcp_closed s @ [f]\<rparr>"

definition listen_on :: "listen_answers \<Rightarrow> u16 \<Rightarrow> tcp_broadcaster \<Rightarrow> unit result \<times> tcp_broadcaster" where
  "listen_on ans port s =
     (case socket_res ans of
        Inl e \<Rightarrow> (Inl (Sys_error ''socket TCP'' e), s)
      | Inr f \<Rightarrow>
          (case bind_err ans of
             Some e \<Rightarrow> (Inl (Sys_error ''bind TCP'' e), close_fd f s)
           | None \<Rightarrow>
               (case listen_err ans of
                  Some e \<Rightarrow> (Inl (Sys_error ''listen TCP'' e), close_fd f s)
                | None \<Rightarrow> (Inr (), (if 0 \<le> listen_fd s then close_fd (listen_fd s) s else s)\<lparr>listen_fd := f\<rparr>))))"

text \<open>Answers of successive \<open>accept4\<close> calls: an error or a new descriptor.\<close>

definition accept_failed :: "errno \<Rightarrow> unit result" where
  "accept_failed e = (if e = EAGAIN then Inr () else Inl (Sys_error ''accept TCP client'' e))"

definition add_subscriber :: "fd \<Rightarrow> tcp_broadcaster \<Rightarrow> tcp_broadcaster" where
  "add_subscriber f s = s\<lparr>tcp_clients := tcp_clients s @ [f], tcp_wire := (tcp_wire s)(f := [])\<rparr>"

lemma accept_failed_simps [simp]:
  "accept_failed EAGAIN = Inr ()" "e \<noteq> EAGAIN \<Longrightarrow> accept_failed e = Inl (Sys_error ''accept TCP client'' e)"
  by (simp_all add: accept_failed_def)

lemma add_subscriber_simps [simp]:
  "tcp_clients (add_subscriber f s) = tcp_clients s @ [f]" "tcp_wire (add_subscriber f s) = (tcp_wire s)(f := [])"
  "listen_fd (add_subscriber f s) = listen_fd s" "tcp_closed (add_subscriber f s) = tcp_closed s"
  by (simp_all add: add_subscriber_def)

fun tcp_accept_ready :: "(errno + fd) list \<Rightarrow> tcp_broadcaster \<Rightarrow> (unit result \<times> tcp_broadcaster) option" where
  "tcp_accept_ready [] s = None"
| "tcp_accept_ready (Inl e # rest) s = Some (accept_failed e, s)"
| "tcp_accept_ready (Inr f # rest) s = tcp_accept_ready rest (add_subscriber f s)"

text \<open>The loop over the clients: the second argument is the part of the vector still to visit.\<close>

fun send_each :: "(fd \<Rightarrow> io_out) \<Rightarrow> fd list \<Rightarrow> string \<Rightarrow> tcp_broadcaster \<Rightarrow> fd list \<times> tcp_broadcaster" where
  "send_each ans [] payload s = ([], s)"
| "send_each ans (f # rest) payload s =
     (case ans f of
        Out_err e \<Rightarrow>
          (if e = EAGAIN
           then (case send_each ans rest payload s of (kept, s') \<Rightarrow> (f # kept, s'))
           else send_each ans rest payload (close_fd f s))
      | Room k \<Rightarrow>
          (let n = min k (length payload);
               s1 = s\<lparr>tcp_wire := (tcp_wire s)(f := tcp_wire s f @ take n payload)\<rparr>
           in if n \<noteq> length payload then send_each ans rest payload (close_fd f s1)
              else (case send_each ans rest payload s1 of (kept, s') \<Rightarrow> (f # kept, s'))))"

definition broadcast_line :: "(fd \<Rightarrow> io_out) \<Rightarrow> string \<Rightarrow> tcp_broadcaster \<Rightarrow> tcp_broadcaster" where
  "broadcast_line ans line s =
     (case send_each ans (tcp_clients s) (line @ [nl]) s of (kept, s') \<Rightarrow> s'\<lparr>tcp_clients := kept\<rparr>)"

definition client_count :: "tcp_broadcaster \<Rightarrow> nat" where
  "client_count s = length (tcp_clients s)"

section \<open>One broadcast\<close>

text \<open>What one \<open>send\<close> means for a client: it blocks, takes the whole payload, or fails.\<close>

definition would_block :: "io_out \<Rightarrow> bool" where
  "would_block x \<longleftrightarrow> x = Out_err EAGAIN"

definition takes_all :: "string \<Rightarrow> io_out \<Rightarrow> bool" where
  "takes_all payload x \<longleftrightarrow> (case x of Room k \<Rightarrow> length payload \<le> k | Out_err e \<Rightarrow> False)"

definition stays :: "string \<Rightarrow> io_out \<Rightarrow> bool" where
  "stays payload x \<longleftrightarrow> would_block x \<or> takes_all payload x"

definition taken :: "string \<Rightarrow> io_out \<Rightarrow> string" where
  "taken payload x = (case x of Room k \<Rightarrow> take k payload | Out_err e \<Rightarrow> [])"

lemmas send_defs = would_block_def takes_all_def stays_def taken_def

lemma taken_stays: "stays p x \<Longrightarrow> taken p x = (if takes_all p x then p else [])"
  by (auto simp: send_defs split: io_out.splits)

lemma send_each_spec:
  "distinct fs \<Longrightarrow>
     send_each ans fs p s =
       (filter (\<lambda>f. stays p (ans f)) fs,
        s\<lparr>tcp_wire := (\<lambda>f. if f \<in> set fs then tcp_wire s f @ taken p (ans f) else tcp_wire s f),
          tcp_closed := tcp_closed s @ filter (\<lambda>f. \<not> stays p (ans f)) fs\<rparr>)"
proof (induction fs arbitrary: s)
  case Nil
  then show ?case by simp
next
  case (Cons f fs)
  show ?case
  proof (cases "ans f")
    case (Room k)
    have "take (min k (length p)) p = take k p" by (simp add: min_def)
    with Cons Room show ?thesis
      by (auto simp: send_defs close_fd_def Let_def fun_eq_iff min_def not_le)
  next
    case (Out_err e)
    with Cons show ?thesis by (auto simp: send_defs close_fd_def fun_eq_iff)
  qed
qed

lemma broadcast_line_spec:
  "distinct (tcp_clients s) \<Longrightarrow>
     broadcast_line ans line s = s\<lparr>
       tcp_clients := filter (\<lambda>f. stays (line @ [nl]) (ans f)) (tcp_clients s),
       tcp_wire := (\<lambda>f. if f \<in> set (tcp_clients s) then tcp_wire s f @ taken (line @ [nl]) (ans f)
                         else tcp_wire s f),
       tcp_closed := tcp_closed s @ filter (\<lambda>f. \<not> stays (line @ [nl]) (ans f)) (tcp_clients s)\<rparr>"
  by (simp add: broadcast_line_def send_each_spec)

section \<open>A sequence of broadcasts\<close>

definition broadcast_all :: "((fd \<Rightarrow> io_out) \<times> string) list \<Rightarrow> tcp_broadcaster \<Rightarrow> tcp_broadcaster" where
  "broadcast_all bs s = fold (\<lambda>(ans, line). broadcast_line ans line) bs s"

lemma broadcast_all_Nil [simp]: "broadcast_all [] s = s"
  by (simp add: broadcast_all_def)

lemma broadcast_all_Cons [simp]:
  "broadcast_all ((ans, line) # bs) s = broadcast_all bs (broadcast_line ans line s)"
  by (simp add: broadcast_all_def)

lemma broadcast_line_distinct [inv_intros]:
  "distinct (tcp_clients s) \<Longrightarrow> distinct (tcp_clients (broadcast_line ans line s))"
  by (simp add: broadcast_line_spec)

text \<open>The lines that reached client \<open>f\<close> completely.\<close>

definition lines_for :: "fd \<Rightarrow> ((fd \<Rightarrow> io_out) \<times> string) list \<Rightarrow> string list" where
  "lines_for f bs = map snd (filter (\<lambda>(ans, line). takes_all (line @ [nl]) (ans f)) bs)"

lemma lines_for_Nil [simp]: "lines_for f [] = []"
  by (simp add: lines_for_def)

lemma lines_for_Cons [simp]:
  "lines_for f ((ans, line) # bs) =
     (if takes_all (line @ [nl]) (ans f) then line # lines_for f bs else lines_for f bs)"
  by (simp add: lines_for_def)

lemma unlines_Cons: "unlines (l # ls) = l @ nl # unlines ls"
  by (simp add: unlines_def)

lemma unlines_Nil [simp]: "unlines [] = []"
  by (simp add: unlines_def)

lemma broadcast_all_wire_gone:
  "distinct (tcp_clients s) \<Longrightarrow> f \<notin> set (tcp_clients s) \<Longrightarrow>
     tcp_wire (broadcast_all bs s) f = tcp_wire s f \<and> f \<notin> set (tcp_clients (broadcast_all bs s)) \<and>
     count_list (tcp_closed (broadcast_all bs s)) f = count_list (tcp_closed s) f"
proof (induction bs arbitrary: s)
  case (Cons b bs)
  obtain ans line where b: "b = (ans, line)" by fastforce
  with Cons.IH [of "broadcast_line ans line s"] Cons.prems show ?case
    by (simp add: b broadcast_line_spec count_list_0_iff)
qed simp

lemma broadcast_all_stay:
  "distinct (tcp_clients s) \<Longrightarrow> f \<in> set (tcp_clients s) \<Longrightarrow>
     \<forall>(ans, line) \<in> set bs. stays (line @ [nl]) (ans f) \<Longrightarrow>
     f \<in> set (tcp_clients (broadcast_all bs s)) \<and>
     tcp_wire (broadcast_all bs s) f = tcp_wire s f @ unlines (lines_for f bs) \<and>
     count_list (tcp_closed (broadcast_all bs s)) f = count_list (tcp_closed s) f"
proof (induction bs arbitrary: s)
  case (Cons b bs)
  obtain ans line where b: "b = (ans, line)" by fastforce
  let ?s = "broadcast_line ans line s"
  have st: "stays (line @ [nl]) (ans f)" using Cons.prems(3) b by simp
  then have "f \<in> set (tcp_clients ?s)" "count_list (tcp_closed ?s) f = count_list (tcp_closed s) f"
    "tcp_wire ?s f = tcp_wire s f @ (if takes_all (line @ [nl]) (ans f) then line @ [nl] else [])"
    using Cons.prems by (simp_all add: broadcast_line_spec count_list_0_iff taken_stays)
  with Cons.IH [of ?s] Cons.prems show ?case
    by (simp add: b broadcast_line_distinct unlines_Cons)
qed simp

lemma broadcast_all_append: "broadcast_all (xs @ ys) s = broadcast_all ys (broadcast_all xs s)"
  by (simp add: broadcast_all_def)

lemma broadcast_all_distinct [inv_intros]:
  "distinct (tcp_clients s) \<Longrightarrow> distinct (tcp_clients (broadcast_all bs s))"
  by (induction bs arbitrary: s) (auto simp: broadcast_line_distinct)

lemma takes_all_stays: "takes_all p x \<Longrightarrow> stays p x"
  by (simp add: stays_def)

lemma lines_for_append [simp]: "lines_for f (xs @ ys) = lines_for f xs @ lines_for f ys"
  by (simp add: lines_for_def)

lemma subseq_lines_for: "subseq (lines_for f bs) (map snd bs)"
  unfolding lines_for_def by (intro subseq_map subseq_filter_left)

lemma taken_prefix: "prefix (taken p x) p"
  by (auto simp: taken_def take_is_prefix split: io_out.splits)

section \<open>Accepting clients\<close>

lemma tcp_accept_ready_new:
  "tcp_accept_ready (map Inr fs @ Inl e # rest) s =
     Some ((if e = EAGAIN then Inr () else Inl (Sys_error ''accept TCP client'' e)),
       s\<lparr>tcp_clients := tcp_clients s @ fs,
         tcp_wire := (\<lambda>f. if f \<in> set fs then [] else tcp_wire s f)\<rparr>)"
proof (induction fs arbitrary: s)
  case (Cons f fs)
  then show ?case by (auto simp: fun_eq_iff)
qed simp

section \<open>Properties\<close>

text \<open>
  Property C19 (whole lines). A client that never fails receives exactly the lines whose \<open>send\<close> did not
  block, each whole, in the order of the broadcasts and each once, and stays connected. A client whose
  \<open>send\<close> fails or is cut short receives the earlier lines and a beginning of that one, is closed
  exactly once at that moment, and receives nothing afterwards.
\<close>

theorem broadcast_whole_lines:
  assumes "distinct (tcp_clients s)" "f \<in> set (tcp_clients s)"
    and "\<forall>(ans, line) \<in> set bs. stays (line @ [nl]) (ans f)"
    and "\<not> stays (line @ [nl]) (ans f)"
  shows "f \<in> set (tcp_clients (broadcast_all bs s)) \<and>
    tcp_wire (broadcast_all bs s) f = tcp_wire s f @ unlines (lines_for f bs) \<and>
    f \<notin> set (tcp_clients (broadcast_all (bs @ (ans, line) # cs) s)) \<and>
    (\<exists>part. prefix part (line @ [nl]) \<and> tcp_wire (broadcast_all (bs @ (ans, line) # cs) s) f =
       tcp_wire s f @ unlines (lines_for f bs) @ part) \<and>
    count_list (tcp_closed (broadcast_all (bs @ (ans, line) # cs) s)) f =
      count_list (tcp_closed s) f + 1"
proof -
  let ?s1 = "broadcast_all bs s"
  let ?s2 = "broadcast_line ans line ?s1"
  note stay = broadcast_all_stay [OF assms(1-3)]
  have d: "distinct (tcp_clients ?s1)" by (rule broadcast_all_distinct [OF assms(1)])
  then have "f \<notin> set (tcp_clients ?s2)" "tcp_wire ?s2 f = tcp_wire ?s1 f @ taken (line @ [nl]) (ans f)"
    "count_list (tcp_closed ?s2) f = count_list (tcp_closed ?s1) f + 1"
    using stay assms(4) by (simp_all add: broadcast_line_spec count_list_filter_distinct)
  with stay broadcast_all_wire_gone [OF broadcast_line_distinct [OF d], of f ans line cs]
    taken_prefix [of "line @ [nl]" "ans f"]
  show ?thesis by (auto simp: broadcast_all_append)
qed

definition two_subscribers :: tcp_broadcaster where
  "two_subscribers = new_tcp_broadcaster\<lparr>tcp_clients := [5, 6]\<rparr>"

theorem broadcast_whole_lines_witness:
  "tcp_wire (broadcast_all [(\<lambda>_. Room 9, ''a''), (\<lambda>_. Out_err EAGAIN, ''b'')] two_subscribers) 5 = ''a'' @ [nl] \<and>
   5 \<notin> set (tcp_clients (broadcast_all ([(\<lambda>_. Room 9, ''a''), (\<lambda>_. Out_err EAGAIN, ''b'')] @
     (\<lambda>f. if f = 5 then Room 1 else Room 2, ''c'') # []) two_subscribers))"
proof -
  have "5 \<in> set (tcp_clients two_subscribers)" "distinct (tcp_clients two_subscribers)"
    by (simp_all add: two_subscribers_def)
  then show ?thesis
    using broadcast_whole_lines [of two_subscribers 5 "[(\<lambda>_. Room 9, ''a''), (\<lambda>_. Out_err EAGAIN, ''b'')]"
        "''c''" "\<lambda>f. if f = 5 then Room 1 else Room 2" "[]"]
    by (simp add: send_defs lines_for_def unlines_def two_subscribers_def new_tcp_broadcaster_def)
qed

text \<open>
  Isolation of clients. A broadcast treats the clients independently: a client stays
  exactly when its own \<open>send\<close> took the whole line or would have blocked, the order of the remaining
  clients is kept, exactly the others are closed, and the bytes a client receives depend on its own
  socket only. In particular a slow or broken client does not delay or disturb the others.
\<close>

theorem broadcast_isolation:
  assumes "distinct (tcp_clients s)"
  shows "tcp_clients (broadcast_line ans line s) =
      filter (\<lambda>f. ans f = Out_err EAGAIN \<or> (\<exists>k \<ge> length line + 1. ans f = Room k)) (tcp_clients s) \<and>
    tcp_closed (broadcast_line ans line s) = tcp_closed s @
      filter (\<lambda>f. \<not> (ans f = Out_err EAGAIN \<or> (\<exists>k \<ge> length line + 1. ans f = Room k))) (tcp_clients s) \<and>
    (\<forall>f \<in> set (tcp_clients s). \<forall>ans'. ans' f = ans f \<longrightarrow>
       tcp_wire (broadcast_line ans' line s) f = tcp_wire (broadcast_line ans line s) f)"
proof -
  have "stays (line @ [nl]) x \<longleftrightarrow> x = Out_err EAGAIN \<or> (\<exists>k \<ge> length line + 1. x = Room k)" for x
    by (auto simp: send_defs split: io_out.splits)
  with assms show ?thesis by (simp add: broadcast_line_spec)
qed

theorem broadcast_isolation_witness:
  "tcp_clients (broadcast_line (\<lambda>f. if f = 5 then Room 1 else Room 2) ''c'' two_subscribers) = [6]"
  using broadcast_isolation [of two_subscribers "\<lambda>f. if f = 5 then Room 1 else Room 2" "''c''"]
  by (simp add: two_subscribers_def)

text \<open>
  Accepting. All pending connections are appended in order; any error other than
  "no more connections" leaves \<open>accept_ready\<close> as an exception, an interrupted call included.
\<close>

theorem tcp_accept_all:
  "tcp_accept_ready (map Inr fs @ [Inl EAGAIN]) s =
     Some (Inr (), s\<lparr>tcp_clients := tcp_clients s @ fs,
       tcp_wire := (\<lambda>f. if f \<in> set fs then [] else tcp_wire s f)\<rparr>) \<and>
   fst (the (tcp_accept_ready (map Inr fs @ [Inl EINTR]) s)) = Inl (Sys_error ''accept TCP client'' EINTR)"
  by (simp add: tcp_accept_ready_new)

end
