(* ===== verification/Pipeline.thy ===== *)
theory Pipeline
  imports Bounded_Queue Log_Writer Tcp_Broadcaster "HOL-Library.Multiset"
begin

text \<open>
  The processing pipeline of \<open>userspace/src/main.cpp\<close>: the event loop pushes samples into the bounded
  queue, the worker threads (the lambda of lines 228 to 250) pop them, write the log, send a UDP
  datagram, broadcast to the TCP clients and count. The model interleaves the atomic sections of all
  threads: an \<open>action\<close> is one section of one thread, with the answers of the operating system, and
  \<open>act\<close> executes it (\<open>None\<close>: not enabled).

  A worker in \<open>At_pop\<close> is about to enter the critical section of \<open>BoundedQueue::pop\<close>; \<open>Waiting\<close> is a
  worker blocked on the condition variable. A notification or a spurious wake-up moves it back to
  \<open>At_pop\<close>, where it tests the predicate again. \<open>notify_one\<close> wakes one waiting worker, if there is one,
  chosen by the action; \<open>notify_all\<close> wakes all. An exception that leaves a worker or the event loop
  while workers exist ends the process (\<open>std::terminate\<close>).

  \<open>qt\<close> is the queue with its history, \<open>logged\<close> the calls of \<open>write_sample\<close> that returned, in order, with the
  answers they got (the code does not look at the state of the stream, so a call also returns when its line did not
  reach the file), \<open>udp_sent\<close> the datagrams handed to \<open>sendto\<close> and \<open>published\<close> the broadcasts in order.
\<close>

section \<open>State\<close>

datatype worker =
    At_pop | Waiting | Write_log sensorhub_sample | Send_udp sensorhub_sample
  | Send_tcp sensorhub_sample | Count_processed | Count_exported | Exited

record pipeline =
  qt :: "sensorhub_sample queue_trace"
  workers :: "worker list"
  writer :: log_state
  logged :: "(log_answers \<times> sensorhub_sample) list"
  udp_sent :: "string list"
  tcp :: tcp_broadcaster
  published :: "((fd \<Rightarrow> io_out) \<times> string) list"
  received :: u64
  processed :: u64
  exported :: u64
  terminated :: bool

abbreviation sq :: "pipeline \<Rightarrow> sensorhub_sample bounded_queue" where
  "sq p \<equiv> tq (qt p)"

definition new_pipeline :: "u64 \<Rightarrow> nat \<Rightarrow> log_state \<Rightarrow> tcp_broadcaster \<Rightarrow> pipeline" where
  "new_pipeline cap n w t = \<lparr>
     qt = \<lparr>tq = new_queue cap, accepted = [], popped = [], rejected = 0\<rparr>,
     workers = replicate n At_pop, writer = w, logged = [], udp_sent = [], tcp = t, published = [],
     received = 0, processed = 0, exported = 0, terminated = False\<rparr>"

section \<open>Actions\<close>

datatype action =
    Produce sensorhub_sample "nat option"
  | Close_queue
  | Accept_tcp "(errno + fd) list"
  | Wake nat
  | Pop_at nat
  | Write_at nat log_answers
  | Udp_at nat
  | Tcp_at nat "fd \<Rightarrow> io_out"
  | Count_processed_at nat
  | Count_exported_at nat

definition at :: "pipeline \<Rightarrow> nat \<Rightarrow> worker option" where
  "at p i = (if \<not> terminated p \<and> i < length (workers p) then Some (workers p ! i) else None)"

definition goto :: "nat \<Rightarrow> worker \<Rightarrow> pipeline \<Rightarrow> pipeline" where
  "goto i w p = p\<lparr>workers := (workers p)[i := w]\<rparr>"

text \<open>The body of the source callback for one sample: count, push, notify.\<close>

definition produce :: "sensorhub_sample \<Rightarrow> nat option \<Rightarrow> pipeline \<Rightarrow> pipeline option" where
  "produce s who p =
     (if terminated p then None
      else
        let p1 = p\<lparr>received := received p + 1, qt := queue_step (Push s) (qt p)\<rparr>
        in if fst (push s (sq p))
           then (case who of
                   None \<Rightarrow> if Waiting \<in> set (workers p) then None else Some p1
                 | Some i \<Rightarrow> if at p i = Some Waiting then Some (goto i At_pop p1) else None)
           else (if who = None then Some p1 else None))"

definition pop_at :: "nat \<Rightarrow> pipeline \<Rightarrow> pipeline option" where
  "pop_at i p =
     (if at p i \<noteq> Some At_pop then None
      else case pop (sq p) of
             None \<Rightarrow> Some (goto i Waiting p)
           | Some (None, _) \<Rightarrow> Some (goto i Exited p)
           | Some (Some s, _) \<Rightarrow> Some (goto i (Write_log s) (p\<lparr>qt := queue_step Pop (qt p)\<rparr>)))"

definition write_at :: "nat \<Rightarrow> log_answers \<Rightarrow> pipeline \<Rightarrow> pipeline option" where
  "write_at i ans p =
     (case at p i of
        Some (Write_log s) \<Rightarrow>
          (case write_sample ans s (writer p) of
             (Inr _, w) \<Rightarrow> Some (goto i (Send_udp s) (p\<lparr>writer := w, logged := logged p @ [(ans, s)]\<rparr>))
           | (Inl _, w) \<Rightarrow> Some (p\<lparr>writer := w, terminated := True\<rparr>))
      | _ \<Rightarrow> None)"

definition udp_at :: "nat \<Rightarrow> pipeline \<Rightarrow> pipeline option" where
  "udp_at i p =
     (case at p i of
        Some (Send_udp s) \<Rightarrow> Some (goto i (Send_tcp s) (p\<lparr>udp_sent := udp_sent p @ [sample_to_line s]\<rparr>))
      | _ \<Rightarrow> None)"

definition tcp_at :: "nat \<Rightarrow> (fd \<Rightarrow> io_out) \<Rightarrow> pipeline \<Rightarrow> pipeline option" where
  "tcp_at i ans p =
     (case at p i of
        Some (Send_tcp s) \<Rightarrow>
          Some (goto i Count_processed (p\<lparr>tcp := broadcast_line ans (sample_to_line s) (tcp p),
            published := published p @ [(ans, sample_to_line s)]\<rparr>))
      | _ \<Rightarrow> None)"

fun act :: "action \<Rightarrow> pipeline \<Rightarrow> pipeline option" where
  "act (Produce s who) p = produce s who p"
| "act Close_queue p =
     (if terminated p then None
      else Some (p\<lparr>qt := queue_step Close (qt p),
                   workers := map (\<lambda>w. if w = Waiting then At_pop else w) (workers p)\<rparr>))"
| "act (Accept_tcp xs) p =
     (if terminated p then None
      else case tcp_accept_ready xs (tcp p) of
             None \<Rightarrow> None
           | Some (Inr _, t) \<Rightarrow> Some (p\<lparr>tcp := t\<rparr>)
           | Some (Inl _, t) \<Rightarrow> Some (p\<lparr>tcp := t, terminated := True\<rparr>))"
| "act (Wake i) p = (if at p i = Some Waiting then Some (goto i At_pop p) else None)"
| "act (Pop_at i) p = pop_at i p"
| "act (Write_at i ans) p = write_at i ans p"
| "act (Udp_at i) p = udp_at i p"
| "act (Tcp_at i ans) p = tcp_at i ans p"
| "act (Count_processed_at i) p =
     (if at p i = Some Count_processed
      then Some (goto i Count_exported (p\<lparr>processed := processed p + 1\<rparr>)) else None)"
| "act (Count_exported_at i) p =
     (if at p i = Some Count_exported
      then Some (goto i At_pop (p\<lparr>exported := exported p + 1\<rparr>)) else None)"

inductive reach :: "pipeline \<Rightarrow> pipeline \<Rightarrow> bool" for p0 where
  start: "reach p0 p0"
| step: "reach p0 p \<Longrightarrow> act a p = Some p' \<Longrightarrow> reach p0 p'"

section \<open>Sums over the workers\<close>

lemma sum_list_update_eq:
  "i < length ws \<Longrightarrow>
     sum_list (map f (ws[i := w])) + f (ws ! i) = sum_list (map f ws) + (f w :: 'b :: comm_monoid_add)"
proof (induction ws arbitrary: i)
  case (Cons x ws)
  then show ?case by (cases i) (auto simp: add_ac)
qed simp

text \<open>What a worker still has to do with the sample in its hands.\<close>

fun to_write :: "worker \<Rightarrow> sensorhub_sample multiset" where
  "to_write (Write_log s) = {#s#}"
| "to_write w = {#}"

fun to_send :: "worker \<Rightarrow> string multiset" where
  "to_send (Send_udp s) = {#sample_to_line s#}"
| "to_send w = {#}"

fun to_publish :: "worker \<Rightarrow> string multiset" where
  "to_publish (Send_udp s) = {#sample_to_line s#}"
| "to_publish (Send_tcp s) = {#sample_to_line s#}"
| "to_publish w = {#}"

definition indicator :: "worker \<Rightarrow> worker \<Rightarrow> nat" where
  "indicator v w = (if w = v then 1 else 0)"

abbreviation total :: "(worker \<Rightarrow> 'b :: comm_monoid_add) \<Rightarrow> pipeline \<Rightarrow> 'b" where
  "total f p \<equiv> sum_list (map f (workers p))"

lemma at_Some: "at p i = Some w \<longleftrightarrow> \<not> terminated p \<and> i < length (workers p) \<and> workers p ! i = w"
  by (auto simp: at_def)

lemma total_goto:
  "at p i = Some v \<Longrightarrow> total f (goto i w p) + f v = total f p + (f w :: 'b :: comm_monoid_add)"
  using sum_list_update_eq [of i "workers p" f w] by (auto simp: at_Some goto_def)

lemma goto_simps [simp]:
  "qt (goto i w p) = qt p" "writer (goto i w p) = writer p" "logged (goto i w p) = logged p"
  "udp_sent (goto i w p) = udp_sent p" "tcp (goto i w p) = tcp p" "published (goto i w p) = published p"
  "received (goto i w p) = received p" "processed (goto i w p) = processed p"
  "exported (goto i w p) = exported p" "terminated (goto i w p) = terminated p"
  "length (workers (goto i w p)) = length (workers p)"
  by (simp_all add: goto_def)

lemma at_update [simp]:
  "at (p\<lparr>qt := q\<rparr>) i = at p i" "at (p\<lparr>received := r\<rparr>) i = at p i"
  "at (p\<lparr>writer := w\<rparr>) i = at p i" "at (p\<lparr>logged := ls\<rparr>) i = at p i"
  "at (p\<lparr>udp_sent := us\<rparr>) i = at p i" "at (p\<lparr>tcp := t\<rparr>) i = at p i"
  "at (p\<lparr>published := ps\<rparr>) i = at p i" "at (p\<lparr>processed := n\<rparr>) i = at p i"
  "at (p\<lparr>exported := n\<rparr>) i = at p i"
  by (simp_all add: at_def)

section \<open>The effect of an action\<close>

declare queue_step.simps [simp del]

lemma queue_step_Push [simp]:
  "tq (queue_step (Push s) t) = snd (push s (tq t))" "popped (queue_step (Push s) t) = popped t"
  "accepted (queue_step (Push s) t) = accepted t @ (if fst (push s (tq t)) then [s] else [])"
  "rejected (queue_step (Push s) t) = rejected t + (if fst (push s (tq t)) then 0 else 1)"
  by (auto simp: queue_step.simps split: prod.splits bool.splits)

lemma queue_step_Pop [simp]:
  "pop (tq t) = Some (Some s, q) \<Longrightarrow> queue_step Pop t = t\<lparr>tq := q, popped := popped t @ [s]\<rparr>"
  by (simp add: queue_step.simps)

lemma queue_step_Close [simp]: "queue_step Close t = t\<lparr>tq := close (tq t)\<rparr>"
  by (simp add: queue_step.simps)

definition pushed :: "sensorhub_sample \<Rightarrow> pipeline \<Rightarrow> pipeline" where
  "pushed s p = p\<lparr>received := received p + 1, qt := queue_step (Push s) (qt p)\<rparr>"

lemma produce_cases:
  assumes "produce s who p = Some p'"
  obtains (drop) "\<not> terminated p" "\<not> fst (push s (sq p))" "p' = pushed s p"
    | (stored) "\<not> terminated p" "fst (push s (sq p))" "Waiting \<notin> set (workers p)" "p' = pushed s p"
    | (woken) i where "fst (push s (sq p))" "at p i = Some Waiting" "p' = goto i At_pop (pushed s p)"
  using assms unfolding produce_def pushed_def [symmetric] Let_def
  by (auto split: if_splits option.splits)

lemma pop_at_cases:
  assumes "pop_at i p = Some p'"
  obtains (wait) "at p i = Some At_pop" "pop (sq p) = None" "p' = goto i Waiting p"
    | (finish) q where "at p i = Some At_pop" "pop (sq p) = Some (None, q)" "p' = goto i Exited p"
    | (item) s q where "at p i = Some At_pop" "pop (sq p) = Some (Some s, q)"
        "p' = goto i (Write_log s) (p\<lparr>qt := queue_step Pop (qt p)\<rparr>)"
  using assms unfolding pop_at_def by (auto split: if_splits option.splits)

lemma write_at_cases:
  assumes "write_at i ans p = Some p'"
  obtains (ok) s w where "at p i = Some (Write_log s)" "write_sample ans s (writer p) = (Inr (), w)"
        "p' = goto i (Send_udp s) (p\<lparr>writer := w, logged := logged p @ [(ans, s)]\<rparr>)"
    | (fail) s w e where "at p i = Some (Write_log s)" "write_sample ans s (writer p) = (Inl e, w)"
        "p' = p\<lparr>writer := w, terminated := True\<rparr>"
  using assms unfolding write_at_def
  by (auto split: option.splits worker.splits prod.splits sum.splits)

lemma udp_at_cases:
  assumes "udp_at i p = Some p'"
  obtains s where "at p i = Some (Send_udp s)"
    "p' = goto i (Send_tcp s) (p\<lparr>udp_sent := udp_sent p @ [sample_to_line s]\<rparr>)"
  using assms unfolding udp_at_def by (auto split: option.splits worker.splits)

lemma tcp_at_cases:
  assumes "tcp_at i ans p = Some p'"
  obtains s where "at p i = Some (Send_tcp s)"
    "p' = goto i Count_processed (p\<lparr>tcp := broadcast_line ans (sample_to_line s) (tcp p),
       published := published p @ [(ans, sample_to_line s)]\<rparr>)"
  using assms unfolding tcp_at_def by (auto split: option.splits worker.splits)

text \<open>All actions together: the successor state, by the thread section that was executed.\<close>

inductive effect :: "pipeline \<Rightarrow> pipeline \<Rightarrow> bool" for p where
  drop: "\<not> terminated p \<Longrightarrow> \<not> fst (push s (sq p)) \<Longrightarrow> effect p (pushed s p)"
| stored: "\<not> terminated p \<Longrightarrow> fst (push s (sq p)) \<Longrightarrow> Waiting \<notin> set (workers p) \<Longrightarrow> effect p (pushed s p)"
| woken: "fst (push s (sq p)) \<Longrightarrow> at p i = Some Waiting \<Longrightarrow> effect p (goto i At_pop (pushed s p))"
| close: "\<not> terminated p \<Longrightarrow> effect p (p\<lparr>qt := queue_step Close (qt p),
     workers := map (\<lambda>w. if w = Waiting then At_pop else w) (workers p)\<rparr>)"
| accept: "\<not> terminated p \<Longrightarrow> tcp_accept_ready xs (tcp p) = Some (Inr u, t) \<Longrightarrow> effect p (p\<lparr>tcp := t\<rparr>)"
| refuse: "\<not> terminated p \<Longrightarrow> tcp_accept_ready xs (tcp p) = Some (Inl e, t) \<Longrightarrow>
     effect p (p\<lparr>tcp := t, terminated := True\<rparr>)"
| wake: "at p i = Some Waiting \<Longrightarrow> effect p (goto i At_pop p)"
| wait: "at p i = Some At_pop \<Longrightarrow> pop (sq p) = None \<Longrightarrow> effect p (goto i Waiting p)"
| finish: "at p i = Some At_pop \<Longrightarrow> pop (sq p) = Some (None, q) \<Longrightarrow> effect p (goto i Exited p)"
| item: "at p i = Some At_pop \<Longrightarrow> pop (sq p) = Some (Some s, q) \<Longrightarrow>
     effect p (goto i (Write_log s) (p\<lparr>qt := queue_step Pop (qt p)\<rparr>))"
| log_ok: "at p i = Some (Write_log s) \<Longrightarrow> write_sample ans s (writer p) = (Inr (), w) \<Longrightarrow>
     effect p (goto i (Send_udp s) (p\<lparr>writer := w, logged := logged p @ [(ans, s)]\<rparr>))"
| log_fail: "at p i = Some (Write_log s) \<Longrightarrow> write_sample ans s (writer p) = (Inl e, w) \<Longrightarrow>
     effect p (p\<lparr>writer := w, terminated := True\<rparr>)"
| udp: "at p i = Some (Send_udp s) \<Longrightarrow>
     effect p (goto i (Send_tcp s) (p\<lparr>udp_sent := udp_sent p @ [sample_to_line s]\<rparr>))"
| tcp: "at p i = Some (Send_tcp s) \<Longrightarrow>
     effect p (goto i Count_processed (p\<lparr>tcp := broadcast_line ans (sample_to_line s) (tcp p),
       published := published p @ [(ans, sample_to_line s)]\<rparr>))"
| count_processed: "at p i = Some Count_processed \<Longrightarrow>
     effect p (goto i Count_exported (p\<lparr>processed := processed p + 1\<rparr>))"
| count_exported: "at p i = Some Count_exported \<Longrightarrow>
     effect p (goto i At_pop (p\<lparr>exported := exported p + 1\<rparr>))"

lemma act_effect: "act a p = Some p' \<Longrightarrow> effect p p'"
proof (cases a)
  case (Produce s who)
  moreover assume "act a p = Some p'"
  ultimately show ?thesis
    by (auto elim!: produce_cases intro: effect.intros)
next
  case Close_queue
  moreover assume "act a p = Some p'"
  ultimately show ?thesis using effect.close [of p] by (auto split: if_splits)
qed (auto elim!: pop_at_cases write_at_cases udp_at_cases tcp_at_cases intro: effect.intros
      split: if_splits option.splits prod.splits sum.splits)

text \<open>Accepted samples stay accepted.\<close>

lemma effect_accepted: "effect p p' \<Longrightarrow> prefix (accepted (qt p)) (accepted (qt p'))"
  by (cases rule: effect.cases) (auto simp: pushed_def prefix_def)

lemma reach_accepted: "reach p0 p \<Longrightarrow> prefix (accepted (qt p0)) (accepted (qt p))"
  by (induction rule: reach.induct) (auto dest!: act_effect effect_accepted intro: prefix_order.trans)

lemma reach_trans: "reach p0 p \<Longrightarrow> reach p p' \<Longrightarrow> reach p0 p'"
  by (rotate_tac 1, induction rule: reach.induct) (auto intro: reach.step)

section \<open>Invariants\<close>

text \<open>Samples and lines are conserved between the stages.\<close>

definition stages_inv :: "pipeline \<Rightarrow> bool" where
  "stages_inv p \<longleftrightarrow>
     mset (popped (qt p)) = mset (map snd (logged p)) + total to_write p \<and>
     mset (map (\<lambda>x. sample_to_line (snd x)) (logged p)) = mset (udp_sent p) + total to_send p \<and>
     mset (map (\<lambda>x. sample_to_line (snd x)) (logged p)) = mset (map snd (published p)) + total to_publish p"

lemma total_same: "at p i = Some v \<Longrightarrow> f v = f w \<Longrightarrow> total f (goto i w p) = (total f p :: 'b :: cancel_comm_monoid_add)"
  using total_goto [of p i v f w] by simp

lemma total_gain: "at p i = Some v \<Longrightarrow> f v = 0 \<Longrightarrow> total f (goto i w p) = total f p + (f w :: 'b :: comm_monoid_add)"
  using total_goto [of p i v f w] by simp

lemma total_loss: "at p i = Some v \<Longrightarrow> f w = 0 \<Longrightarrow> total f p = total f (goto i w p) + (f v :: 'b :: comm_monoid_add)"
  using total_goto [of p i v f w] by simp

lemma close_total: "f Waiting = f At_pop \<Longrightarrow> sum_list (map f (map (\<lambda>w. if w = Waiting then At_pop else w) ws)) = sum_list (map f ws)"
  by (induction ws) auto

lemma workers_pushed [simp]: "workers (pushed s p) = workers p" "at (pushed s p) i = at p i"
  "logged (pushed s p) = logged p" "udp_sent (pushed s p) = udp_sent p" "published (pushed s p) = published p"
  "qt (pushed s p) = queue_step (Push s) (qt p)" "processed (pushed s p) = processed p"
  "exported (pushed s p) = exported p" "received (pushed s p) = received p + 1" "tcp (pushed s p) = tcp p"
  "writer (pushed s p) = writer p" "terminated (pushed s p) = terminated p"
  by (simp_all add: pushed_def)

lemma stages_inv_effect: "effect p p' \<Longrightarrow> stages_inv p \<Longrightarrow> stages_inv p'"
proof (induction rule: effect.induct)
  case (close)
  then show ?case by (auto simp: stages_inv_def close_total simp del: map_map)
next
  case (log_ok i s ans w)
  let ?p = "p\<lparr>writer := w, logged := logged p @ [(ans, s)]\<rparr>"
  have at: "at ?p i = Some (Write_log s)" using log_ok by simp
  from log_ok total_goto [OF at, of to_write "Send_udp s"] total_gain [OF at, of to_send "Send_udp s"]
    total_gain [OF at, of to_publish "Send_udp s"]
  show ?case by (auto simp: stages_inv_def)
next
  case (udp i s)
  let ?p = "p\<lparr>udp_sent := udp_sent p @ [sample_to_line s]\<rparr>"
  have at: "at ?p i = Some (Send_udp s)" using udp by simp
  from udp total_same [OF at, of to_write "Send_tcp s"] total_goto [OF at, of to_send "Send_tcp s"]
    total_same [OF at, of to_publish "Send_tcp s"]
  show ?case by (auto simp: stages_inv_def)
next
  case (tcp i s ans)
  let ?p = "p\<lparr>tcp := broadcast_line ans (sample_to_line s) (tcp p), published := published p @ [(ans, sample_to_line s)]\<rparr>"
  have at: "at ?p i = Some (Send_tcp s)" using tcp by simp
  from tcp total_same [OF at, of to_write Count_processed] total_same [OF at, of to_send Count_processed]
    total_loss [OF at, of to_publish Count_processed]
  show ?case by (auto simp: stages_inv_def)
qed (auto simp: stages_inv_def total_same total_gain)

text \<open>The counters.\<close>

definition counts_inv :: "u64 \<Rightarrow> pipeline \<Rightarrow> bool" where
  "counts_inv cap p \<longleftrightarrow> trace_inv cap (qt p) \<and>
     received p = word_of_nat (length (accepted (qt p)) + rejected (qt p)) \<and>
     word_of_nat (length (published p)) = processed p + word_of_nat (total (indicator Count_processed) p) \<and>
     total (indicator Count_processed) p \<le> length (published p) \<and>
     processed p = exported p + word_of_nat (total (indicator Count_exported) p)"

lemma counts_inv_effect: "effect p p' \<Longrightarrow> counts_inv cap p \<Longrightarrow> counts_inv cap p'"
proof (induction rule: effect.induct)
  case (close)
  then show ?case using queue_step_inv [of cap "qt p" Close]
    by (simp add: counts_inv_def close_total indicator_def del: map_map)
next
  case (item i s q)
  then show ?case using queue_step_inv [of cap "qt p" Pop]
    by (simp add: counts_inv_def total_same indicator_def)
next
  case (tcp i s ans)
  then show ?case by (simp add: counts_inv_def total_same total_gain indicator_def)
next
  case (count_processed i)
  let ?p = "p\<lparr>processed := processed p + 1\<rparr>"
  have at: "at ?p i = Some Count_processed" using count_processed by simp
  from count_processed total_loss [OF at, of "indicator Count_processed" Count_exported]
    total_gain [OF at, of "indicator Count_exported" Count_exported]
  show ?case by (simp add: counts_inv_def indicator_def)
next
  case (count_exported i)
  let ?p = "p\<lparr>exported := exported p + 1\<rparr>"
  have at: "at ?p i = Some Count_exported" using count_exported by simp
  from count_exported total_same [OF at, of "indicator Count_processed" At_pop]
    total_loss [OF at, of "indicator Count_exported" At_pop]
  show ?case by (simp add: counts_inv_def indicator_def)
qed (auto simp: counts_inv_def total_same indicator_def intro: inv_intros)

text \<open>
  The condition variable: while a worker waits, the queue is open and there are at least as many
  workers on their way to the queue as there are queued samples. No notification is lost.
\<close>

definition wake_inv :: "pipeline \<Rightarrow> bool" where
  "wake_inv p \<longleftrightarrow>
     (Waiting \<in> set (workers p) \<longrightarrow> \<not> closed (sq p) \<and> length (queue (sq p)) \<le> total (indicator At_pop) p) \<and>
     (Exited \<in> set (workers p) \<longrightarrow> closed (sq p) \<and> queue (sq p) = [])"

lemma set_goto: "at p i = Some v \<Longrightarrow> set (workers (goto i w p)) \<subseteq> insert w (set (workers p))"
  by (auto simp: goto_def dest: set_update_subset_insert [THEN subsetD])

lemma in_set_goto: "x \<in> set (workers (goto i w p)) \<Longrightarrow> x = w \<or> x \<in> set (workers p)"
  by (auto simp: goto_def dest: set_update_subset_insert [THEN subsetD])

lemma at_mem: "at p i = Some v \<Longrightarrow> v \<in> set (workers p)"
  by (auto simp: at_Some)

lemma push_queue:
  "length (queue (snd (push s q))) = length (queue q) + (if fst (push s q) then 1 else 0)"
  "\<not> fst (push s q) \<Longrightarrow> queue (snd (push s q)) = queue q"
  "closed q \<Longrightarrow> \<not> fst (push s q)"
  by (auto simp: push_def split: if_splits)

lemma wake_inv_effect: "effect p p' \<Longrightarrow> wake_inv p \<Longrightarrow> wake_inv p'"
proof (induction rule: effect.induct)
  case (woken s i)
  then have "\<not> closed (sq p)" using push_queue(3) [of "sq p" s] by auto
  with woken total_gain [of "pushed s p" i Waiting "indicator At_pop" At_pop] show ?case
    by (auto simp: wake_inv_def push_queue indicator_def at_mem dest!: in_set_goto)
next
  case close
  then show ?case by (auto simp: wake_inv_def close_def)
next
  case (wake i)
  then show ?case using total_gain [of p i Waiting "indicator At_pop" At_pop]
    by (auto simp: wake_inv_def indicator_def at_mem dest!: in_set_goto)
next
  case (wait i)
  then show ?case by (auto simp: wake_inv_def pop_None dest!: in_set_goto)
next
  case (finish i q)
  then show ?case by (auto simp: wake_inv_def pop_end dest!: in_set_goto)
next
  case (item i s q)
  let ?p = "p\<lparr>qt := queue_step Pop (qt p)\<rparr>"
  have "at ?p i = Some At_pop" using item by simp
  from total_loss [OF this, of "indicator At_pop" "Write_log s"] item show ?case
    by (auto simp: wake_inv_def pop_value indicator_def dest!: in_set_goto)
next
  case (count_exported i)
  let ?p = "p\<lparr>exported := exported p + 1\<rparr>"
  have "at ?p i = Some Count_exported" using count_exported by simp
  from total_gain [OF this, of "indicator At_pop" At_pop] count_exported show ?case
    by (auto simp: wake_inv_def indicator_def dest!: in_set_goto)
qed (auto simp: wake_inv_def push_queue total_same indicator_def dest!: in_set_goto)

text \<open>
  The log files are the result of the writes that returned, in the order in which they were made, and possibly of
  one that ended the process.
\<close>

definition log_inv_p :: "log_state \<Rightarrow> pipeline \<Rightarrow> bool" where
  "log_inv_p w0 p \<longleftrightarrow> (\<exists>w1. write_all (logged p) w0 = (Inr (), w1) \<and>
     (writer p = w1 \<or> terminated p \<and> (\<exists>ans s e. write_sample ans s w1 = (Inl e, writer p))))"

lemma write_all_snoc:
  "write_all ws st = (Inr (), st1) \<Longrightarrow> write_sample ans s st1 = (Inr (), st2) \<Longrightarrow>
     write_all (ws @ [(ans, s)]) st = (Inr (), st2)"
  by (induction ws arbitrary: st) (auto split: prod.splits sum.splits)

lemma log_inv_effect: "effect p p' \<Longrightarrow> log_inv_p w0 p \<Longrightarrow> log_inv_p w0 p'"
proof (induction rule: effect.induct)
  case (log_ok i s ans w)
  then show ?case by (auto simp: log_inv_p_def at_Some intro: write_all_snoc)
qed (auto simp: log_inv_p_def at_Some)

definition pipe_inv :: "u64 \<Rightarrow> log_state \<Rightarrow> pipeline \<Rightarrow> bool" where
  "pipe_inv cap w0 p \<longleftrightarrow> stages_inv p \<and> counts_inv cap p \<and> wake_inv p \<and> log_inv_p w0 p"

lemma sum_list_zeros [simp]: "sum_list (replicate n (0 :: 'b :: comm_monoid_add)) = 0"
  by (induction n) simp_all

lemma pipe_inv_new [inv_intros]: "pipe_inv cap w (new_pipeline cap n w t)"
  by (simp add: pipe_inv_def stages_inv_def counts_inv_def wake_inv_def log_inv_p_def new_pipeline_def
      trace_inv_def queue_inv_def new_queue_def indicator_def)

lemma pipe_inv_act [inv_intros]: "act a p = Some p' \<Longrightarrow> pipe_inv cap w0 p \<Longrightarrow> pipe_inv cap w0 p'"
  by (auto simp: pipe_inv_def dest!: act_effect
      intro: stages_inv_effect counts_inv_effect wake_inv_effect log_inv_effect)

lemma pipe_inv_reach: "reach p0 p \<Longrightarrow> pipe_inv cap w0 p0 \<Longrightarrow> pipe_inv cap w0 p"
  by (induction rule: reach.induct) (auto intro: inv_intros)

lemma sum_list_zero_all: "\<forall>v \<in> set ws. f v = 0 \<Longrightarrow> sum_list (map f ws) = (0 :: 'b :: comm_monoid_add)"
  by (induction ws) simp_all

lemma total_zero: "\<forall>v \<in> set (workers p). v = v0 \<Longrightarrow> f v0 = 0 \<Longrightarrow> total f p = (0 :: 'b :: comm_monoid_add)"
  by (rule sum_list_zero_all) auto

lemma size_total_le:
  assumes "\<And>v. size (f v :: 'b multiset) \<le> 1"
  shows "size (total f p) \<le> length (workers p)"
proof -
  have "size (sum_list (map f ws)) \<le> length ws" for ws
  proof (induction ws)
    case (Cons v ws)
    with assms [of v] show ?case by simp
  qed simp
  then show ?thesis .
qed

lemma total_indicator: "sum_list (map (indicator v) ws) = count_list ws v"
  by (induction ws) (auto simp: indicator_def)

lemma effect_workers: "effect p p' \<Longrightarrow> length (workers p') = length (workers p)"
  by (induction rule: effect.induct) simp_all

lemma reach_workers: "reach p0 p \<Longrightarrow> length (workers p) = length (workers p0)"
  by (induction rule: reach.induct) (auto dest: effect_workers [OF act_effect])

section \<open>Shutdown\<close>

fun rank :: "worker \<Rightarrow> nat" where
  "rank Exited = 0"
| "rank At_pop = 1"
| "rank Waiting = 2"
| "rank Count_exported = 2"
| "rank Count_processed = 3"
| "rank (Send_tcp s) = 4"
| "rank (Send_udp s) = 5"
| "rank (Write_log s) = 6"

definition work :: "pipeline \<Rightarrow> nat" where
  "work p = 6 * length (queue (sq p)) + total rank p"

lemma rank_le: "rank v \<le> 6"
  by (cases v) simp_all

lemma total_rank: "sum_list (map rank ws) \<le> 6 * length ws"
proof (induction ws)
  case (Cons v ws)
  then show ?case using rank_le [of v] by simp
qed simp

fun worker_action :: "action \<Rightarrow> bool" where
  "worker_action (Produce s who) = False"
| "worker_action Close_queue = False"
| "worker_action (Accept_tcp xs) = False"
| "worker_action a = True"

fun run_actions :: "action list \<Rightarrow> pipeline \<Rightarrow> pipeline option" where
  "run_actions [] p = Some p"
| "run_actions (a # as) p = (case act a p of None \<Rightarrow> None | Some p' \<Rightarrow> run_actions as p')"

lemma run_actions_append:
  "run_actions (as @ bs) p = (case run_actions as p of None \<Rightarrow> None | Some p1 \<Rightarrow> run_actions bs p1)"
  by (induction as arbitrary: p) (auto split: option.splits)

lemma work_goto:
  "at p i = Some v \<Longrightarrow> rank w < rank v \<Longrightarrow> queue (tq (qt p')) = queue (sq p) \<Longrightarrow>
     workers p' = workers (goto i w p) \<Longrightarrow> work p' < work p"
  using total_goto [of p i v rank w] by (simp add: work_def)

lemma closed_effect: "effect p p' \<Longrightarrow> closed (sq p) \<Longrightarrow> closed (sq p')"
  by (induction rule: effect.induct) (auto simp: close_def pop_value)

lemma closed_act: "act a p = Some p' \<Longrightarrow> closed (sq p) \<Longrightarrow> closed (sq p')"
  using act_effect closed_effect by blast

lemma pop_at_work:
  assumes "pop_at i p = Some p'" "closed (sq p)"
  shows "work p' < work p"
  using assms(1)
proof (cases rule: pop_at_cases)
  case wait
  then show ?thesis using assms(2) by (simp add: pop_None)
next
  case (finish q)
  then show ?thesis by (intro work_goto [of p i At_pop Exited]) simp_all
next
  case (item s q)
  then have "at (p\<lparr>qt := queue_step Pop (qt p)\<rparr>) i = Some At_pop" by simp
  from total_goto [OF this, of rank "Write_log s"] item show ?thesis by (auto simp: work_def pop_value)
qed

lemma worker_action_decreases:
  assumes "act a p = Some p'" "worker_action a" "closed (sq p)" "\<not> terminated p'"
  shows "work p' < work p"
proof (cases a)
  case (Pop_at i)
  then show ?thesis using assms pop_at_work by simp
next
  case (Wake i)
  then show ?thesis using assms by (intro work_goto [of p i Waiting At_pop]) (auto split: if_splits)
next
  case (Write_at i ans)
  with assms have "write_at i ans p = Some p'" by simp
  then show ?thesis
  proof (cases rule: write_at_cases)
    case (ok s w)
    then show ?thesis by (intro work_goto [of p i "Write_log s" "Send_udp s"]) (auto simp: goto_def)
  qed (use assms(4) in simp)
next
  case (Udp_at i)
  with assms have "udp_at i p = Some p'" by simp
  then show ?thesis
  proof (cases rule: udp_at_cases)
    case (1 s)
    then show ?thesis by (intro work_goto [of p i "Send_udp s" "Send_tcp s"]) (auto simp: goto_def)
  qed
next
  case (Tcp_at i ans)
  with assms have "tcp_at i ans p = Some p'" by simp
  then show ?thesis
  proof (cases rule: tcp_at_cases)
    case (1 s)
    then show ?thesis by (intro work_goto [of p i "Send_tcp s" Count_processed]) (auto simp: goto_def)
  qed
next
  case (Count_processed_at i)
  then show ?thesis
    using assms by (intro work_goto [of p i Count_processed Count_exported]) (auto simp: goto_def split: if_splits)
next
  case (Count_exported_at i)
  then show ?thesis
    using assms by (intro work_goto [of p i Count_exported At_pop]) (auto simp: goto_def split: if_splits)
qed (use assms in simp_all)

lemma terminated_act: "terminated p \<Longrightarrow> act a p = None"
  by (cases a) (auto simp: produce_def pop_at_def write_at_def udp_at_def tcp_at_def at_def)

lemma run_bound:
  "run_actions as p = Some p' \<Longrightarrow> \<forall>a \<in> set as. worker_action a \<Longrightarrow> closed (sq p) \<Longrightarrow>
     length as \<le> Suc (work p)"
proof (induction as arbitrary: p)
  case (Cons a as)
  then obtain p1 where p1: "act a p = Some p1" "run_actions as p1 = Some p'"
    by (auto split: option.splits)
  show ?case
  proof (cases "terminated p1")
    case True
    then have "as = []" using p1(2) terminated_act by (cases as) auto
    then show ?thesis by simp
  next
    case False
    then have "work p1 < work p" using worker_action_decreases p1(1) Cons.prems by simp
    with Cons.IH [OF p1(2)] Cons.prems closed_act [OF p1(1)] show ?thesis by simp
  qed
qed simp

text \<open>
  A worker that has not exited can always take its next step, unless it waits; with a log that can be
  written the step does not terminate the process.
\<close>

definition good_log :: log_answers where
  "good_log = \<lparr>mkdir_err = None, stat_err = None, open_app_ok = True, remove_ok = True,
     rename_ok = True, open_trunc_ok = True, written = 200\<rparr>"

lemma write_good_log: "\<exists>w'. write_sample good_log s w = (Inr (), w')"
  by (simp add: write_sample_def open_if_needed_def rotate_if_needed_def good_log_def Let_def)

lemma worker_enabled:
  assumes "at p i = Some w" "w \<noteq> Exited" "w \<noteq> Waiting"
  shows "\<exists>a p'. worker_action a \<and> act a p = Some p' \<and> \<not> terminated p'"
proof -
  have nt: "\<not> terminated p" using assms(1) by (simp add: at_def split: if_splits)
  have step: "\<exists>a p'. worker_action a \<and> act a p = Some p' \<and> \<not> terminated p'"
    if "act a p = Some p'" "worker_action a" "terminated p' = terminated p" for a p'
    using that nt by blast
  show ?thesis
  proof (cases w)
    case At_pop
    then have "pop_at i p \<noteq> None" using assms by (simp add: pop_at_def split: option.splits)
    then obtain p' where "pop_at i p = Some p'" by blast
    moreover from this have "terminated p' = terminated p" by (cases rule: pop_at_cases) simp_all
    ultimately show ?thesis using step [of "Pop_at i" p'] by simp
  next
    case (Write_log s)
    obtain w' where "write_sample good_log s (writer p) = (Inr (), w')" using write_good_log by blast
    with Write_log assms(1) show ?thesis using step [of "Write_at i good_log"] by (simp add: write_at_def)
  next
    case (Send_udp s)
    with assms(1) show ?thesis using step [of "Udp_at i"] by (simp add: udp_at_def)
  next
    case (Send_tcp s)
    with assms(1) show ?thesis using step [of "Tcp_at i (\<lambda>_. Room 0)"] by (simp add: tcp_at_def)
  next
    case Count_processed
    with assms(1) show ?thesis using step [of "Count_processed_at i"] by simp
  next
    case Count_exported
    with assms(1) show ?thesis using step [of "Count_exported_at i"] by simp
  qed (use assms in simp_all)
qed

lemma stuck_exited:
  assumes "wake_inv p" "closed (sq p)" "\<not> terminated p" "\<And>a p'. worker_action a \<Longrightarrow> act a p = Some p' \<Longrightarrow> terminated p'"
  shows "set (workers p) \<subseteq> {Exited}"
proof
  fix v assume v: "v \<in> set (workers p)"
  then obtain i where "at p i = Some v" using assms(3) unfolding in_set_conv_nth at_def by metis
  moreover have "v \<noteq> Waiting" using v assms(1,2) by (auto simp: wake_inv_def)
  ultimately show "v \<in> {Exited}" using worker_enabled [of p i v] assms(4) by blast
qed

lemma exited_stuck:
  assumes "set (workers p) \<subseteq> {Exited}" "worker_action a"
  shows "act a p = None"
proof -
  have "at p i = (if \<not> terminated p \<and> i < length (workers p) then Some Exited else None)" for i
    using assms(1) by (auto simp: at_def dest: nth_mem)
  with assms(2) show ?thesis
    by (cases a) (simp_all add: pop_at_def write_at_def udp_at_def tcp_at_def)
qed

lemma run_wake: "run_actions as p = Some p' \<Longrightarrow> wake_inv p \<Longrightarrow> wake_inv p'"
  by (induction as arbitrary: p) (auto split: option.splits dest!: act_effect intro: wake_inv_effect)

lemma run_closed: "run_actions as p = Some p' \<Longrightarrow> closed (sq p) \<Longrightarrow> closed (sq p')"
  by (induction as arbitrary: p) (auto split: option.splits dest: closed_act)

text \<open>From a closed queue some schedule of the workers leads to the exit of all of them.\<close>

lemma workers_can_exit:
  "wake_inv p \<Longrightarrow> closed (sq p) \<Longrightarrow> \<not> terminated p \<Longrightarrow>
     \<exists>as p'. list_all worker_action as \<and> run_actions as p = Some p' \<and> \<not> terminated p' \<and> set (workers p') \<subseteq> {Exited}"
proof (induction "work p" arbitrary: p rule: less_induct)
  case less
  show ?case
  proof (cases "set (workers p) \<subseteq> {Exited}")
    case True
    with less.prems show ?thesis by (intro exI [of _ "[]"]) simp
  next
    case False
    then obtain a p1 where a: "worker_action a" "act a p = Some p1" "\<not> terminated p1"
      using stuck_exited [OF less.prems] by blast
    have "wake_inv p1" using wake_inv_effect act_effect a(2) less.prems(1) by blast
    then obtain as p' where "list_all worker_action as" "run_actions as p1 = Some p'" "\<not> terminated p'"
      "set (workers p') \<subseteq> {Exited}"
      using less.hyps [OF worker_action_decreases [OF a(2,1) less.prems(2) a(3)]] a closed_act [OF a(2)] less.prems(2)
      by blast
    with a show ?thesis by (intro exI [of _ "a # as"]) simp
  qed
qed

text \<open>The texts of the log files. If no write met a failure of the file system, every line is where it belongs.\<close>

definition all_healthy :: "pipeline \<Rightarrow> bool" where
  "all_healthy p \<longleftrightarrow> (\<forall>(ans, s) \<in> set (logged p). healthy ans)"

lemma log_texts_from_inv:
  assumes "pipe_inv cap w0 p" "ready_stream w0" "all_healthy p"
  shows "\<not> terminated p \<Longrightarrow> log_texts (writer p) = log_after (rotate_bytes w0) (map snd (logged p)) (log_texts w0)"
    and "\<exists>a c. log_after (rotate_bytes w0) (map snd (logged p)) (log_texts w0) = (a, c) \<and>
      (content (writer p) = c \<or> archived (writer p) = c)"
proof -
  obtain w1 where w1: "write_all (logged p) w0 = (Inr (), w1)"
    "writer p = w1 \<or> terminated p \<and> (\<exists>ans s e. write_sample ans s w1 = (Inl e, writer p))"
    using assms(1) by (auto simp: pipe_inv_def log_inv_p_def)
  have t: "log_texts w1 = log_after (rotate_bytes w0) (map snd (logged p)) (log_texts w0)"
    using write_all_healthy [OF assms(3) [unfolded all_healthy_def] assms(2)] w1(1) by auto
  then show "\<not> terminated p \<Longrightarrow> log_texts (writer p) = log_after (rotate_bytes w0) (map snd (logged p)) (log_texts w0)"
    using w1(2) by auto
  from w1(2) write_sample_fails have "content (writer p) = content w1 \<or> archived (writer p) = content w1" by blast
  with t show "\<exists>a c. log_after (rotate_bytes w0) (map snd (logged p)) (log_texts w0) = (a, c) \<and>
      (content (writer p) = c \<or> archived (writer p) = c)" by (metis log_texts_def)
qed

section \<open>Order with one worker\<close>

fun in_hand :: "worker \<Rightarrow> sensorhub_sample list" where
  "in_hand (Write_log s) = [s]"
| "in_hand w = []"

fun unpublished :: "worker \<Rightarrow> string list" where
  "unpublished (Send_udp s) = [sample_to_line s]"
| "unpublished (Send_tcp s) = [sample_to_line s]"
| "unpublished w = []"

definition order_inv :: "pipeline \<Rightarrow> bool" where
  "order_inv p \<longleftrightarrow> (\<exists>w. workers p = [w] \<and> popped (qt p) = map snd (logged p) @ in_hand w \<and>
     map (\<lambda>x. sample_to_line (snd x)) (logged p) = map snd (published p) @ unpublished w)"

lemma order_inv_effect: "effect p p' \<Longrightarrow> order_inv p \<Longrightarrow> order_inv p'"
  by (induction rule: effect.induct) (auto simp: order_inv_def at_Some goto_def)

lemma order_inv_reach: "reach p0 p \<Longrightarrow> order_inv p0 \<Longrightarrow> order_inv p"
  by (induction rule: reach.induct) (auto dest: act_effect intro: order_inv_effect)

section \<open>After the last worker\<close>

lemma complete_from_inv:
  assumes "pipe_inv cap w p" and "\<not> terminated p"
    and "workers p \<noteq> []" and "set (workers p) = {Exited}"
  shows "queue (sq p) = [] \<and> mset (map snd (logged p)) = mset (accepted (qt p)) \<and>
    mset (udp_sent p) = mset (map sample_to_line (accepted (qt p))) \<and>
    mset (map snd (published p)) = mset (map sample_to_line (accepted (qt p))) \<and>
    processed p = word_of_nat (length (accepted (qt p))) \<and> exported p = processed p \<and>
    received p = word_of_nat (length (accepted (qt p)) + rejected (qt p)) \<and>
    write_all (logged p) w = (Inr (), writer p)"
proof -
  have inv: "stages_inv p" "counts_inv cap p" "wake_inv p" "log_inv_p w p"
    using assms(1) by (simp_all add: pipe_inv_def)
  have exited: "\<forall>v \<in> set (workers p). v = Exited" using assms(4) by simp
  note none = total_zero [OF exited]
  have q: "queue (sq p) = []" using inv(3) assms(4) by (simp add: wake_inv_def)
  then have pop: "popped (qt p) = accepted (qt p)"
    using inv(2) by (simp add: counts_inv_def trace_inv_def)
  have lines: "mset (map (\<lambda>x. sample_to_line (snd x)) (logged p)) = image_mset sample_to_line (mset (accepted (qt p)))"
    and log: "mset (map snd (logged p)) = mset (accepted (qt p))"
    using inv(1) pop none [of to_write] by (auto simp: stages_inv_def multiset.map_comp comp_def)
  have "mset (map snd (published p)) = mset (map sample_to_line (accepted (qt p)))"
    using inv(1) lines none [of to_publish] by (auto simp: stages_inv_def)
  moreover from arg_cong [OF this, of size] have "length (published p) = length (accepted (qt p))" by simp
  ultimately show ?thesis
    using inv q log lines assms(2) none [of to_send] none [of "indicator Count_processed"]
      none [of "indicator Count_exported"]
    by (simp add: stages_inv_def counts_inv_def log_inv_p_def indicator_def)
qed

text \<open>In any state: what has not reached the log or the subscribers is queued or held by a worker.\<close>

lemma in_flight_from_inv:
  assumes "pipe_inv cap w p"
  shows "\<exists>held unsent. mset (accepted (qt p)) = mset (map snd (logged p)) + mset (queue (sq p)) + held \<and>
    size held \<le> length (workers p) \<and>
    mset (map (\<lambda>x. sample_to_line (snd x)) (logged p)) = mset (map snd (published p)) + unsent \<and>
    size unsent \<le> length (workers p)"
proof (intro exI conjI)
  have inv: "stages_inv p" "accepted (qt p) = popped (qt p) @ queue (sq p)"
    using assms by (simp_all add: pipe_inv_def counts_inv_def trace_inv_def)
  show "mset (accepted (qt p)) = mset (map snd (logged p)) + mset (queue (sq p)) + total to_write p"
    using inv by (simp add: stages_inv_def)
  show "mset (map (\<lambda>x. sample_to_line (snd x)) (logged p)) = mset (map snd (published p)) + total to_publish p"
    using inv(1) unfolding stages_inv_def by (elim conjE)
  have "size (to_write v) \<le> 1" "size (to_publish v) \<le> 1" for v by (cases v; simp)+
  then show "size (total to_write p) \<le> length (workers p)" "size (total to_publish p) \<le> length (workers p)"
    by (auto intro!: size_total_le)
qed

text \<open>The value of the counter of processed samples, as a number.\<close>

lemma processed_from_inv:
  assumes "pipe_inv cap w p"
  obtains n where "processed p = word_of_nat n" "n \<le> length (popped (qt p))"
proof -
  let ?k = "total (indicator Count_processed) p"
  have inv: "stages_inv p" "counts_inv cap p" using assms by (simp_all add: pipe_inv_def)
  from inv(1) have "length (popped (qt p)) = length (logged p) + size (total to_write p)"
    "length (logged p) = length (published p) + size (total to_publish p)"
    unfolding stages_inv_def by (metis size_mset size_union length_map)+
  then have "length (published p) - ?k \<le> length (popped (qt p))" by simp
  moreover have "processed p = word_of_nat (length (published p) - ?k)"
    using inv(2) by (simp add: counts_inv_def of_nat_diff)
  ultimately show thesis using that by blast
qed

lemma single_worker_prefix:
  assumes "reach (new_pipeline cap 1 w t) p"
  shows "prefix (map snd (logged p)) (accepted (qt p))"
    and "prefix (map snd (published p)) (map sample_to_line (map snd (logged p)))"
proof -
  have "order_inv (new_pipeline cap 1 w t)" by (simp add: order_inv_def new_pipeline_def)
  then have "order_inv p" by (rule order_inv_reach [OF assms])
  moreover have "accepted (qt p) = popped (qt p) @ queue (sq p)"
    using pipe_inv_reach [OF assms pipe_inv_new] by (simp add: pipe_inv_def counts_inv_def trace_inv_def)
  ultimately show "prefix (map snd (logged p)) (accepted (qt p))"
    and "prefix (map snd (published p)) (map sample_to_line (map snd (logged p)))"
    by (auto simp: order_inv_def comp_def)
qed

section \<open>Properties\<close>

text \<open>
  Property C5 (nothing is lost, every stage sees every sample once). For every number of workers and
  every interleaving: once all workers have exited, the queue is empty and the log writes, the UDP
  datagrams and the TCP broadcasts are each exactly one per accepted sample; the processed and exported
  counters are the number of accepted samples, and received is accepted plus rejected. The log file is
  the result of these writes in some sequential order.
\<close>

theorem pipeline_complete:
  assumes "reach (new_pipeline cap n w t) p" and "\<not> terminated p"
    and "workers p \<noteq> []" and "set (workers p) = {Exited}"
  shows "queue (sq p) = [] \<and> mset (map snd (logged p)) = mset (accepted (qt p)) \<and>
    mset (udp_sent p) = mset (map sample_to_line (accepted (qt p))) \<and>
    mset (map snd (published p)) = mset (map sample_to_line (accepted (qt p))) \<and>
    processed p = word_of_nat (length (accepted (qt p))) \<and> exported p = processed p \<and>
    received p = word_of_nat (length (accepted (qt p)) + rejected (qt p)) \<and>
    write_all (logged p) w = (Inr (), writer p)"
  using complete_from_inv [OF pipe_inv_reach [OF assms(1) pipe_inv_new] assms(2-4)] .

text \<open>A run with two workers, for the concrete instances below.\<close>

definition sample7 :: sensorhub_sample where
  "sample7 = zero_sample\<lparr>seq := 7\<rparr>"

definition log0 :: log_state where
  "log0 = new_log_writer ''log'' 0 Map.empty"

definition pipe0 :: pipeline where
  "pipe0 = new_pipeline 4 2 log0 new_tcp_broadcaster"

lemma reach_run: "reach p0 p \<Longrightarrow> run_actions as p = Some p' \<Longrightarrow> reach p0 p'"
  by (induction as arbitrary: p) (auto split: option.splits intro: reach.step)

definition demo_actions :: "action list" where
  "demo_actions = [Pop_at 0, Produce sample7 (Some 0), Pop_at 1, Write_at 1 good_log, Close_queue,
     Udp_at 1, Pop_at 0, Tcp_at 1 (\<lambda>_. Room 200), Count_processed_at 1, Count_exported_at 1, Pop_at 1]"

definition demo_run :: pipeline where
  "demo_run = the (run_actions demo_actions pipe0)"

lemma replicate_two: "replicate 2 x = [x, x]"
  by (simp add: numeral_2_eq_2)

lemmas demo_defs = demo_actions_def pipe0_def new_pipeline_def new_queue_def produce_def pop_at_def
  write_at_def udp_at_def tcp_at_def at_def goto_def push_def pop_def pop_ready_def close_def
  queue_step.simps write_sample_def log0_def new_log_writer_def open_if_needed_def has_parent_path_def
  good_log_def rotate_if_needed_def append_line_def Let_def replicate_two

lemma demo_ends: "\<exists>p. run_actions demo_actions pipe0 = Some p \<and> \<not> terminated p \<and> workers p = [Exited, Exited] \<and>
    accepted (qt p) = [sample7]"
  by (simp add: demo_defs)

lemma demo_run: "run_actions demo_actions pipe0 = Some demo_run" "\<not> terminated demo_run"
  "workers demo_run = [Exited, Exited]" "accepted (qt demo_run) = [sample7]"
  using demo_ends by (auto simp: demo_run_def)

lemma demo_reach: "reach (new_pipeline 4 2 log0 new_tcp_broadcaster) demo_run"
  using reach_run [OF reach.start demo_run(1)] by (simp add: pipe0_def)

theorem pipeline_complete_witness:
  "mset (udp_sent demo_run) = {#sample_to_line sample7#} \<and> processed demo_run = 1"
  using pipeline_complete [OF demo_reach demo_run(2)] by (simp add: demo_run)

text \<open>
  Property C6 (no lost wake-up). Whenever samples are queued and the process has not been terminated,
  some worker is neither blocked on the condition variable nor gone, so the pipeline cannot stall; and
  as long as some worker waits there are at least as many workers about to pop as queued samples.
\<close>

theorem pipeline_no_lost_wakeup:
  assumes "reach (new_pipeline cap n w t) p" and "0 < n" and "queue (sq p) \<noteq> []"
  shows "(\<exists>v \<in> set (workers p). v \<noteq> Waiting \<and> v \<noteq> Exited) \<and>
    (Waiting \<in> set (workers p) \<longrightarrow> length (queue (sq p)) \<le> count_list (workers p) At_pop)"
proof -
  have inv: "wake_inv p" using pipe_inv_reach [OF assms(1) pipe_inv_new] by (simp add: pipe_inv_def)
  have "length (workers p) = n" using reach_workers [OF assms(1)] by (simp add: new_pipeline_def)
  then have ne: "workers p \<noteq> []" using assms(2) by auto
  have count: "total (indicator At_pop) p = count_list (workers p) At_pop"
    by (rule total_indicator)
  have "Exited \<notin> set (workers p)" using inv assms(3) by (auto simp: wake_inv_def)
  moreover have "\<exists>v \<in> set (workers p). v \<noteq> Waiting"
  proof (cases "Waiting \<in> set (workers p)")
    case True
    then have "0 < count_list (workers p) At_pop"
      using inv assms(3) count by (cases "queue (sq p)") (auto simp: wake_inv_def)
    then have "At_pop \<in> set (workers p)" by (metis count_list_0_iff less_numeral_extra(3))
    then show ?thesis by blast
  next
    case False
    then show ?thesis using ne by (cases "workers p") auto
  qed
  ultimately show ?thesis using inv count by (auto simp: wake_inv_def)
qed

theorem pipeline_no_lost_wakeup_witness:
  "\<exists>v \<in> set (workers (the (run_actions [Pop_at 0, Produce sample7 (Some 0)] pipe0))). v \<noteq> Waiting \<and> v \<noteq> Exited"
proof -
  have r: "\<exists>p. run_actions [Pop_at 0, Produce sample7 (Some 0)] pipe0 = Some p \<and> queue (sq p) \<noteq> []"
    by (simp add: demo_defs)
  then obtain p where p: "run_actions [Pop_at 0, Produce sample7 (Some 0)] pipe0 = Some p" "queue (sq p) \<noteq> []"
    by blast
  then have "reach (new_pipeline 4 2 log0 new_tcp_broadcaster) p"
    using reach_run [OF reach.start p(1)] by (simp add: pipe0_def)
  from pipeline_no_lost_wakeup [OF this _ p(2)] p(1) show ?thesis by auto
qed

text \<open>
  Property C11 (shutdown terminates). After \<open>close\<close> the workers stop by themselves: any sequence of worker
  sections has bounded length, and when no worker section is possible any more, every worker has
  exited (or the process was terminated by an exception). Hence \<open>join\<close> returns.
\<close>

theorem pipeline_shutdown_terminates:
  assumes "reach (new_pipeline cap n w t) p" and "closed (sq p)" and "\<not> terminated p"
  shows "(\<forall>as p'. (\<forall>a \<in> set as. worker_action a) \<longrightarrow> run_actions as p = Some p' \<longrightarrow>
      length as \<le> 6 * (length (queue (sq p)) + length (workers p)) + 1) \<and>
    ((\<forall>a. worker_action a \<longrightarrow> act a p = None) \<longrightarrow> set (workers p) \<subseteq> {Exited})"
proof (intro conjI allI impI)
  fix as p' assume as: "\<forall>a \<in> set as. worker_action a" "run_actions as p = Some p'"
  have "total rank p \<le> 6 * length (workers p)" by (rule total_rank)
  with run_bound [OF as(2,1) assms(2)] show "length as \<le> 6 * (length (queue (sq p)) + length (workers p)) + 1"
    by (simp add: work_def)
next
  assume stuck: "\<forall>a. worker_action a \<longrightarrow> act a p = None"
  have "wake_inv p" using pipe_inv_reach [OF assms(1) pipe_inv_new] by (simp add: pipe_inv_def)
  then show "set (workers p) \<subseteq> {Exited}" using stuck_exited [OF _ assms(2,3)] stuck by fastforce
qed

theorem pipeline_shutdown_terminates_witness:
  "set (workers demo_run) \<subseteq> {Exited} \<and> closed (sq demo_run)"
proof -
  have c: "closed (sq demo_run)"
  proof -
    have "\<exists>p. run_actions demo_actions pipe0 = Some p \<and> closed (sq p)" by (simp add: demo_defs)
    then show ?thesis using demo_run(1) by auto
  qed
  have "\<forall>a. worker_action a \<longrightarrow> act a demo_run = None" using exited_stuck [of demo_run] by (simp add: demo_run)
  then show ?thesis
    using pipeline_shutdown_terminates [OF demo_reach c demo_run(2), THEN conjunct2] c by blast
qed

text \<open>
  Order with one worker. With a single worker thread, samples are logged and broadcast in
  the order in which they were accepted: what is logged is always a prefix of what was accepted, and
  what is broadcast a prefix of what is logged.
\<close>

theorem pipeline_single_worker_order:
  assumes "reach (new_pipeline cap 1 w t) p"
  shows "prefix (map snd (logged p)) (accepted (qt p)) \<and>
    prefix (map snd (published p)) (map sample_to_line (map snd (logged p)))"
  using single_worker_prefix [OF assms] by blast

text \<open>One worker and one subscriber.\<close>

definition solo_actions :: "action list" where
  "solo_actions = [Accept_tcp [Inr 5, Inl EAGAIN], Produce sample7 None, Pop_at 0, Write_at 0 good_log, Udp_at 0,
     Tcp_at 0 (\<lambda>_. Room 200)]"

definition solo_run :: pipeline where
  "solo_run = the (run_actions solo_actions (new_pipeline 4 1 log0 new_tcp_broadcaster))"

lemma solo_ends: "\<exists>p. run_actions solo_actions (new_pipeline 4 1 log0 new_tcp_broadcaster) = Some p \<and>
    map snd (logged p) = [sample7] \<and> published p = [(\<lambda>_. Room 200, sample_to_line sample7)] \<and> accepted (qt p) = [sample7] \<and>
    tcp_wire (tcp p) 5 = sample_to_line sample7 @ [nl]"
  using length_sample_to_line [of sample7]
  by (simp add: solo_actions_def demo_defs broadcast_line_spec new_tcp_broadcaster_def taken_def)

lemma solo_run: "run_actions solo_actions (new_pipeline 4 1 log0 new_tcp_broadcaster) = Some solo_run"
  "map snd (logged solo_run) = [sample7]" "published solo_run = [(\<lambda>_. Room 200, sample_to_line sample7)]"
  "accepted (qt solo_run) = [sample7]" "tcp_wire (tcp solo_run) 5 = sample_to_line sample7 @ [nl]"
  using solo_ends by (auto simp: solo_run_def)

theorem pipeline_single_worker_order_witness: "prefix [sample7] (accepted (qt solo_run))"
  using pipeline_single_worker_order [OF reach_run [OF reach.start solo_run(1)]] by (simp add: solo_run)

text \<open>
  An exception in a worker ends the process. When the log write of a worker throws, the
  process is terminated there and then: no thread takes another step, so queued samples are lost, the
  control socket is not removed and the exit code is not the 1 of the handler in \<open>main\<close>.
\<close>

theorem worker_exception_terminates:
  assumes "at p i = Some (Write_log s)" and "write_sample ans s (writer p) = (Inl e, w)"
  shows "\<exists>p'. act (Write_at i ans) p = Some p' \<and> terminated p' \<and> queue (sq p') = queue (sq p) \<and>
    (\<forall>a. act a p' = None)"
  using assms terminated_act [of "p\<lparr>writer := w, terminated := True\<rparr>"] by (simp add: write_at_def)

theorem worker_exception_terminates_witness:
  "\<exists>p'. act (Write_at 0 (good_log\<lparr>open_app_ok := False\<rparr>)) (pipe0\<lparr>workers := [Write_log sample7]\<rparr>) = Some p' \<and>
     terminated p'"
proof -
  have "at (pipe0\<lparr>workers := [Write_log sample7]\<rparr>) 0 = Some (Write_log sample7)"
    by (simp add: at_def pipe0_def new_pipeline_def)
  moreover have "write_sample (good_log\<lparr>open_app_ok := False\<rparr>) sample7 (writer (pipe0\<lparr>workers := [Write_log sample7]\<rparr>)) =
      (Inl (Runtime_error ''cannot open log file: log''), log0)"
    by (simp add: write_sample_def open_if_needed_def pipe0_def new_pipeline_def log0_def new_log_writer_def
        good_log_def has_parent_path_def Let_def)
  ultimately show ?thesis using worker_exception_terminates by blast
qed

end
