(* ===== verification/Daemon.thy ===== *)
theory Daemon
  imports Config Logger Control_Server Sensor_Device Pipeline
begin

text \<open>
  The daemon \<open>userspace/src/main.cpp\<close>: command line, sockets, the control commands, the callbacks of the
  event loop, start-up, main loop and shutdown. The state of the main thread is a \<open>daemon\<close> record: the
  control server with the reactor inside, and the rest of the program (\<open>app\<close>) that the callbacks
  share, the worker pipeline included. Between two sections of the main thread the workers run; what
  they do is part of the answers (a list of worker actions, \<open>sched\<close> before a callback). If one of them
  throws, the process ends there and the section of the main thread returns \<open>Process_terminated\<close>.

  The device behind the descriptor is represented by a state \<open>'w\<close> and its \<open>ioctl\<close> function; \<open>strerror\<close> and
  \<open>inet_pton\<close> of the C library are arguments.
\<close>

section \<open>Command line\<close>

definition is_config_opt :: "string \<Rightarrow> bool" where
  "is_config_opt a \<longleftrightarrow> a = ''-c'' \<or> a = ''--config''"

text \<open>\<open>None\<close>: the usage text was printed and the process exits with 0.\<close>

fun parse_config_arg :: "string list \<Rightarrow> string \<Rightarrow> string option" where
  "parse_config_arg [] config_path = Some config_path"
| "parse_config_arg [a] config_path =
     (if a = ''-h'' \<or> a = ''--help'' then None else Some config_path)"
| "parse_config_arg (a # b # rest) config_path =
     (if is_config_opt a then parse_config_arg rest b
      else if a = ''-h'' \<or> a = ''--help'' then None
      else parse_config_arg (b # rest) config_path)"

section \<open>Shared state\<close>

record 'w app =
  pipe :: pipeline
  running :: bool
  simulate :: bool
  config_path :: string
  file_system :: "string \<Rightarrow> string option"
  device :: 'w
  sim_device :: simulated_device
  logs :: logger

text \<open>
  The signal masks of the threads. A new thread inherits the mask of its creator, which is the main thread for
  all workers.
\<close>

datatype signo = SIGINT | SIGTERM | Other_signal nat

record thread_masks =
  main_mask :: "signo set"
  worker_masks :: "signo set list"

record 'w daemon =
  control :: control_server
  app :: "'w app"
  source_fd :: fd
  signal_fd :: fd
  control_fd :: fd
  masks :: thread_masks
  socket_path :: "string option"
  udp_fd :: fd

section \<open>Control commands\<close>

definition stat_line :: "string \<Rightarrow> nat \<Rightarrow> string" where
  "stat_line name n = name @ ''='' @ dec n @ [nl]"

text \<open>
  The workers run while the report is made: \<open>gaps n\<close> is what they do between the \<open>n\<close>-th access to a
  counter and the next one (a schedule that is not possible is one in which they do nothing), and
  \<open>view gaps n p\<close> is the pipeline at the access with number \<open>n\<close>.
\<close>

definition run_workers :: "action list \<Rightarrow> pipeline \<Rightarrow> pipeline" where
  "run_workers as p = (if list_all worker_action as then (case run_actions as p of None \<Rightarrow> p | Some p1 \<Rightarrow> p1) else p)"

primrec view :: "(nat \<Rightarrow> action list) \<Rightarrow> nat \<Rightarrow> pipeline \<Rightarrow> pipeline" where
  "view gaps 0 p = p"
| "view gaps (Suc n) p = run_workers (gaps n) (view gaps n p)"

definition build_stats_text :: "(errno \<Rightarrow> string) \<Rightarrow> 'w ioctl_call \<Rightarrow> (nat \<Rightarrow> action list) \<Rightarrow> 'w app \<Rightarrow> string \<times> 'w app" where
  "build_stats_text strerror ioctl gaps a =
     (let head =
        ''mode='' @ (if simulate a then ''simulate'' else ''driver'') @ [nl] @
        stat_line ''received'' (unat (received (view gaps 0 (pipe a)))) @
        stat_line ''processed'' (unat (processed (view gaps 1 (pipe a)))) @
        stat_line ''exported'' (unat (exported (view gaps 2 (pipe a)))) @
        stat_line ''tcp_clients'' (client_count (tcp (view gaps 3 (pipe a)))) @
        stat_line ''queue_size'' (unat (bq_size (sq (view gaps 4 (pipe a))))) @
        stat_line ''queue_dropped'' (unat (bq_dropped (sq (view gaps 5 (pipe a)))));
          a1 = a\<lparr>pipe := view gaps 5 (pipe a)\<rparr>
      in if simulate a then (head, a1)
         else case get_stats ioctl (device a) of
                (Inr st, w) \<Rightarrow>
                  (head @ stat_line ''driver_generated'' (unat (generated st)) @
                   stat_line ''driver_injected'' (unat (injected st)) @
                   stat_line ''driver_dropped'' (unat (dropped_samples st)) @
                   stat_line ''driver_fifo_bytes'' (unat (fifo_bytes st)), a1\<lparr>device := w\<rparr>)
              | (Inl e, w) \<Rightarrow> (head @ ''driver_error='' @ what strerror e @ [nl], a1\<lparr>device := w\<rparr>))"

definition cmd_blank :: "char \<Rightarrow> bool" where
  "cmd_blank c \<longleftrightarrow> c = nl \<or> c = cr \<or> c = CHR '' ''"

definition strip_command :: "string \<Rightarrow> string" where
  "strip_command cmd = rev (dropWhile cmd_blank (rev cmd))"

definition handle_control_command :: "(errno \<Rightarrow> string) \<Rightarrow> 'w ioctl_call \<Rightarrow> (nat \<Rightarrow> action list) \<Rightarrow> 'w app handler" where
  "handle_control_command strerror ioctl gaps cmd0 a =
     (let cmd = strip_command cmd0
      in if cmd = ''stats''
         then (case build_stats_text strerror ioctl gaps a of (reply, a1) \<Rightarrow> (Inr reply, a1))
         else if cmd = ''reload''
         then (case load_config_file (file_system a) (config_path a) of
                 Inl e \<Rightarrow> (Inl e, a)
               | Inr reloaded \<Rightarrow>
                   (if simulate a then (Inr (''ok'' @ [nl]), a)
                    else case set_config ioctl
                                \<lparr>interval_ms = sensor_interval_ms reloaded, enabled = 1\<rparr> (device a) of
                           (Inl e, w) \<Rightarrow> (Inl e, a\<lparr>device := w\<rparr>)
                         | (Inr _, w) \<Rightarrow> (Inr (''ok'' @ [nl]), a\<lparr>device := w\<rparr>)))
         else if cmd = ''shutdown'' then (Inr (''ok'' @ [nl]), a\<lparr>running := False\<rparr>)
         else (Inr (''unknown command'' @ [nl]), a))"

section \<open>Callbacks\<close>

text \<open>
  The answers of the operating system during one callback, and what the workers do meanwhile.
  \<open>config_files\<close> are the files at the time of the callback: the configuration may have been edited since the
  daemon was started. \<open>now_tid\<close> is the time and the thread of a log message.
\<close>

type_synonym stamp = "tm \<times> string"

record daemon_io =
  sched :: "action list"
  dev_reads :: "byte io_in list"
  timer_read :: "errno + u64"
  clock :: "nat \<Rightarrow> u64"
  push_sched :: "(action list \<times> nat option) list"
  control_accepts :: "accept_answer list"
  tcp_accepts :: "(action list \<times> (errno + fd)) list"
  stats_gaps :: "nat \<Rightarrow> action list"
  client_io :: ready_io
  config_files :: "string \<Rightarrow> string option"
  now_tid :: stamp

text \<open>
  The loop over the samples; before each push the workers may run, and if one of them throws, no more
  samples are pushed.
\<close>

fun push_samples :: "sensorhub_sample list \<Rightarrow> (action list \<times> nat option) list \<Rightarrow> pipeline \<Rightarrow> pipeline option" where
  "push_samples [] sch p = Some p"
| "push_samples (s # ss) [] p = None"
| "push_samples (s # ss) ((as, who) # sch) p =
     (if \<not> list_all worker_action as then None
      else case run_actions as p of
             None \<Rightarrow> None
           | Some p1 \<Rightarrow>
               (if terminated p1 then Some p1
                else case produce s who p1 of
                       None \<Rightarrow> None
                     | Some p2 \<Rightarrow> push_samples ss sch p2))"

definition read_samples :: "daemon_io \<Rightarrow> 'w app \<Rightarrow> (sensorhub_sample list result \<times> 'w app) option" where
  "read_samples io a =
     (if simulate a
      then (case sim_read_available (clock io) (timer_read io) (sim_device a) of
              (r, s) \<Rightarrow> Some (r, a\<lparr>sim_device := s\<rparr>))
      else map_option (\<lambda>r. (r, a)) (read_available (dev_reads io) []))"

definition alive :: "pipeline \<Rightarrow> unit result" where
  "alive p = (if terminated p then Inl Process_terminated else Inr ())"

definition source_callback :: "daemon_io \<Rightarrow> 'w app \<Rightarrow> (unit result \<times> 'w app) option" where
  "source_callback io a =
     (case read_samples io a of
        None \<Rightarrow> None
      | Some (Inl e, a1) \<Rightarrow> Some (Inl e, a1)
      | Some (Inr samples, a1) \<Rightarrow>
          map_option (\<lambda>p. (alive p, a1\<lparr>pipe := p\<rparr>)) (push_samples samples (push_sched io) (pipe a1)))"

definition signal_callback :: "daemon_io \<Rightarrow> 'w app \<Rightarrow> 'w app" where
  "signal_callback io a =
     a\<lparr>logs := log_info (fst (now_tid io)) (snd (now_tid io)) ''received signal, shutting down'' (logs a),
       running := False\<rparr>"

text \<open>
  The accept loop of the broadcaster takes the mutex once per new connection, so the workers may run, and
  broadcast, between two accepts.
\<close>

fun accept_subscribers :: "(action list \<times> (errno + fd)) list \<Rightarrow> pipeline \<Rightarrow> (unit result \<times> pipeline) option" where
  "accept_subscribers [] p = None"
| "accept_subscribers ((as, x) # rest) p =
     (if \<not> list_all worker_action as then None
      else case run_actions as p of
             None \<Rightarrow> None
           | Some p1 \<Rightarrow>
               (if terminated p1 then Some (Inl Process_terminated, p1)
                else case x of
                       Inl e \<Rightarrow> Some (accept_failed e, p1)
                     | Inr f \<Rightarrow> accept_subscribers rest (p1\<lparr>tcp := add_subscriber f (tcp p1)\<rparr>)))"

definition tcp_callback :: "daemon_io \<Rightarrow> 'w app \<Rightarrow> (unit result \<times> 'w app) option" where
  "tcp_callback io a = map_option (\<lambda>(r, p). (r, a\<lparr>pipe := p\<rparr>)) (accept_subscribers (tcp_accepts io) (pipe a))"

text \<open>The workers run while the main thread waits; a terminated process runs no callback.\<close>

definition let_workers_run :: "action list \<Rightarrow> 'w daemon \<Rightarrow> (unit result \<times> 'w daemon) option" where
  "let_workers_run as d =
     (if \<not> list_all worker_action as then None
      else map_option (\<lambda>p. (alive p, d\<lparr>app := (app d)\<lparr>pipe := p\<rparr>\<rparr>)) (run_actions as (pipe (app d))))"

definition run_callback :: "(errno \<Rightarrow> string) \<Rightarrow> 'w ioctl_call \<Rightarrow> ('w daemon, daemon_io) invoker" where
  "run_callback strerror ioctl cb events io d =
     (case cb of
        Source_cb \<Rightarrow> map_option (\<lambda>(r, a1). (r, d\<lparr>app := a1\<rparr>)) (source_callback io (app d))
      | Signal_cb \<Rightarrow> Some (Inr (), d\<lparr>app := signal_callback io (app d)\<rparr>)
      | Control_accept_cb \<Rightarrow>
          map_option (\<lambda>(r, c). (r, d\<lparr>control := c\<rparr>)) (accept_ready (control_accepts io) (control d))
      | Tcp_accept_cb \<Rightarrow> map_option (\<lambda>(r, a1). (r, d\<lparr>app := a1\<rparr>)) (tcp_callback io (app d))
      | Client_cb f \<Rightarrow>
          map_option (\<lambda>(r, c, a1). (bindR (alive (pipe a1)) (\<lambda>_. r), d\<lparr>control := c, app := a1\<rparr>))
            (ready (handle_control_command strerror ioctl (stats_gaps io)) f events (client_io io)
               (control d, (app d)\<lparr>file_system := config_files io\<rparr>)))"

definition invoke :: "(errno \<Rightarrow> string) \<Rightarrow> 'w ioctl_call \<Rightarrow> ('w daemon, daemon_io) invoker" where
  "invoke strerror ioctl cb events io d =
     and_then (let_workers_run (sched io) d) (run_callback strerror ioctl cb events io)"

definition daemon_loop :: "'w daemon \<Rightarrow> epoll_loop" where
  "daemon_loop d = loop (control d)"

text \<open>A round of the main loop: the workers run while \<open>epoll_wait\<close> waits, then its events are dispatched.\<close>

type_synonym wait_step = "action list \<times> daemon_io wait_answer"

definition loop_step :: "(errno \<Rightarrow> string) \<Rightarrow> 'w ioctl_call \<Rightarrow> wait_step \<Rightarrow> 'w daemon \<Rightarrow> (unit result \<times> 'w daemon) option" where
  "loop_step strerror ioctl step d =
     and_then (let_workers_run (fst step) d) (run_once daemon_loop (invoke strerror ioctl) (snd step))"

fun main_loop :: "(errno \<Rightarrow> string) \<Rightarrow> 'w ioctl_call \<Rightarrow> wait_step list \<Rightarrow> 'w daemon \<Rightarrow> (unit result \<times> 'w daemon) option" where
  "main_loop strerror ioctl [] d = (if running (app d) then None else Some (Inr (), d))"
| "main_loop strerror ioctl (step # rest) d =
     (if running (app d)
      then and_then (loop_step strerror ioctl step d) (\<lambda>d1. main_loop strerror ioctl rest d1)
      else Some (Inr (), d))"

section \<open>Start-up\<close>

record startup_answers =
  udp_socket_res :: "errno + fd"
  tcp_answers :: listen_answers
  thread_failure :: "nat option"
  dev_open_res :: "errno + fd"
  settime_err :: "errno option"
  sigmask_err :: "errno option"
  signalfd_res :: "errno + fd"
  sock_mkdir_err :: "string option"
  sock_socket_res :: "errno + fd"
  sock_bind_err :: "errno option"
  sock_listen_err :: "errno option"
  epoll_create_res :: "errno + fd"
  add_source_err :: "errno option"
  add_signal_err :: "errno option"
  add_control_err :: "errno option"
  add_tcp_err :: "errno option"
  initial_mask :: "signo set"

definition start_thread :: "thread_masks \<Rightarrow> thread_masks" where
  "start_thread m = m\<lparr>worker_masks := worker_masks m @ [main_mask m]\<rparr>"

text \<open>
  The loop that starts the workers: \<open>fail\<close> is the number of the thread that cannot be created, if any; its
  constructor throws \<open>std::system_error\<close>.
\<close>

fun start_workers :: "nat option \<Rightarrow> nat \<Rightarrow> thread_masks \<Rightarrow> unit result \<times> thread_masks" where
  "start_workers fail 0 m = (Inr (), m)"
| "start_workers fail (Suc n) m =
     (if fail = Some (length (worker_masks m)) then (Inl (System_error ''thread''), m)
      else start_workers fail n (start_thread m))"

text \<open>\<open>pthread_sigmask\<close> changes the mask of the calling thread only.\<close>

definition create_signal_fd :: "startup_answers \<Rightarrow> thread_masks \<Rightarrow> (fd \<times> thread_masks) result" where
  "create_signal_fd ans m =
     (case sigmask_err ans of
        Some e \<Rightarrow> Inl (Sys_error ''pthread_sigmask'' e)
      | None \<Rightarrow>
          (case signalfd_res ans of
             Inl e \<Rightarrow> Inl (Sys_error ''signalfd'' e)
           | Inr f \<Rightarrow> Inr (f, m\<lparr>main_mask := main_mask m \<union> {SIGINT, SIGTERM}\<rparr>)))"

text \<open>The second component of the next two results lists the descriptors closed on the way out.\<close>

definition create_udp_socket :: "(string \<Rightarrow> u32 option) \<Rightarrow> startup_answers \<Rightarrow> AppConfig \<Rightarrow> fd result \<times> fd list" where
  "create_udp_socket inet_pton ans cfg =
     (case udp_socket_res ans of
        Inl e \<Rightarrow> (Inl (Sys_error ''socket UDP'' e), [])
      | Inr f \<Rightarrow>
          (case inet_pton (udp_export_host cfg) of
             None \<Rightarrow> (Inl (Runtime_error (''invalid udp_export_host: '' @ udp_export_host cfg)), [f])
           | Some addr \<Rightarrow> (Inr f, [])))"

text \<open>\<open>sockaddr_un.sun_path\<close> has 108 bytes.\<close>

definition create_control_socket :: "startup_answers \<Rightarrow> string \<Rightarrow> fd result \<times> fd list" where
  "create_control_socket ans p =
     (if has_parent_path p \<and> sock_mkdir_err ans \<noteq> None
      then (Inl (Filesystem_error (the (sock_mkdir_err ans))), [])
      else case sock_socket_res ans of
             Inl e \<Rightarrow> (Inl (Sys_error ''socket AF_UNIX'' e), [])
           | Inr f \<Rightarrow>
               (if length p \<ge> 108 then (Inl (Runtime_error ''control socket path is too long''), [f])
                else case sock_bind_err ans of
                       Some e \<Rightarrow> (Inl (Sys_error ''bind control socket'' e), [f])
                     | None \<Rightarrow>
                         (case sock_listen_err ans of
                            Some e \<Rightarrow> (Inl (Sys_error ''listen control socket'' e), [f])
                          | None \<Rightarrow> (Inr f, []))))"

definition open_source :: "startup_answers \<Rightarrow> AppConfig \<Rightarrow> (fd \<times> simulated_device) result" where
  "open_source ans cfg =
     (if simulate_device cfg
      then (case start (dev_open_res ans) (settime_err ans) (sensor_interval_ms cfg) new_simulated_device of
              (Inl e, _) \<Rightarrow> Inl e
            | (Inr _, s) \<Rightarrow> Inr (timer_fd s, s))
      else (case open_device (dev_open_res ans) (device_path cfg) new_sensor_device of
              (Inl e, _) \<Rightarrow> Inl e
            | (Inr _, s) \<Rightarrow> Inr (dev_fd s, new_simulated_device)))"

definition register_cb :: "errno option \<Rightarrow> fd \<Rightarrow> callback \<Rightarrow> epoll_loop \<Rightarrow> epoll_loop result" where
  "register_cb err f cb l = (case add err f EPOLLIN cb l of (Inl e, _) \<Rightarrow> Inl e | (Inr _, l1) \<Rightarrow> Inr l1)"

definition register_all :: "startup_answers \<Rightarrow> fd \<Rightarrow> fd \<Rightarrow> fd \<Rightarrow> fd \<Rightarrow> epoll_loop \<Rightarrow> epoll_loop result" where
  "register_all ans src sig ctl tcpf l =
     bindR (register_cb (add_source_err ans) src Source_cb l) (\<lambda>l1.
     bindR (register_cb (add_signal_err ans) sig Signal_cb l1) (\<lambda>l2.
     bindR (register_cb (add_control_err ans) ctl Control_accept_cb l2) (\<lambda>l3.
       register_cb (add_tcp_err ans) tcpf Tcp_accept_cb l3)))"

text \<open>\<open>nt k\<close> is the time and the thread of the \<open>k\<close>-th message of \<open>main\<close>.\<close>

definition log_infos :: "(nat \<Rightarrow> stamp) \<Rightarrow> string list \<Rightarrow> logger \<Rightarrow> logger" where
  "log_infos nt ms lg = fold (\<lambda>(k, m). log_info (fst (nt k)) (snd (nt k)) m) (List.enumerate 0 ms) lg"

definition boot_messages :: "AppConfig \<Rightarrow> string list" where
  "boot_messages cfg = [''starting sensorhubd'',
     if simulate_device cfg then ''using simulated timerfd device''
     else ''using kernel driver device: '' @ device_path cfg,
     ''sensorhubd is ready'']"

text \<open>The part of \<open>main\<close> after the workers were started, up to the main loop.\<close>

definition setup_late :: "startup_answers \<Rightarrow> AppConfig \<Rightarrow> string \<Rightarrow> (string \<Rightarrow> string option) \<Rightarrow> fd \<Rightarrow>
    tcp_broadcaster \<Rightarrow> thread_masks \<Rightarrow> (nat \<Rightarrow> stamp) \<Rightarrow> 'w \<Rightarrow> 'w daemon result" where
  "setup_late ans cfg cpath fs udp t m nt w =
     bindR (open_source ans cfg) (\<lambda>(src, sim).
     bindR (create_signal_fd ans m) (\<lambda>(sig, m1).
     bindR (fst (create_control_socket ans (control_socket cfg))) (\<lambda>ctl.
     bindR (new_epoll_loop (epoll_create_res ans)) (\<lambda>l.
     bindR (register_all ans src sig ctl (listen_fd t) l) (\<lambda>l1.
       Inr \<lparr>control = (new_control_server l)\<lparr>loop := l1\<rparr>,
            app = \<lparr>pipe = new_pipeline (queue_capacity cfg) (unat (worker_threads cfg))
                            (new_log_writer (log_file cfg) (log_rotate_bytes cfg) fs) t,
                   running = True, simulate = simulate_device cfg, config_path = cpath,
                   file_system = fs, device = w, sim_device = sim,
                   logs = log_infos nt (boot_messages cfg) new_logger\<rparr>,
            source_fd = src, signal_fd = sig, control_fd = ctl, masks = m1,
            socket_path = Some (control_socket cfg), udp_fd = udp\<rparr>)))))"

text \<open>
  \<open>Failed\<close>: the handler of \<open>main\<close> reports the exception and returns 1; the first list holds the messages
  logged before, also for \<open>Crashed\<close>, the second one the descriptors that were closed, by the code or by the
  destructors of the objects made so far. \<open>Crashed\<close>: worker threads exist
  when the exception unwinds the stack, so a joinable \<open>std::thread\<close> is destroyed and the process
  ends in \<open>std::terminate\<close>; this is also the case when a later thread cannot be created.
\<close>

datatype 'w startup = Usage | Failed exn "string list" "fd list" | Crashed exn "string list" | Ready "'w daemon"

definition main_setup :: "(string \<Rightarrow> u32 option) \<Rightarrow> startup_answers \<Rightarrow> string list \<Rightarrow>
    (string \<Rightarrow> string option) \<Rightarrow> (nat \<Rightarrow> stamp) \<Rightarrow> 'w \<Rightarrow> 'w startup" where
  "main_setup inet_pton ans args fs nt w =
     (case parse_config_arg args ''config/sensorhub.conf'' of
        None \<Rightarrow> Usage
      | Some cpath \<Rightarrow>
          (case load_config_file fs cpath of
             Inl e \<Rightarrow> Failed e [] []
           | Inr cfg \<Rightarrow>
               (case create_udp_socket inet_pton ans cfg of
                  (Inl e, cl) \<Rightarrow> Failed e [''starting sensorhubd''] cl
                | (Inr udp, _) \<Rightarrow>
                    (case listen_on (tcp_answers ans) (tcp_listen_port cfg) new_tcp_broadcaster of
                       (Inl e, t) \<Rightarrow> Failed e [''starting sensorhubd''] (tcp_closed t @ [udp])
                     | (Inr _, t) \<Rightarrow>
                         (case start_workers (thread_failure ans) (unat (worker_threads cfg))
                                 \<lparr>main_mask = initial_mask ans, worker_masks = []\<rparr> of
                            (Inl e, m) \<Rightarrow>
                              (if worker_masks m = []
                               then Failed e [''starting sensorhubd''] (tcp_closed t @ [listen_fd t, udp])
                               else Crashed e [''starting sensorhubd''])
                          | (Inr _, m) \<Rightarrow>
                              (case setup_late ans cfg cpath fs udp t m nt w of
                                 Inl e \<Rightarrow> Crashed e (take (case open_source ans cfg of Inl _ \<Rightarrow> 1 | Inr _ \<Rightarrow> 2) (boot_messages cfg))
                               | Inr d \<Rightarrow> Ready d))))))"

section \<open>Shutdown\<close>

text \<open>
  The end of \<open>main\<close>: close the queue, join the workers, remove the socket. \<open>before\<close> is what the workers do
  until the queue is closed, \<open>joins\<close> what they do while \<open>main\<close> waits for them.
\<close>

definition close_queue :: "'w daemon \<Rightarrow> (unit result \<times> 'w daemon) option" where
  "close_queue d = map_option (\<lambda>p. (Inr (), d\<lparr>app := (app d)\<lparr>pipe := p\<rparr>\<rparr>)) (act Close_queue (pipe (app d)))"

definition joined :: "(nat \<Rightarrow> stamp) \<Rightarrow> 'w daemon \<Rightarrow> (unit result \<times> 'w daemon) option" where
  "joined nt d =
     (if set (workers (pipe (app d))) \<subseteq> {Exited}
      then Some (Inr (), d\<lparr>app := (app d)\<lparr>logs := log_info (fst (nt 3)) (snd (nt 3)) ''sensorhubd stopped'' (logs (app d))\<rparr>,
                           socket_path := None\<rparr>)
      else None)"

definition finish :: "action list \<Rightarrow> action list \<Rightarrow> (nat \<Rightarrow> stamp) \<Rightarrow> 'w daemon \<Rightarrow> (unit result \<times> 'w daemon) option" where
  "finish before joins nt d =
     and_then (let_workers_run before d) (\<lambda>d1.
     and_then (close_queue d1) (\<lambda>d2.
     and_then (let_workers_run joins d2) (joined nt)))"

text \<open>
  The locals of \<open>main\<close> that own descriptors, in the order of their declarations. At the end of the block their
  destructors run in the reverse order. The descriptor inside the file stream of \<open>writer\<close> is not listed: the code
  never sees it, and \<open>std::ofstream\<close> closes it.
\<close>

datatype main_local =
    Udp_local | Tcp_local | Real_device_local | Simulated_device_local | Signal_local | Control_fd_local
  | Loop_local | Control_local

definition main_locals :: "main_local list" where
  "main_locals = [Udp_local, Tcp_local, Real_device_local, Simulated_device_local, Signal_local, Control_fd_local,
     Loop_local, Control_local]"

text \<open>
  What the destructor of a local closes. Only one of the two devices has been opened, and its descriptor is \<open>source_fd\<close>.
  The members of the broadcaster are destroyed in reverse order too: the clients before the listening socket.
\<close>

fun local_closes :: "'w daemon \<Rightarrow> main_local \<Rightarrow> fd list" where
  "local_closes d Udp_local = [udp_fd d]"
| "local_closes d Tcp_local = tcp_clients (tcp (pipe (app d))) @ [listen_fd (tcp (pipe (app d)))]"
| "local_closes d Real_device_local = (if simulate (app d) then [] else [source_fd d])"
| "local_closes d Simulated_device_local = (if simulate (app d) then [source_fd d] else [])"
| "local_closes d Signal_local = [signal_fd d]"
| "local_closes d Control_fd_local = [control_fd d]"
| "local_closes d Loop_local = [epoll_fd (loop (control d))]"
| "local_closes d Control_local = drop (length (closed_fds (control d))) (closed_fds (destroy (control d)))"

text \<open>
  All calls of \<open>close\<close> of a process that returns from \<open>main\<close> in state \<open>d\<close>: the connections that were closed
  while the daemon ran, then those of the destructors.
\<close>

definition process_closes :: "'w daemon \<Rightarrow> fd list" where
  "process_closes d = closed_fds (control d) @ tcp_closed (tcp (pipe (app d))) @
     concat (map (local_closes d) (rev main_locals))"

datatype outcome = Exit nat | Terminate

definition daemon_main :: "(errno \<Rightarrow> string) \<Rightarrow> 'w ioctl_call \<Rightarrow> (string \<Rightarrow> u32 option) \<Rightarrow>
    startup_answers \<Rightarrow> wait_step list \<Rightarrow> action list \<Rightarrow> action list \<Rightarrow> (nat \<Rightarrow> stamp) \<Rightarrow> string list \<Rightarrow>
    (string \<Rightarrow> string option) \<Rightarrow> 'w \<Rightarrow> (outcome \<times> logger \<times> 'w daemon option) option" where
  "daemon_main strerror ioctl inet_pton ans waits before joins nt args fs w =
     (case main_setup inet_pton ans args fs nt w of
        Usage \<Rightarrow> Some (Exit 0, new_logger, None)
      | Failed e ms cl \<Rightarrow>
          Some (Exit 1, log_error (fst (nt (length ms))) (snd (nt (length ms))) (what strerror e) (log_infos nt ms new_logger), None)
      | Crashed e ms \<Rightarrow> Some (Terminate, log_infos nt ms new_logger, None)
      | Ready d \<Rightarrow>
          (case and_then (main_loop strerror ioctl waits d) (finish before joins nt) of
             None \<Rightarrow> None
           | Some (Inl e, d1) \<Rightarrow> Some (Terminate, logs (app d1), Some d1)
           | Some (Inr _, d1) \<Rightarrow> Some (Exit 0, logs (app d1), Some d1)))"

end
