(* ===== verification/Daemon_Properties.thy ===== *)
theory Daemon_Properties
  imports Daemon
begin

text \<open>
  What the daemon guarantees: the invariant of the main loop (an interpretation of the reactor
  contract on the daemon's callbacks), the control commands, start-up and shutdown, and signals.
\<close>

section \<open>Callbacks and the pipeline\<close>

text \<open>While the main thread works, the pipeline changes by worker actions only.\<close>

definition worker_run :: "pipeline \<Rightarrow> pipeline \<Rightarrow> bool" where
  "worker_run p p' \<longleftrightarrow> (\<exists>as. list_all worker_action as \<and> run_actions as p = Some p')"

lemma worker_run_refl [simp]: "worker_run p p"
  by (auto simp: worker_run_def intro: exI [of _ "[]"])

lemma worker_run_trans: "worker_run p p1 \<Longrightarrow> worker_run p1 p2 \<Longrightarrow> worker_run p p2"
  unfolding worker_run_def by (metis list_all_append option.simps(5) run_actions_append)

lemma worker_run_workers [simp]: "worker_run p (run_workers as p)"
  by (auto simp: run_workers_def worker_run_def intro: exI [of _ "[]"] split: option.splits)

lemma worker_run_view [simp]: "worker_run p (view gaps n p)"
  by (induction n) (auto intro: worker_run_trans)

lemma handler_run: "worker_run (pipe a) (pipe (snd (handle_control_command strerror ioctl gaps cmd a)))"
  by (auto simp: handle_control_command_def build_stats_text_def Let_def simp del: view.simps split: prod.splits sum.splits)

lemma run_actions_inv [inv_intros]:
  "run_actions as p = Some p' \<Longrightarrow> pipe_inv cap w0 p \<Longrightarrow> pipe_inv cap w0 p'"
  by (induction as arbitrary: p) (auto split: option.splits intro: pipe_inv_act)

lemma produce_inv [inv_intros]: "produce s who p = Some p' \<Longrightarrow> pipe_inv cap w0 p \<Longrightarrow> pipe_inv cap w0 p'"
  using pipe_inv_act [of "Produce s who" p p'] by simp

lemma push_samples_inv [inv_intros]:
  "push_samples ss sch p = Some p' \<Longrightarrow> pipe_inv cap w0 p \<Longrightarrow> pipe_inv cap w0 p'"
  by (induction ss sch p rule: push_samples.induct)
    (auto split: if_splits option.splits dest: run_actions_inv produce_inv)

lemma worker_run_inv: "worker_run p p' \<Longrightarrow> pipe_inv cap w0 p \<Longrightarrow> pipe_inv cap w0 p'"
  by (auto simp: worker_run_def intro: run_actions_inv)

text \<open>One round of the accept loop of the broadcaster.\<close>

lemma accept_subscribers_step:
  assumes "accept_subscribers ((as, x) # rest) p = Some (r, p')"
  obtains (killed) "worker_run p p'" "run_actions as p = Some p'" "terminated p'" "r = Inl Process_terminated"
    | (ends) e where "worker_run p p'" "run_actions as p = Some p'" "\<not> terminated p'" "x = Inl e" "r = accept_failed e"
    | (accepts) f p1 where "worker_run p p1" "run_actions as p = Some p1" "\<not> terminated p1" "x = Inr f"
        "accept_subscribers rest (p1\<lparr>tcp := add_subscriber f (tcp p1)\<rparr>) = Some (r, p')"
proof -
  obtain p1 where p1: "list_all worker_action as" "run_actions as p = Some p1"
    using assms by (auto split: if_splits option.splits)
  then have "worker_run p p1" by (auto simp: worker_run_def)
  with that assms p1 show thesis by (cases x) (auto split: if_splits)
qed

text \<open>Worker actions take samples from the queue and put none in.\<close>

lemma worker_action_queue:
  assumes "act a p = Some p'" "worker_action a"
  shows "accepted (qt p') = accepted (qt p) \<and> rejected (qt p') = rejected (qt p) \<and> received p' = received p \<and>
    prefix (popped (qt p)) (popped (qt p'))"
proof (cases a)
  case (Pop_at i)
  then have "pop_at i p = Some p'" using assms by simp
  then show ?thesis by (cases rule: pop_at_cases) simp_all
next
  case (Write_at i ans)
  then have "write_at i ans p = Some p'" using assms by simp
  then show ?thesis by (cases rule: write_at_cases) simp_all
next
  case (Udp_at i)
  then have "udp_at i p = Some p'" using assms by simp
  then show ?thesis by (cases rule: udp_at_cases) simp_all
next
  case (Tcp_at i ans)
  then have "tcp_at i ans p = Some p'" using assms by simp
  then show ?thesis by (cases rule: tcp_at_cases) simp_all
qed (use assms in \<open>auto split: if_splits\<close>)

lemma worker_run_queue:
  "run_actions as p = Some p' \<Longrightarrow> list_all worker_action as \<Longrightarrow>
     accepted (qt p') = accepted (qt p) \<and> rejected (qt p') = rejected (qt p) \<and> received p' = received p \<and>
     prefix (popped (qt p)) (popped (qt p'))"
proof (induction as arbitrary: p)
  case (Cons a as)
  then obtain p1 where "act a p = Some p1" "run_actions as p1 = Some p'" by (auto split: option.splits)
  then show ?case using Cons worker_action_queue [of a p p1] by (auto intro: prefix_order.trans)
qed simp

text \<open>Without interference the loop is the one of \<open>Tcp_Broadcaster\<close>.\<close>

lemma accept_subscribers_quiet:
  "\<not> terminated p \<Longrightarrow> accept_subscribers (map (Pair []) xs) p =
     map_option (\<lambda>(r, t). (r, p\<lparr>tcp := t\<rparr>)) (tcp_accept_ready xs (tcp p))"
proof (induction xs arbitrary: p)
  case (Cons x xs)
  then show ?case by (cases x) (auto simp: option.map_comp comp_def case_prod_unfold)
qed simp

lemma push_samples_step:
  assumes "push_samples (s # ss) ((as, who) # sch) p = Some p'"
  obtains (killed) "run_actions as p = Some p'" "terminated p'" "list_all worker_action as"
    | (pushed) p1 p2 where "run_actions as p = Some p1" "\<not> terminated p1" "produce s who p1 = Some p2"
        "push_samples ss sch p2 = Some p'" "list_all worker_action as"
  using assms that by (auto split: if_splits option.splits)

lemma pipe_inv_tcp [simp]: "pipe_inv cap w0 (p\<lparr>tcp := t\<rparr>) = pipe_inv cap w0 p"
  by (simp add: pipe_inv_def stages_inv_def counts_inv_def wake_inv_def log_inv_p_def)

text \<open>The listening descriptor never changes.\<close>

lemma listen_fd_send_each: "listen_fd (snd (send_each ans fs p t)) = listen_fd t"
  by (induction ans fs p t rule: send_each.induct)
    (auto simp: close_fd_def Let_def split: io_out.splits prod.splits)

lemma listen_fd_broadcast [simp]: "listen_fd (broadcast_line ans l t) = listen_fd t"
  using listen_fd_send_each [of ans "tcp_clients t" "l @ [nl]" t]
  by (auto simp: broadcast_line_def split: prod.splits)

lemma listen_fd_accept: "tcp_accept_ready xs t = Some (r, t') \<Longrightarrow> listen_fd t' = listen_fd t"
  by (induction xs t rule: tcp_accept_ready.induct) (auto split: if_splits)

text \<open>No action changes the listening descriptor or the number of workers.\<close>

definition same_shape :: "pipeline \<Rightarrow> pipeline \<Rightarrow> bool" where
  "same_shape p' p \<longleftrightarrow> listen_fd (tcp p') = listen_fd (tcp p) \<and> length (workers p') = length (workers p)"

lemma same_shape_refl [simp]: "same_shape p p"
  by (simp add: same_shape_def)

lemma same_shape_trans: "same_shape p2 p1 \<Longrightarrow> same_shape p1 p \<Longrightarrow> same_shape p2 p"
  by (simp add: same_shape_def)

lemma same_shape_effect: "effect p p' \<Longrightarrow> same_shape p' p"
  by (induction rule: effect.induct) (auto simp: same_shape_def dest: listen_fd_accept)

lemma same_shape_run: "run_actions as p = Some p' \<Longrightarrow> same_shape p' p"
proof (induction as arbitrary: p)
  case (Cons a as)
  then obtain p1 where "act a p = Some p1" "run_actions as p1 = Some p'" by (auto split: option.splits)
  then show ?case using Cons.IH same_shape_effect [OF act_effect] same_shape_trans by blast
qed simp

lemma same_shape_worker: "worker_run p p' \<Longrightarrow> same_shape p' p"
  by (auto simp: worker_run_def intro: same_shape_run)

lemma accept_subscribers_inv:
  "accept_subscribers xs p = Some (r, p') \<Longrightarrow> pipe_inv cap w0 p \<Longrightarrow> pipe_inv cap w0 p' \<and> same_shape p' p"
proof (induction xs arbitrary: p)
  case (Cons y xs)
  obtain as x where y: "y = (as, x)" by fastforce
  from Cons.prems(1) show ?case unfolding y
  proof (cases rule: accept_subscribers_step)
    case (accepts f p1)
    let ?p = "p1\<lparr>tcp := add_subscriber f (tcp p1)\<rparr>"
    have p1: "pipe_inv cap w0 ?p" "same_shape ?p p"
      using worker_run_inv [OF accepts(1) Cons.prems(2)] same_shape_worker [OF accepts(1)]
      by (simp_all add: same_shape_def)
    with Cons.IH [OF accepts(5)] same_shape_trans show ?thesis by blast
  qed (use Cons.prems(2) worker_run_inv same_shape_worker in blast)+
qed simp

lemma same_shape_push: "push_samples ss sch p = Some p' \<Longrightarrow> same_shape p' p"
proof (induction ss sch p rule: push_samples.induct)
  case (3 s ss as who sch p)
  from "3.prems" show ?case
  proof (cases rule: push_samples_step)
    case killed
    then show ?thesis by (simp add: same_shape_run)
  next
    case (pushed p1 p2)
    then have "same_shape p' p2" using 3 by simp
    moreover have "same_shape p2 p1" using same_shape_effect [OF act_effect [of "Produce s who"]] pushed by simp
    ultimately show ?thesis using same_shape_run [OF pushed(1)] same_shape_trans by blast
  qed
qed simp_all

text \<open>What the workers leave unchanged while a report is made.\<close>

lemma view_queue:
  assumes "pipe_inv cap w0 p"
  shows "length (popped (qt (view gaps n p))) + length (queue (sq (view gaps n p))) = length (accepted (qt p))"
    and "dropped (sq (view gaps n p)) = dropped (sq p)"
proof -
  have "pipe_inv cap w0 (view gaps n p)" by (rule worker_run_inv [OF worker_run_view assms])
  moreover have "accepted (qt (view gaps n p)) = accepted (qt p)" "rejected (qt (view gaps n p)) = rejected (qt p)"
    using worker_run_view [of p gaps n] worker_run_queue unfolding worker_run_def by blast+
  ultimately show "length (popped (qt (view gaps n p))) + length (queue (sq (view gaps n p))) = length (accepted (qt p))"
    "dropped (sq (view gaps n p)) = dropped (sq p)"
    using assms by (metis counts_inv_def length_append pipe_inv_def trace_inv_def)+
qed

lemma view_popped: "m \<le> n \<Longrightarrow> length (popped (qt (view gaps m p))) \<le> length (popped (qt (view gaps n p)))"
proof (erule lift_Suc_mono_le [rotated])
  fix n
  have "prefix (popped (qt (view gaps n p))) (popped (qt (run_workers (gaps n) (view gaps n p))))"
    using worker_run_workers [of "view gaps n p" "gaps n"] worker_run_queue unfolding worker_run_def by blast
  then show "length (popped (qt (view gaps n p))) \<le> length (popped (qt (view gaps (Suc n) p)))"
    by (simp add: prefix_length_le)
qed

section \<open>The invariant of the main loop\<close>

definition fixed_callbacks :: "'w daemon \<Rightarrow> bool" where
  "fixed_callbacks d \<longleftrightarrow> callbacks (daemon_loop d) (source_fd d) = Some Source_cb \<and>
     callbacks (daemon_loop d) (signal_fd d) = Some Signal_cb \<and>
     callbacks (daemon_loop d) (control_fd d) = Some Control_accept_cb \<and>
     callbacks (daemon_loop d) (listen_fd (tcp (pipe (app d)))) = Some Tcp_accept_cb"

definition daemon_inv :: "u64 \<Rightarrow> log_state \<Rightarrow> 'w daemon \<Rightarrow> bool" where
  "daemon_inv cap w0 d \<longleftrightarrow> server_inv (control d) \<and> pipe_inv cap w0 (pipe (app d)) \<and>
     workers (pipe (app d)) \<noteq> [] \<and> fixed_callbacks d \<and> socket_path d \<noteq> None"

text \<open>The operating system's side: \<open>accept4\<close> on the control socket returns unused descriptors.\<close>

definition accept_contract :: "callback \<Rightarrow> daemon_io \<Rightarrow> 'w daemon \<Rightarrow> bool" where
  "accept_contract cb io d \<longleftrightarrow> cb = Control_accept_cb \<longrightarrow> accepts_fresh (control_accepts io) (control d)"

lemma let_workers_run_cases:
  assumes "let_workers_run as d = Some (r, d1)"
  obtains p where "run_actions as (pipe (app d)) = Some p" "r = alive p" "d1 = d\<lparr>app := (app d)\<lparr>pipe := p\<rparr>\<rparr>"
    "list_all worker_action as"
  using assms by (auto simp: let_workers_run_def split: if_splits)

lemma let_workers_run_frame:
  assumes "let_workers_run as d = Some (r, d1)"
  shows "control d1 = control d" "daemon_loop d1 = daemon_loop d" "socket_path d1 = socket_path d"
    "running (app d1) = running (app d)"
  using assms by (auto elim!: let_workers_run_cases simp: daemon_loop_def)

lemma daemon_inv_pipe: "daemon_inv cap w0 d \<Longrightarrow> pipe_inv cap w0 (pipe (app d))"
  by (simp add: daemon_inv_def)

lemma daemon_inv_app:
  assumes "daemon_inv cap w0 d" "pipe_inv cap w0 (pipe a)" "same_shape (pipe a) (pipe (app d))"
  shows "daemon_inv cap w0 (d\<lparr>app := a\<rparr>)"
  using assms by (auto simp: daemon_inv_def fixed_callbacks_def daemon_loop_def same_shape_def)

lemma daemon_inv_control:
  assumes "daemon_inv cap w0 d" "server_inv c"
    and "\<And>f cb. callbacks (loop (control d)) f = Some cb \<Longrightarrow> (\<forall>g. cb \<noteq> Client_cb g) \<Longrightarrow> callbacks (loop c) f = Some cb"
  shows "daemon_inv cap w0 (d\<lparr>control := c\<rparr>)"
  using assms by (simp add: daemon_inv_def fixed_callbacks_def daemon_loop_def)

lemma source_callback_pipe:
  assumes "source_callback io a = Some (r, a1)" "pipe_inv cap w0 (pipe a)"
  shows "pipe_inv cap w0 (pipe a1) \<and> same_shape (pipe a1) (pipe a)"
proof -
  obtain x a2 where r: "read_samples io a = Some (x, a2)"
    using assms(1) by (auto simp: source_callback_def split: option.splits)
  then have p: "pipe a2 = pipe a" by (auto simp: read_samples_def split: if_splits prod.splits)
  show ?thesis
  proof (cases x)
    case (Inl e)
    with assms r p show ?thesis by (simp add: source_callback_def)
  next
    case (Inr ss)
    then obtain p' where "push_samples ss (push_sched io) (pipe a) = Some p'" "a1 = a2\<lparr>pipe := p'\<rparr>"
      using assms(1) r p by (auto simp: source_callback_def)
    then show ?thesis using assms(2) push_samples_inv same_shape_push by simp
  qed
qed

lemma control_app_comm: "d\<lparr>app := a, control := c\<rparr> = d\<lparr>control := c, app := a\<rparr>"
  by (cases d) simp

lemma let_workers_run_inv [inv_intros]:
  assumes "daemon_inv cap w0 d" "let_workers_run as d = Some (r, d1)"
  shows "daemon_inv cap w0 d1"
  using assms(2)
proof (cases rule: let_workers_run_cases)
  case (1 p)
  with run_actions_inv [OF 1(1) daemon_inv_pipe [OF assms(1)]] same_shape_run [OF 1(1)] show ?thesis
    by (simp add: daemon_inv_app [OF assms(1)])
qed

lemma accept_keeps:
  assumes da: "daemon_inv cap w0 d" and fresh: "accepts_fresh xs (control d)"
    and c: "accept_ready xs (control d) = Some (r, c)"
  shows "daemon_inv cap w0 (d\<lparr>control := c\<rparr>)"
proof -
  have s: "server_inv (control d)" using da by (simp add: daemon_inv_def)
  show ?thesis
    using accept_ready_inv [OF c s fresh] accept_ready_frame [OF c s fresh]
    by (intro daemon_inv_control [OF da]) simp_all
qed

lemma client_keeps:
  assumes da: "daemon_inv cap w0 d" and f: "callbacks (daemon_loop d) f = Some (Client_cb g)"
    and c: "ready (handle_control_command strerror ioctl gaps) g ev io (control d, (app d)\<lparr>file_system := fs\<rparr>) = Some (r, c, a1)"
  shows "daemon_inv cap w0 (d\<lparr>control := c, app := a1\<rparr>)"
proof -
  have s: "server_inv (control d)" using da by (simp add: daemon_inv_def)
  have g: "g = f" using server_inv_registered [OF s] f by (simp add: daemon_loop_def)
  have "worker_run (pipe ((app d)\<lparr>file_system := fs\<rparr>)) (pipe a1)" using ready_state [OF c] handler_run worker_run_refl by metis
  then have "worker_run (pipe (app d)) (pipe a1)" by simp
  then have da1: "daemon_inv cap w0 (d\<lparr>app := a1\<rparr>)"
    by (intro daemon_inv_app [OF da] worker_run_inv [OF _ daemon_inv_pipe [OF da]] same_shape_worker)
  have "callbacks (loop c) h = Some cb"
    if "callbacks (loop (control d)) h = Some cb" "\<forall>g. cb \<noteq> Client_cb g" for h cb
    using that ready_frame [OF c, of h] f g by (cases "h = f") (auto simp: daemon_loop_def)
  then have "daemon_inv cap w0 ((d\<lparr>app := a1\<rparr>)\<lparr>control := c\<rparr>)"
    using ready_inv [OF s c] by (intro daemon_inv_control [OF da1]) simp_all
  then show ?thesis by (simp only: control_app_comm)
qed

lemma run_callback_keeps:
  assumes "daemon_inv cap w0 d" "callbacks (daemon_loop d) f = Some cb" "accept_contract cb io d"
    and run: "run_callback strerror ioctl cb ev io d = Some (r, d')"
  shows "daemon_inv cap w0 d'"
proof (cases cb)
  case Source_cb
  then obtain a1 where "source_callback io (app d) = Some (r, a1)" "d' = d\<lparr>app := a1\<rparr>"
    using run by (auto simp: run_callback_def)
  then show ?thesis using source_callback_pipe [OF _ daemon_inv_pipe [OF assms(1)]]
    by (simp add: daemon_inv_app [OF assms(1)])
next
  case Signal_cb
  then show ?thesis using run daemon_inv_pipe [OF assms(1)]
    by (auto simp: run_callback_def signal_callback_def daemon_inv_app [OF assms(1)])
next
  case Control_accept_cb
  then show ?thesis using run assms(3) accept_keeps [OF assms(1)] by (auto simp: run_callback_def accept_contract_def)
next
  case Tcp_accept_cb
  then obtain p where "accept_subscribers (tcp_accepts io) (pipe (app d)) = Some (r, p)"
    "d' = d\<lparr>app := (app d)\<lparr>pipe := p\<rparr>\<rparr>"
    using run by (auto simp: run_callback_def tcp_callback_def)
  then show ?thesis using accept_subscribers_inv [OF _ daemon_inv_pipe [OF assms(1)]]
    by (auto intro!: daemon_inv_app [OF assms(1)])
next
  case (Client_cb g)
  then show ?thesis using run assms(2) client_keeps [OF assms(1)] by (auto simp: run_callback_def)
qed

lemma invoke_keeps:
  assumes "daemon_inv cap w0 d" "callbacks (daemon_loop d) f = Some cb" "accept_contract cb io d"
    and "invoke strerror ioctl cb ev io d = Some (r, d')"
  shows "daemon_inv cap w0 d'"
  using assms(4) unfolding invoke_def
proof (cases rule: and_then_cases)
  case (throws e)
  then show ?thesis using let_workers_run_inv [OF assms(1)] by blast
next
  case (continues d1)
  note frame = let_workers_run_frame [OF continues(1)]
  show ?thesis
    by (rule run_callback_keeps [OF let_workers_run_inv [OF assms(1) continues(1)] _ _ continues(2)])
      (use assms(2,3) frame in \<open>simp_all add: accept_contract_def\<close>)
qed

interpretation dm: reactor daemon_loop "invoke strerror ioctl" "daemon_inv cap w0" accept_contract
  by unfold_locales (rule invoke_keeps)

fun events_ok :: "(errno \<Rightarrow> string) \<Rightarrow> 'w ioctl_call \<Rightarrow> (fd \<times> u32 \<times> daemon_io) list \<Rightarrow> 'w daemon \<Rightarrow> bool" where
  "events_ok strerror ioctl [] d = True"
| "events_ok strerror ioctl ((f, ev, io) # rest) d =
     (case callbacks (daemon_loop d) f of
        None \<Rightarrow> events_ok strerror ioctl rest d
      | Some cb \<Rightarrow> accept_contract cb io d \<and>
          (case invoke strerror ioctl cb ev io d of
             Some (Inr _, d1) \<Rightarrow> events_ok strerror ioctl rest d1
           | _ \<Rightarrow> True))"

fun waits_ok :: "(errno \<Rightarrow> string) \<Rightarrow> 'w ioctl_call \<Rightarrow> wait_step list \<Rightarrow> 'w daemon \<Rightarrow> bool" where
  "waits_ok strerror ioctl [] d = True"
| "waits_ok strerror ioctl ((as, ans) # rest) d =
     (case let_workers_run as d of
        Some (Inr _, d1) \<Rightarrow>
          (case ans of Wait_events evs \<Rightarrow> events_ok strerror ioctl evs d1 | Wait_err e \<Rightarrow> True) \<and>
          (case run_once daemon_loop (invoke strerror ioctl) ans d1 of
             Some (Inr _, d2) \<Rightarrow> waits_ok strerror ioctl rest d2
           | _ \<Rightarrow> True)
      | _ \<Rightarrow> True)"

lemma events_ok_served: "events_ok strerror ioctl evs d \<Longrightarrow> dm.served strerror ioctl evs d"
proof (induction evs arbitrary: d)
  case Nil
  show ?case by (rule dm.served_Nil)
next
  case (Cons e evs)
  obtain f ev io where e: "e = (f, ev, io)" by (metis prod_cases3)
  show ?case
  proof (cases "callbacks (daemon_loop d) f")
    case None
    then show ?thesis using Cons by (auto simp: e intro: dm.served_skip)
  next
    case (Some cb)
    then show ?thesis using Cons by (auto simp: e intro!: dm.served_call [OF Some])
  qed
qed

text \<open>One round of the loop, and the premises of the rounds after it.\<close>

lemma loop_step_cases:
  assumes "loop_step strerror ioctl (as, ans) d = Some (r, d')" "waits_ok strerror ioctl ((as, ans) # rest) d"
  obtains (killed) e where "let_workers_run as d = Some (Inl e, d')" "r = Inl e"
    | (served) d1 where "let_workers_run as d = Some (Inr (), d1)"
        "run_once daemon_loop (invoke strerror ioctl) ans d1 = Some (r, d')"
        "\<And>evs. ans = Wait_events evs \<Longrightarrow> events_ok strerror ioctl evs d1"
        "r = Inr () \<Longrightarrow> waits_ok strerror ioctl rest d'"
  using assms(1) unfolding loop_step_def
proof (cases rule: and_then_cases)
  case (continues d1)
  show thesis
    by (rule served [OF continues [unfolded fst_conv snd_conv]]) (use assms(2) continues in simp_all)
qed (use killed in simp)

lemma loop_step_inv:
  assumes "loop_step strerror ioctl step d = Some (r, d')" "waits_ok strerror ioctl (step # rest) d" "daemon_inv cap w0 d"
  shows "daemon_inv cap w0 d'"
proof -
  obtain as ans where st: "step = (as, ans)" by fastforce
  from assms(1,2) show ?thesis unfolding st
  proof (cases rule: loop_step_cases)
    case (served d1)
    from let_workers_run_inv [OF assms(3) served(1)] served(2,3) show ?thesis
      by (auto intro: dm.run_once_inv events_ok_served)
  qed (use let_workers_run_inv [OF assms(3)] in blast)
qed

lemma loop_step_waits:
  assumes "loop_step strerror ioctl step d = Some (Inr (), d')" "waits_ok strerror ioctl (step # rest) d"
  shows "waits_ok strerror ioctl rest d'"
proof -
  obtain as ans where st: "step = (as, ans)" by fastforce
  from assms show ?thesis unfolding st by (cases rule: loop_step_cases) auto
qed

text \<open>Rule induction over the rounds of the loop, shared by the proofs about \<open>main_loop\<close>.\<close>

lemma main_loop_induct [consumes 2, case_names stop round]:
  assumes "main_loop strerror ioctl waits d = Some (r, d')" "waits_ok strerror ioctl waits d"
    and "\<And>waits d. \<not> running (app d) \<Longrightarrow> P waits d (Inr ()) d"
    and "\<And>step waits d r1 d1. running (app d) \<Longrightarrow> waits_ok strerror ioctl (step # waits) d \<Longrightarrow>
      loop_step strerror ioctl step d = Some (r1, d1) \<Longrightarrow>
      (case r1 of Inl e \<Rightarrow> r = Inl e \<and> d' = d1 | Inr _ \<Rightarrow> P waits d1 r d') \<Longrightarrow> P (step # waits) d r d'"
  shows "P waits d r d'"
  using assms(1,2)
proof (induction waits arbitrary: d)
  case Nil
  then show ?case using assms(3) by (auto split: if_splits)
next
  case (Cons step waits)
  show ?case
  proof (cases "running (app d)")
    case False
    with Cons.prems(1) assms(3) show ?thesis by auto
  next
    case True
    from Cons.prems(1) True have "and_then (loop_step strerror ioctl step d) (main_loop strerror ioctl waits) = Some (r, d')"
      by simp
    then show ?thesis
    proof (cases rule: and_then_cases)
      case (throws e)
      with assms(4) [OF True Cons.prems(2)] show ?thesis by simp
    next
      case (continues d1)
      from Cons.IH [OF continues(2) loop_step_waits [OF continues(1) Cons.prems(2)]] continues(1)
        assms(4) [OF True Cons.prems(2)] show ?thesis by simp
    qed
  qed
qed

lemma main_loop_inv:
  assumes "main_loop strerror ioctl waits d = Some (r, d')" "waits_ok strerror ioctl waits d" "daemon_inv cap w0 d"
  shows "daemon_inv cap w0 d'"
  using assms
proof (induction rule: main_loop_induct)
  case (round step waits d r1 d1)
  then show ?case using loop_step_inv [OF round(3,2)] by (cases r1) auto
qed simp

text \<open>A section of the main thread that returns normally leaves a living process.\<close>

lemma alive_Inr [simp]: "alive p = Inr () \<longleftrightarrow> \<not> terminated p"
  by (simp add: alive_def)

lemma accept_subscribers_alive:
  "accept_subscribers xs p = Some (Inr (), p') \<Longrightarrow> \<not> terminated p'"
proof (induction xs arbitrary: p)
  case (Cons y xs)
  obtain as x where y: "y = (as, x)" by fastforce
  from Cons.prems show ?case unfolding y
    by (cases rule: accept_subscribers_step) (use Cons.IH in auto)
qed simp

lemma run_callback_alive:
  assumes "run_callback strerror ioctl cb ev io d = Some (Inr (), d')" "\<not> terminated (pipe (app d))"
  shows "\<not> terminated (pipe (app d'))"
proof (cases cb)
  case Tcp_accept_cb
  then show ?thesis using assms accept_subscribers_alive by (auto simp: run_callback_def tcp_callback_def)
qed (use assms in \<open>auto simp: run_callback_def source_callback_def signal_callback_def
      split: option.splits prod.splits sum.splits\<close>)

lemma let_workers_run_alive: "let_workers_run as d = Some (Inr (), d1) \<Longrightarrow> \<not> terminated (pipe (app d1))"
  by (auto simp: let_workers_run_def alive_def split: if_splits)

lemma dispatch_alive:
  "dispatch daemon_loop (invoke strerror ioctl) evs d = Some (Inr (), d') \<Longrightarrow> \<not> terminated (pipe (app d)) \<Longrightarrow>
     \<not> terminated (pipe (app d'))"
proof (induction evs arbitrary: d)
  case (Cons e evs)
  obtain f ev io where e: "e = (f, ev, io)" by (metis prod_cases3)
  show ?case
  proof (cases "callbacks (daemon_loop d) f")
    case None
    with Cons e show ?thesis by simp
  next
    case (Some cb)
    then obtain d1 where i: "invoke strerror ioctl cb ev io d = Some (Inr (), d1)"
      "dispatch daemon_loop (invoke strerror ioctl) evs d1 = Some (Inr (), d')"
      using Cons.prems(1) e by (auto split: option.splits sum.splits)
    from i(1) have "\<not> terminated (pipe (app d1))" unfolding invoke_def
      by (rule and_then_Inr) (blast dest: let_workers_run_alive run_callback_alive)
    with Cons.IH [OF i(2)] show ?thesis by simp
  qed
qed simp

lemma main_loop_alive:
  "main_loop strerror ioctl waits d = Some (Inr (), d') \<Longrightarrow> \<not> terminated (pipe (app d)) \<Longrightarrow> \<not> terminated (pipe (app d'))"
proof (induction waits arbitrary: d)
  case (Cons step waits)
  show ?case
  proof (cases "running (app d)")
    case True
    with Cons.prems(1) have "and_then (loop_step strerror ioctl step d) (main_loop strerror ioctl waits) = Some (Inr (), d')"
      by simp
    then obtain d2 where d2: "loop_step strerror ioctl step d = Some (Inr (), d2)" "main_loop strerror ioctl waits d2 = Some (Inr (), d')"
      by (rule and_then_Inr)
    then obtain d1 where "\<not> terminated (pipe (app d1))" "run_once daemon_loop (invoke strerror ioctl) (snd step) d1 = Some (Inr (), d2)"
      unfolding loop_step_def by (auto elim!: and_then_Inr dest: let_workers_run_alive)
    then have "\<not> terminated (pipe (app d2))"
      by (auto simp: run_once_def dest: dispatch_alive split: wait_answer.splits)
    with Cons.IH [OF d2(2)] show ?thesis by simp
  qed (use Cons.prems in simp)
qed (simp split: if_splits)

section \<open>After start-up\<close>

lemma main_setup_Ready:
  assumes "main_setup inet_pton ans args fs nt w = Ready d"
  obtains cpath cfg udp t m where "load_config_file fs cpath = Inr cfg" "setup_late ans cfg cpath fs udp t m nt w = Inr d"
  using assms
  by (auto simp: main_setup_def split: option.splits sum.splits prod.splits if_splits)

text \<open>The configuration that the process runs with.\<close>

definition configured :: "string list \<Rightarrow> (string \<Rightarrow> string option) \<Rightarrow> AppConfig \<Rightarrow> bool" where
  "configured args fs cfg \<longleftrightarrow> (\<exists>cpath. parse_config_arg args ''config/sensorhub.conf'' = Some cpath \<and>
     load_config_file fs cpath = Inr cfg)"

lemma main_setup_stages:
  assumes "main_setup inet_pton ans args fs nt w = Ready d"
  obtains cpath cfg udp t m where "configured args fs cfg" "load_config_file fs cpath = Inr cfg"
    "start_workers (thread_failure ans) (unat (worker_threads cfg)) \<lparr>main_mask = initial_mask ans, worker_masks = []\<rparr> = (Inr (), m)"
    "setup_late ans cfg cpath fs udp t m nt w = Inr d"
  using assms
  by (auto simp: main_setup_def configured_def split: option.splits sum.splits prod.splits if_splits)


lemma start_workers_ok: "\<exists>m'. start_workers None n m = (Inr (), m')"
  by (induction n arbitrary: m) auto

lemma load_config_workers: "load_config_file fs cpath = Inr cfg \<Longrightarrow> 0 < unat (worker_threads cfg)"
  by (auto simp: load_config_file_def unat_gt_0 split: option.splits if_splits)

lemma register_all_callbacks:
  assumes "register_all ans src sig ctl tcpf l = Inr l1" "distinct [src, sig, ctl, tcpf]"
  shows "callbacks l1 = (callbacks l)(src \<mapsto> Source_cb, sig \<mapsto> Signal_cb, ctl \<mapsto> Control_accept_cb, tcpf \<mapsto> Tcp_accept_cb)"
  using assms(1)
  by (auto simp: register_all_def register_cb_def add_def split: option.splits)

definition initial_log :: "AppConfig \<Rightarrow> (string \<Rightarrow> string option) \<Rightarrow> log_state" where
  "initial_log cfg fs = new_log_writer (log_file cfg) (log_rotate_bytes cfg) fs"

definition own_fds :: "'w daemon \<Rightarrow> fd list" where
  "own_fds d = [source_fd d, signal_fd d, control_fd d, listen_fd (tcp (pipe (app d)))]"

lemma setup_late_inv:
  assumes "setup_late ans cfg cpath fs udp t m nt w = Inr d" "distinct (own_fds d)" "0 < unat (worker_threads cfg)"
  shows "daemon_inv (queue_capacity cfg) (initial_log cfg fs) d"
    and "pipe (app d) = new_pipeline (queue_capacity cfg) (unat (worker_threads cfg)) (initial_log cfg fs) t"
    and "masks d = m\<lparr>main_mask := main_mask m \<union> {SIGINT, SIGTERM}\<rparr>"
    and "running (app d)"
proof -
  obtain src sim sig ctl l l1 where
    l: "new_epoll_loop (epoll_create_res ans) = Inr l"
      "register_all ans src sig ctl (listen_fd t) l = Inr l1"
    and d: "control d = (new_control_server l)\<lparr>loop := l1\<rparr>" "source_fd d = src" "signal_fd d = sig" "control_fd d = ctl"
    and p: "pipe (app d) = new_pipeline (queue_capacity cfg) (unat (worker_threads cfg)) (initial_log cfg fs) t"
      "masks d = m\<lparr>main_mask := main_mask m \<union> {SIGINT, SIGTERM}\<rparr>" "running (app d)"
    and sock: "socket_path d \<noteq> None"
    using assms(1) by (auto simp: setup_late_def initial_log_def create_signal_fd_def split: option.splits sum.splits)
  have tcp: "tcp (pipe (app d)) = t" by (simp add: p new_pipeline_def)
  have empty: "callbacks l = Map.empty" using l(1) by (auto simp: new_epoll_loop_def split: sum.splits)
  have dist: "distinct [src, sig, ctl, listen_fd t]" using assms(2) d tcp by (simp add: own_fds_def)
  note cb = register_all_callbacks [OF l(2) dist]
  have "server_inv (control d)"
    using cb empty by (auto simp: d server_inv_def new_control_server_def split: if_splits)
  moreover have "fixed_callbacks d"
    using cb dist by (auto simp: fixed_callbacks_def daemon_loop_def d tcp)
  moreover have "workers (pipe (app d)) \<noteq> []" using assms(3) by (simp add: p new_pipeline_def)
  ultimately show "daemon_inv (queue_capacity cfg) (initial_log cfg fs) d"
    by (simp add: daemon_inv_def p pipe_inv_new sock)
  show "pipe (app d) = new_pipeline (queue_capacity cfg) (unat (worker_threads cfg)) (initial_log cfg fs) t"
    "masks d = m\<lparr>main_mask := main_mask m \<union> {SIGINT, SIGTERM}\<rparr>" "running (app d)"
    by (simp_all add: p)
qed

section \<open>Shutdown\<close>

lemma finish_cases:
  assumes "finish before joins nt d = Some (r, d')"
  obtains (killed_before) e where "let_workers_run before d = Some (Inl e, d')" "r = Inl e"
    | (killed_joining) d1 p e where "let_workers_run before d = Some (Inr (), d1)"
        "act Close_queue (pipe (app d1)) = Some p"
        "let_workers_run joins (d1\<lparr>app := (app d1)\<lparr>pipe := p\<rparr>\<rparr>) = Some (Inl e, d')" "r = Inl e"
    | (returns) d1 p d2 where "let_workers_run before d = Some (Inr (), d1)"
        "act Close_queue (pipe (app d1)) = Some p"
        "let_workers_run joins (d1\<lparr>app := (app d1)\<lparr>pipe := p\<rparr>\<rparr>) = Some (Inr (), d2)"
        "joined nt d2 = Some (Inr (), d')" "r = Inr ()"
proof -
  have j: "r = Inr ()" if "joined nt d2 = Some (r, d')" for d2 using that by (auto simp: joined_def split: if_splits)
  show thesis
    using assms j unfolding finish_def
    by (elim and_then_cases) (auto simp: close_queue_def intro: that)
qed

lemma close_queue_inv [inv_intros]:
  assumes "daemon_inv cap w0 d" "act Close_queue (pipe (app d)) = Some p"
  shows "daemon_inv cap w0 (d\<lparr>app := (app d)\<lparr>pipe := p\<rparr>\<rparr>)"
  using pipe_inv_act [OF assms(2) daemon_inv_pipe [OF assms(1)]] same_shape_effect [OF act_effect [OF assms(2)]]
  by (simp add: daemon_inv_app [OF assms(1)])

lemma finish_killed:
  assumes "finish before joins nt d = Some (Inl e, d')" "daemon_inv cap w0 d"
  shows "daemon_inv cap w0 d'"
  using assms by (elim finish_cases) (auto intro: let_workers_run_inv close_queue_inv simp del: act.simps)

lemma finish_complete:
  assumes "finish before joins nt d = Some (Inr (), d')" "daemon_inv cap w0 d"
  shows "pipe_inv cap w0 (pipe (app d')) \<and> \<not> terminated (pipe (app d')) \<and>
    workers (pipe (app d')) \<noteq> [] \<and> set (workers (pipe (app d'))) = {Exited} \<and> socket_path d' = None"
  using assms(1)
proof (cases rule: finish_cases)
  case (returns d1 p d2)
  have "daemon_inv cap w0 d2"
    by (rule let_workers_run_inv [OF close_queue_inv [OF let_workers_run_inv [OF assms(2) returns(1)] returns(2)] returns(3)])
  with let_workers_run_alive [OF returns(3)] returns(4) show ?thesis
    by (cases "workers (pipe (app d2))") (auto simp: joined_def daemon_inv_def split: if_splits)
qed simp_all

lemma daemon_main_exit:
  assumes "daemon_main strerror ioctl inet_pton ans waits before joins nt args fs w = Some (Exit 0, lg, Some d')"
  obtains d d1 where "main_setup inet_pton ans args fs nt w = Ready d"
    "main_loop strerror ioctl waits d = Some (Inr (), d1)" "finish before joins nt d1 = Some (Inr (), d')"
proof -
  obtain d where d: "main_setup inet_pton ans args fs nt w = Ready d"
    "and_then (main_loop strerror ioctl waits d) (finish before joins nt) = Some (Inr (), d')"
    using assms by (auto simp: daemon_main_def split: startup.splits option.splits prod.splits sum.splits)
  from d(2) show thesis by (rule and_then_Inr) (rule that [OF d(1)])
qed

lemma main_loop_config:
  assumes "main_setup inet_pton ans args fs nt w = Ready d0" "distinct (own_fds d0)"
    "waits_ok strerror ioctl waits d0" "main_loop strerror ioctl waits d0 = Some (r, d)"
  obtains cfg where "configured args fs cfg" "daemon_inv (queue_capacity cfg) (initial_log cfg fs) d"
    "r = Inr () \<Longrightarrow> \<not> terminated (pipe (app d))"
proof -
  obtain cpath cfg udp t m where s: "configured args fs cfg" "load_config_file fs cpath = Inr cfg"
    "setup_late ans cfg cpath fs udp t m nt w = Inr d0"
    using main_setup_stages [OF assms(1)] by metis
  note late = setup_late_inv [OF s(3) assms(2) load_config_workers [OF s(2)]]
  have "\<not> terminated (pipe (app d))" if "r = Inr ()"
    using main_loop_alive [of strerror ioctl waits d0 d] assms(4) that late(2) by (simp add: new_pipeline_def)
  with main_loop_inv [OF assms(4,3) late(1)] s(1) that show thesis by blast
qed

lemma main_loop_state:
  assumes "main_setup inet_pton ans args fs nt w = Ready d0" "distinct (own_fds d0)"
    "waits_ok strerror ioctl waits d0" "main_loop strerror ioctl waits d0 = Some (r, d)"
  obtains cap w0 where "daemon_inv cap w0 d" "r = Inr () \<Longrightarrow> \<not> terminated (pipe (app d))"
  using main_loop_config [OF assms] that by metis

lemma graceful_from_inv:
  assumes "daemon_main strerror ioctl inet_pton ans waits before joins nt args fs w = Some (Exit 0, lg, Some d')"
    and "\<forall>d. main_setup inet_pton ans args fs nt w = Ready d \<longrightarrow>
      distinct (own_fds d) \<and> waits_ok strerror ioctl waits d"
  obtains cfg where "configured args fs cfg" "pipe_inv (queue_capacity cfg) (initial_log cfg fs) (pipe (app d'))"
    "\<not> terminated (pipe (app d'))"
    "workers (pipe (app d')) \<noteq> []" "set (workers (pipe (app d'))) = {Exited}" "socket_path d' = None"
proof -
  obtain d d1 where d: "main_setup inet_pton ans args fs nt w = Ready d"
    "main_loop strerror ioctl waits d = Some (Inr (), d1)" "finish before joins nt d1 = Some (Inr (), d')"
    by (rule daemon_main_exit [OF assms(1)])
  with assms(2) obtain cfg where cfg: "configured args fs cfg" "daemon_inv (queue_capacity cfg) (initial_log cfg fs) d1"
    by (metis main_loop_config)
  from finish_complete [OF d(3) cfg(2)] that [OF cfg(1)] show thesis by blast
qed

lemma killed_from_inv:
  assumes "main_setup inet_pton ans args fs nt w = Ready d0" "distinct (own_fds d0)" "waits_ok strerror ioctl waits d0"
    and "daemon_main strerror ioctl inet_pton ans waits before joins nt args fs w = Some (Terminate, lg, Some d')"
  obtains cfg where "configured args fs cfg" "daemon_inv (queue_capacity cfg) (initial_log cfg fs) d'"
proof -
  obtain e where "and_then (main_loop strerror ioctl waits d0) (finish before joins nt) = Some (Inl e, d')"
    using assms(1,4) by (auto simp: daemon_main_def split: option.splits prod.splits sum.splits)
  then show thesis
  proof (cases rule: and_then_cases)
    case (throws e1)
    then show thesis using main_loop_config [OF assms(1-3)] that by metis
  next
    case (continues d)
    then show thesis using main_loop_config [OF assms(1-3)] finish_killed that by metis
  qed
qed

text \<open>The log files in terms of the samples, starting from the files found at start-up.\<close>

lemma initial_log_ready: "ready_stream (initial_log cfg fs)" "rotate_bytes (initial_log cfg fs) = log_rotate_bytes cfg"
  by (simp_all add: initial_log_def ready_new) (simp add: new_log_writer_def)

lemma close_for_exit:
  assumes "wake_inv p" "\<not> terminated p"
  obtains p1 where "act Close_queue p = Some p1" "wake_inv p1" "closed (sq p1)" "\<not> terminated p1"
proof -
  let ?p = "p\<lparr>qt := queue_step Close (qt p), workers := map (\<lambda>w. if w = Waiting then At_pop else w) (workers p)\<rparr>"
  have a: "act Close_queue p = Some ?p" using assms(2) by simp
  have "wake_inv ?p" by (rule wake_inv_effect [OF act_effect [OF a] assms(1)])
  with a assms(2) that show thesis by (auto simp: close_def queue_step.simps)
qed

lemma finish_schedule:
  assumes "let_workers_run before d = Some (Inr (), d1)" "act Close_queue (pipe (app d1)) = Some p"
    and "list_all worker_action joins" "run_actions joins p = Some p1" "\<not> terminated p1 \<Longrightarrow> set (workers p1) \<subseteq> {Exited}"
  shows "\<exists>d'. finish before joins nt d = Some (if terminated p1 then Inl Process_terminated else Inr (), d')"
  using assms by (auto simp: finish_def close_queue_def let_workers_run_def [of joins] alive_def joined_def simp del: act.simps)

section \<open>Control commands\<close>

lemma strip_command_plain:
  assumes "\<forall>c \<in> set ws. cmd_blank c" "cmd = [] \<or> \<not> cmd_blank (last cmd)"
  shows "strip_command (cmd @ ws) = cmd"
proof -
  have "dropWhile cmd_blank (rev ws @ rev cmd) = dropWhile cmd_blank (rev cmd)"
    using assms(1) by (intro dropWhile_append2) simp
  moreover have "dropWhile cmd_blank (rev cmd) = rev cmd"
    using assms(2) by (cases cmd rule: rev_cases) simp_all
  ultimately show ?thesis by (simp add: strip_command_def)
qed

lemma stat_line_getlines: "nl \<notin> set name \<Longrightarrow> getlines (stat_line name n @ r) = (name @ ''='' @ dec n) # getlines r"
  using getlines_line [of "name @ ''='' @ dec n" r] by (simp add: stat_line_def)

lemma stat_line_last: "nl \<notin> set name \<Longrightarrow> getlines (stat_line name n) = [name @ ''='' @ dec n]"
  using stat_line_getlines [of name n "[]"] by simp

definition stats_counters :: "(nat \<Rightarrow> action list) \<Rightarrow> pipeline \<Rightarrow> string" where
  "stats_counters gaps p =
     stat_line ''received'' (unat (received (view gaps 0 p))) @
     stat_line ''processed'' (unat (processed (view gaps 1 p))) @
     stat_line ''exported'' (unat (exported (view gaps 2 p))) @
     stat_line ''tcp_clients'' (client_count (tcp (view gaps 3 p))) @
     stat_line ''queue_size'' (unat (bq_size (sq (view gaps 4 p)))) @
     stat_line ''queue_dropped'' (unat (bq_dropped (sq (view gaps 5 p))))"

definition driver_counters :: "sensorhub_stats \<Rightarrow> string" where
  "driver_counters st =
     stat_line ''driver_generated'' (unat (generated st)) @
     stat_line ''driver_injected'' (unat (injected st)) @
     stat_line ''driver_dropped'' (unat (dropped_samples st)) @
     stat_line ''driver_fifo_bytes'' (unat (fifo_bytes st))"

lemma stats_counters_lines:
  "getlines (stats_counters gaps p @ r) =
     [''received='' @ dec (unat (received (view gaps 0 p))),
      ''processed='' @ dec (unat (processed (view gaps 1 p))),
      ''exported='' @ dec (unat (exported (view gaps 2 p))),
      ''tcp_clients='' @ dec (length (tcp_clients (tcp (view gaps 3 p)))),
      ''queue_size='' @ dec (unat (word_of_nat (length (queue (sq (view gaps 4 p)))) :: u64)),
      ''queue_dropped='' @ dec (unat (dropped (sq (view gaps 5 p))))] @ getlines r"
  by (simp add: stats_counters_def stat_line_getlines client_count_def bq_size_def bq_dropped_def)

lemma driver_counters_lines:
  "getlines (driver_counters st) =
     [''driver_generated='' @ dec (unat (generated st)),
      ''driver_injected='' @ dec (unat (injected st)),
      ''driver_dropped='' @ dec (unat (dropped_samples st)),
      ''driver_fifo_bytes='' @ dec (unat (fifo_bytes st))]"
  by (simp add: driver_counters_def stat_line_getlines stat_line_last)

text \<open>
  The reply of \<open>stats\<close> consists of one "name=value" line per counter, in
  a fixed order; in driver mode the four driver counters follow, or one line with the error.
\<close>

lemma build_stats_lines:
  "getlines (fst (build_stats_text strerror ioctl gaps a)) =
     [''mode='' @ (if simulate a then ''simulate'' else ''driver''),
      ''received='' @ dec (unat (received (view gaps 0 (pipe a)))),
      ''processed='' @ dec (unat (processed (view gaps 1 (pipe a)))),
      ''exported='' @ dec (unat (exported (view gaps 2 (pipe a)))),
      ''tcp_clients='' @ dec (length (tcp_clients (tcp (view gaps 3 (pipe a))))),
      ''queue_size='' @ dec (unat (word_of_nat (length (queue (sq (view gaps 4 (pipe a))))) :: u64)),
      ''queue_dropped='' @ dec (unat (dropped (sq (view gaps 5 (pipe a)))))] @
     (if simulate a then []
      else case fst (get_stats ioctl (device a)) of
             Inr st \<Rightarrow> [''driver_generated='' @ dec (unat (generated st)),
                        ''driver_injected='' @ dec (unat (injected st)),
                        ''driver_dropped='' @ dec (unat (dropped_samples st)),
                        ''driver_fifo_bytes='' @ dec (unat (fifo_bytes st))]
           | Inl e \<Rightarrow> getlines (''driver_error='' @ what strerror e @ [nl]))"
proof -
  let ?m = "if simulate a then ''simulate'' else ''driver''"
  have mode: "getlines (''mode='' @ ''simulate'' @ [nl] @ r) = (''mode='' @ ''simulate'') # getlines r"
    "getlines (''mode='' @ ''driver'' @ [nl] @ r) = (''mode='' @ ''driver'') # getlines r" for r
    using getlines_line [of "''mode='' @ ''simulate''" r] getlines_line [of "''mode='' @ ''driver''" r] by simp_all
  obtain r w where g: "get_stats ioctl (device a) = (r, w)" by fastforce
  have "getlines (fst (build_stats_text strerror ioctl gaps a)) =
      (''mode='' @ ?m) # getlines (stats_counters gaps (pipe a) @
        (if simulate a then [] else case r of Inr st \<Rightarrow> driver_counters st
           | Inl e \<Rightarrow> ''driver_error='' @ what strerror e @ [nl]))"
    unfolding build_stats_text_def Let_def g
    by (cases "simulate a"; cases r; simp only: if_True if_False prod.case sum.case fst_conv append_assoc
        mode stats_counters_def driver_counters_def append_Nil2)
  then show ?thesis by (cases r) (simp_all add: g stats_counters_lines driver_counters_lines)
qed

lemma driver_stats_fields:
  assumes "kfifo_api K bytes ok" "drv_inv K bytes ok d"
  shows "generated (read_stats K d) = d_generated d" "injected (read_stats K d) = d_injected d"
    "dropped_samples (read_stats K d) = d_dropped d"
    "unat (fifo_bytes (read_stats K d)) = 32 * length (queued bytes d)"
proof -
  obtain q where q: "queued bytes d = q" "length q \<le> 2048" using kfifo_api.inv_samples [OF assms] by blast
  have "read_stats K d = spec_stats (abs_device bytes d)" by (rule kfifo_api.stats_refines [OF assms])
  then have "fifo_bytes (read_stats K d) = word_of_nat (32 * length q)"
    by (simp add: spec_stats_def abs_device_def with_fifo_def q(1))
  with q show "unat (fifo_bytes (read_stats K d)) = 32 * length (queued bytes d)"
    by (simp only: unsigned_of_nat) (simp add: take_bit_nat_eq_self)
qed (simp_all add: read_stats_def)

section \<open>A concrete run\<close>

text \<open>
  Default configuration with the driver device: the device delivers one sample, then a termination
  signal arrives (the process was started with the signals blocked, so that it is queued), one worker
  handles the sample and both exit.
\<close>

definition demo_fs :: "string \<Rightarrow> string option" where
  "demo_fs p = (if p = ''config/sensorhub.conf'' then Some [] else None)"

definition demo_ans :: startup_answers where
  "demo_ans = \<lparr>udp_socket_res = Inr 3,
     tcp_answers = \<lparr>socket_res = Inr 4, bind_err = None, listen_err = None\<rparr>,
     thread_failure = None, dev_open_res = Inr 5, settime_err = None, sigmask_err = None,
     signalfd_res = Inr 6, sock_mkdir_err = None, sock_socket_res = Inr 7, sock_bind_err = None,
     sock_listen_err = None, epoll_create_res = Inr 8, add_source_err = None, add_signal_err = None,
     add_control_err = None, add_tcp_err = None, initial_mask = {SIGINT, SIGTERM}\<rparr>"

definition demo_stamp :: "nat \<Rightarrow> stamp" where
  "demo_stamp k = (\<lparr>tm_year = 126, tm_mon = 0, tm_mday = 1, tm_hour = 12, tm_min = 0, tm_sec = int k\<rparr>, ''1'')"

definition demo_io :: daemon_io where
  "demo_io = \<lparr>sched = [], dev_reads = [], timer_read = Inl EAGAIN, clock = (\<lambda>_. 0), push_sched = [],
     control_accepts = [], tcp_accepts = [], stats_gaps = (\<lambda>_. []), client_io = \<lparr>recvs = [], sends = [], mod_err = None\<rparr>,
     config_files = demo_fs, now_tid = demo_stamp 0\<rparr>"

definition sample_io :: daemon_io where
  "sample_io = demo_io\<lparr>dev_reads := [Got (encode_sample sample7), In_err EAGAIN], push_sched := [([], None)]\<rparr>"

definition demo_waits :: "wait_step list" where
  "demo_waits = [([], Wait_err EINTR), ([], Wait_events [(5, EPOLLIN, sample_io), (6, EPOLLIN, demo_io)])]"

definition demo_joins :: "action list" where
  "demo_joins = [Pop_at 0, Write_at 0 good_log, Pop_at 1, Udp_at 0, Tcp_at 0 (\<lambda>_. Room 200),
     Count_processed_at 0, Count_exported_at 0, Pop_at 0]"

definition no_ioctl :: "unit ioctl_call" where
  "no_ioctl cmd arg w = (Inl ENOTTY, w)"

definition demo_setup :: "bool \<Rightarrow> unit startup" where
  "demo_setup blocked =
     main_setup (\<lambda>_. Some 0) (demo_ans\<lparr>initial_mask := if blocked then {SIGINT, SIGTERM} else {}\<rparr>) [] demo_fs demo_stamp ()"

definition demo_pipe :: pipeline where
  "demo_pipe = new_pipeline 1024 2 (new_log_writer ''logs/sensorhub.log'' (1024 * 1024) demo_fs)
     (new_tcp_broadcaster\<lparr>listen_fd := 4\<rparr>)"

lemma demo_config: "load_config_file demo_fs ''config/sensorhub.conf'' = Inr default_config"
  by (simp add: load_config_file_def demo_fs_def default_config_def)

lemma start_two: "start_workers None 2 m = (Inr (), start_thread (start_thread m))"
  by (simp add: numeral_2_eq_2)

lemmas demo_setup_defs = start_two demo_setup_def main_setup_def demo_config create_udp_socket_def demo_ans_def
  listen_on_def new_tcp_broadcaster_def setup_late_def open_source_def start_def default_config_def
  create_signal_fd_def create_control_socket_def new_epoll_loop_def register_all_def register_cb_def
  add_def new_simulated_device_def new_sensor_device_def open_device_def

lemma demo_ready:
  "\<exists>d. demo_setup b = Ready d \<and> own_fds d = [5, 6, 7, 4] \<and> running (app d) \<and> \<not> simulate (app d) \<and>
     callbacks (daemon_loop d) 5 = Some Source_cb \<and> callbacks (daemon_loop d) 6 = Some Signal_cb \<and>
     pipe (app d) = demo_pipe \<and> callbacks (daemon_loop d) 7 = Some Control_accept_cb \<and>
     callbacks (daemon_loop d) 20 = None \<and> clients (control d) = [] \<and> udp_fd d = 3 \<and> epoll_fd (daemon_loop d) = 8"
  by (simp add: demo_setup_defs own_fds_def daemon_loop_def demo_pipe_def new_pipeline_def
      new_control_server_def)

fun the_daemon :: "'w startup \<Rightarrow> 'w daemon" where
  "the_daemon (Ready d) = d"

definition demo_daemon :: "unit daemon" where
  "demo_daemon = the_daemon (demo_setup True)"

lemma demo_daemon:
  "demo_setup True = Ready demo_daemon" "own_fds demo_daemon = [5, 6, 7, 4]" "running (app demo_daemon)"
  "\<not> simulate (app demo_daemon)" "callbacks (daemon_loop demo_daemon) 5 = Some Source_cb"
  "callbacks (daemon_loop demo_daemon) 6 = Some Signal_cb" "pipe (app demo_daemon) = demo_pipe"
  "callbacks (daemon_loop demo_daemon) 7 = Some Control_accept_cb" "callbacks (daemon_loop demo_daemon) 20 = None"
  "clients (control demo_daemon) = []" "udp_fd demo_daemon = 3" "epoll_fd (daemon_loop demo_daemon) = 8"
  using demo_ready [of True] unfolding demo_daemon_def by (metis the_daemon.simps)+

lemma demo_main_setup:
  "main_setup (\<lambda>_. Some 0) demo_ans [] demo_fs demo_stamp () = Ready demo_daemon"
  using demo_daemon(1) by (simp add: demo_setup_def demo_ans_def)

text \<open>The same daemon with the driver model behind the device.\<close>

definition driver_app :: "ring sensorhub_device app" where
  "driver_app = \<lparr>pipe = demo_pipe, running = True, simulate = False, config_path = ''config/sensorhub.conf'',
     file_system = demo_fs, device = sampled_ring, sim_device = new_simulated_device, logs = new_logger\<rparr>"

definition demo_pushed :: pipeline where
  "demo_pushed = pushed sample7 demo_pipe"

lemma demo_produce: "produce sample7 None demo_pipe = Some demo_pushed" "\<not> terminated demo_pipe"
  "\<not> terminated demo_pushed"
  by (simp_all add: demo_pushed_def pushed_def produce_def demo_pipe_def new_pipeline_def Let_def replicate_two)

definition demo_after :: "unit daemon" where
  "demo_after = demo_daemon\<lparr>app := signal_callback demo_io ((app demo_daemon)\<lparr>pipe := demo_pushed\<rparr>)\<rparr>"

lemma demo_source:
  "read_available [Got (encode_sample sample7), In_err EAGAIN] [] = Some (Inr [sample7])"
  using read_available_chunk [of "[sample7]" "[In_err EAGAIN]" "[]"] by (simp add: encode_samples_def)

lemmas demo_loop_defs = loop_step_def run_once_def invoke_def run_callback_def let_workers_run_def alive_def
  accept_contract_def signal_callback_def daemon_loop_def

lemma demo_loop:
  "main_loop strerror no_ioctl demo_waits demo_daemon = Some (Inr (), demo_after)"
  "waits_ok strerror no_ioctl demo_waits demo_daemon"
  using demo_produce
  by (simp_all add: demo_after_def demo_waits_def demo_daemon demo_loop_defs sample_io_def demo_io_def
      source_callback_def read_samples_def demo_source demo_daemon(5,6) [unfolded daemon_loop_def]
      del: read_available.simps)

lemma demo_finish: "\<exists>d'. finish [] demo_joins demo_stamp demo_after = Some (Inr (), d') \<and>
    accepted (qt (pipe (app d'))) = [sample7] \<and> all_healthy (pipe (app d'))"
  by (simp add: demo_joins_def demo_after_def finish_def close_queue_def joined_def let_workers_run_def alive_def
      signal_callback_def demo_pushed_def pushed_def demo_pipe_def demo_fs_def demo_defs all_healthy_def healthy_def)

lemma demo_main:
  "\<exists>lg d'. daemon_main strerror no_ioctl (\<lambda>_. Some 0) demo_ans demo_waits [] demo_joins
     demo_stamp [] demo_fs () = Some (Exit 0, lg, Some d') \<and> accepted (qt (pipe (app d'))) = [sample7] \<and>
     all_healthy (pipe (app d'))"
  using demo_finish by (auto simp: daemon_main_def demo_main_setup demo_loop)

text \<open>The same run, but the log cannot be opened when the first worker writes to it.\<close>

definition bad_joins :: "action list" where
  "bad_joins = [Pop_at 0, Write_at 0 (good_log\<lparr>open_app_ok := False\<rparr>)]"

lemma bad_main:
  "\<exists>lg d'. daemon_main strerror no_ioctl (\<lambda>_. Some 0) demo_ans demo_waits [] bad_joins
     demo_stamp [] demo_fs () = Some (Terminate, lg, Some d') \<and> accepted (qt (pipe (app d'))) = [sample7] \<and>
     terminated (pipe (app d')) \<and> queue (sq (pipe (app d'))) = []"
proof -
  have "\<exists>d'. finish [] bad_joins demo_stamp demo_after = Some (Inl Process_terminated, d') \<and>
      accepted (qt (pipe (app d'))) = [sample7] \<and> terminated (pipe (app d')) \<and> queue (sq (pipe (app d'))) = []"
    by (simp add: bad_joins_def demo_after_def finish_def close_queue_def let_workers_run_def alive_def
        signal_callback_def demo_pushed_def pushed_def demo_pipe_def demo_fs_def demo_defs)
  then show ?thesis by (auto simp: daemon_main_def demo_main_setup demo_loop)
qed

section \<open>Properties\<close>

text \<open>
  Property C1 (graceful exit loses nothing). If the process returns 0 after having served events, then
  for every behaviour of clients, device, operating system and scheduler: the queue is empty, each
  accepted sample was handed once to the log writer, which returned, was sent once by UDP and broadcast once, the counters agree,
  and the control socket has been removed. If moreover the file system took every line and every
  rotation, the log file and the rotated file hold exactly what the rotation rule \<open>log_after\<close> leaves of the previous texts and
  the lines of these samples, in the order of the writes: each line goes to the end of the log, and a log that has reached
  the limit of the configuration first replaces the rotated file.
\<close>

theorem daemon_graceful_exit:
  assumes "daemon_main strerror ioctl inet_pton ans waits before joins nt args fs w = Some (Exit 0, lg, Some d')"
    and "\<forall>d. main_setup inet_pton ans args fs nt w = Ready d \<longrightarrow>
      distinct (own_fds d) \<and> waits_ok strerror ioctl waits d"
    and "p = pipe (app d')"
  shows "queue (sq p) = [] \<and> mset (map snd (logged p)) = mset (accepted (qt p)) \<and>
    mset (udp_sent p) = mset (map sample_to_line (accepted (qt p))) \<and>
    mset (map snd (published p)) = mset (map sample_to_line (accepted (qt p))) \<and>
    processed p = word_of_nat (length (accepted (qt p))) \<and> exported p = processed p \<and>
    received p = processed p + dropped (sq p) \<and> socket_path d' = None \<and>
    (\<exists>cfg. configured args fs cfg \<and>
      (all_healthy p \<longrightarrow>
        log_texts (writer p) = log_after (log_rotate_bytes cfg) (map snd (logged p)) (log_texts (initial_log cfg fs))))"
proof -
  obtain cfg where inv: "pipe_inv (queue_capacity cfg) (initial_log cfg fs) p" "\<not> terminated p" "workers p \<noteq> []"
      "set (workers p) = {Exited}"
    and sock: "socket_path d' = None" and cfg: "configured args fs cfg"
    using graceful_from_inv [OF assms(1,2)] assms(3) by blast
  have "dropped (sq p) = word_of_nat (rejected (qt p))"
    using inv(1) by (simp add: pipe_inv_def counts_inv_def trace_inv_def)
  with complete_from_inv [OF inv] sock cfg log_texts_from_inv(1) [OF inv(1) initial_log_ready(1) _ inv(2)] show ?thesis
    by (auto simp: initial_log_ready(2))
qed

theorem daemon_graceful_exit_witness:
  "\<exists>lg d'. daemon_main (\<lambda>_. []) no_ioctl (\<lambda>_. Some 0) demo_ans demo_waits [] demo_joins
     demo_stamp [] demo_fs () = Some (Exit 0, lg, Some d') \<and> queue (sq (pipe (app d'))) = [] \<and>
     udp_sent (pipe (app d')) = [sample_to_line sample7] \<and> socket_path d' = None \<and>
     content (writer (pipe (app d'))) = sample_to_line sample7 @ [nl]"
proof -
  obtain lg d' where m: "daemon_main (\<lambda>_. []) no_ioctl (\<lambda>_. Some 0) demo_ans demo_waits [] demo_joins
     demo_stamp [] demo_fs () = Some (Exit 0, lg, Some d')" "accepted (qt (pipe (app d'))) = [sample7]"
     "all_healthy (pipe (app d'))"
    using demo_main by blast
  have ok: "\<forall>d. main_setup (\<lambda>_. Some 0) demo_ans [] demo_fs demo_stamp () = Ready d \<longrightarrow>
      distinct (own_fds d) \<and> waits_ok (\<lambda>_. []) no_ioctl demo_waits d"
    using demo_main_setup demo_daemon(2) demo_loop(2) by simp
  let ?p = "pipe (app d')"
  note g = daemon_graceful_exit [OF m(1) ok refl]
  have "configured [] demo_fs cfg \<Longrightarrow> cfg = default_config" for cfg by (simp add: configured_def demo_config)
  with g m(3) have t: "log_texts (writer ?p) =
      log_after (log_rotate_bytes default_config) (map snd (logged ?p)) (log_texts (initial_log default_config demo_fs))" by auto
  have "log_texts (initial_log default_config demo_fs) = ([], [])"
    by (simp add: log_texts_def archived_def content_def initial_log_def new_log_writer_def default_config_def demo_fs_def rotated_path_def)
  moreover have "mset (map snd (logged ?p)) = mset [sample7]" using g m(2) by metis
  then have "map snd (logged ?p) = [sample7]" by (simp only: mset.simps add_mset_eq_single mset_single_iff flip: mset_map)
  ultimately have "content (writer ?p) = sample_to_line sample7 @ [nl]"
    using t by (simp add: log_texts_def default_config_def line_text_def)
  with g m show ?thesis by auto
qed

text \<open>
  Property C2 (the daemon reaches its exit). When the main loop has ended, whatever the workers have done
  until the queue is closed, closing it and joining the workers comes to an end: some schedule of the
  workers takes \<open>main\<close> to its \<open>return 0\<close>, and every schedule that runs until no worker can continue does
  so, unless an exception in a worker terminates the process.
\<close>

theorem daemon_exit_reached:
  assumes "main_setup inet_pton ans args fs nt w = Ready d0" and "distinct (own_fds d0)"
    and "waits_ok strerror ioctl waits d0" and "main_loop strerror ioctl waits d0 = Some (Inr (), d)"
    and "let_workers_run before d = Some (Inr (), d1)"
  shows "\<exists>p. act Close_queue (pipe (app d1)) = Some p \<and>
    (\<exists>joins d'. finish before joins nt d = Some (Inr (), d')) \<and>
    (\<forall>joins p1. list_all worker_action joins \<longrightarrow> run_actions joins p = Some p1 \<longrightarrow>
       (\<forall>a. worker_action a \<longrightarrow> act a p1 = None) \<longrightarrow>
       (\<exists>d'. finish before joins nt d = Some (if terminated p1 then Inl Process_terminated else Inr (), d')))"
proof -
  obtain cap w0 where "daemon_inv cap w0 d" by (rule main_loop_state [OF assms(1-4)])
  then have "wake_inv (pipe (app d1))"
    using let_workers_run_inv [OF _ assms(5)] by (auto simp: daemon_inv_def pipe_inv_def)
  then obtain p where p: "act Close_queue (pipe (app d1)) = Some p" "wake_inv p" "closed (sq p)" "\<not> terminated p"
    by (rule close_for_exit [OF _ let_workers_run_alive [OF assms(5)]])
  note fin = finish_schedule [OF assms(5) p(1)]
  obtain joins p1 where "list_all worker_action joins" "run_actions joins p = Some p1" "\<not> terminated p1"
      "set (workers p1) \<subseteq> {Exited}"
    using workers_can_exit [OF p(2-4)] by blast
  then have "\<exists>joins d'. finish before joins nt d = Some (Inr (), d')"
    using fin [where joins = joins and nt = nt, of p1] by auto
  moreover have "\<exists>d'. finish before joins nt d = Some (if terminated p1 then Inl Process_terminated else Inr (), d')"
    if r: "list_all worker_action joins" "run_actions joins p = Some p1"
      and stuck: "\<forall>a. worker_action a \<longrightarrow> act a p1 = None" for joins p1
    using stuck_exited [OF run_wake [OF r(2) p(2)] run_closed [OF r(2) p(3)]] stuck
    by (intro fin [OF r]) fastforce
  ultimately show ?thesis using p(1) by blast
qed

theorem daemon_exit_reached_witness: "\<exists>joins d'. finish [] joins demo_stamp demo_after = Some (Inr (), d')"
proof -
  have "distinct (own_fds demo_daemon)" by (simp add: demo_daemon)
  moreover have "let_workers_run [] demo_after = Some (Inr (), demo_after)"
    using demo_produce by (simp add: demo_after_def let_workers_run_def alive_def signal_callback_def)
  ultimately show ?thesis using daemon_exit_reached [OF demo_main_setup _ demo_loop(2,1)] by blast
qed

text \<open>
  Property C3 (what an abnormal end costs). If an exception, in a callback or in a worker, terminates the
  process after start-up, the control socket is left behind, and the accepted samples for which the log writer has not
  returned are exactly those still queued and at most one per worker; of the others, at most
  one per worker was not broadcast. Nothing was handed to the log writer or broadcast twice. If the file system took every line and
  rotation of the writes that returned, the log file holds exactly the text that the rotation rule \<open>log_after\<close> prescribes after these writes, or
  this text is found in the rotated file, when the write that ended the process had begun a rotation.
\<close>

theorem daemon_abnormal_end:
  assumes "main_setup inet_pton ans args fs nt w = Ready d0" and "distinct (own_fds d0)"
    and "waits_ok strerror ioctl waits d0"
    and "daemon_main strerror ioctl inet_pton ans waits before joins nt args fs w = Some (Terminate, lg, Some d')"
    and "p = pipe (app d')"
  shows "socket_path d' \<noteq> None \<and>
    (\<exists>held unsent. mset (accepted (qt p)) = mset (map snd (logged p)) + mset (queue (sq p)) + held \<and>
       size held \<le> length (workers p) \<and>
       mset (map (\<lambda>x. sample_to_line (snd x)) (logged p)) = mset (map snd (published p)) + unsent \<and>
       size unsent \<le> length (workers p)) \<and>
    (\<exists>cfg. configured args fs cfg \<and>
      (all_healthy p \<longrightarrow>
        (\<exists>a c. log_after (log_rotate_bytes cfg) (map snd (logged p)) (log_texts (initial_log cfg fs)) = (a, c) \<and>
           (content (writer p) = c \<or> archived (writer p) = c))))"
proof -
  obtain cfg where cfg: "configured args fs cfg" and inv: "daemon_inv (queue_capacity cfg) (initial_log cfg fs) d'"
    by (rule killed_from_inv [OF assms(1-4)])
  then have "socket_path d' \<noteq> None" by (simp add: daemon_inv_def)
  moreover note pinv = daemon_inv_pipe [OF inv, folded assms(5)]
  ultimately show ?thesis
    using in_flight_from_inv [OF pinv] cfg log_texts_from_inv(2) [OF pinv initial_log_ready(1)] initial_log_ready(2) [of cfg fs]
    by auto
qed

theorem daemon_abnormal_end_witness:
  "\<exists>lg d'. daemon_main (\<lambda>_. []) no_ioctl (\<lambda>_. Some 0) demo_ans demo_waits [] bad_joins
     demo_stamp [] demo_fs () = Some (Terminate, lg, Some d') \<and> socket_path d' \<noteq> None \<and>
     (\<exists>held. {#sample7#} = mset (map snd (logged (pipe (app d')))) + held)"
proof -
  obtain lg d' where m: "daemon_main (\<lambda>_. []) no_ioctl (\<lambda>_. Some 0) demo_ans demo_waits [] bad_joins
     demo_stamp [] demo_fs () = Some (Terminate, lg, Some d')" "accepted (qt (pipe (app d'))) = [sample7]"
     "queue (sq (pipe (app d'))) = []"
    using bad_main by blast
  have "distinct (own_fds demo_daemon)" by (simp add: demo_daemon)
  from daemon_abnormal_end [OF demo_main_setup this demo_loop(2) m(1) refl] m(2,3) have
    "socket_path d' \<noteq> None" "\<exists>held. {#sample7#} = mset (map snd (logged (pipe (app d')))) + held"
    by (metis mset.simps add_0_right)+
  with m(1) show ?thesis by blast
qed

text \<open>
  Property C26 (the main loop keeps the daemon consistent). As long as the loop runs, whatever clients
  and device do, the four event sources of the daemon stay registered with their own callbacks, the
  control connections agree with the reactor and are at most 64, and every received sample is accounted
  for as accepted or dropped.
\<close>

theorem daemon_consistent:
  assumes "main_setup inet_pton ans args fs nt w = Ready d" and "distinct (own_fds d)"
    and "waits_ok strerror ioctl waits d" and "main_loop strerror ioctl waits d = Some (r, d')"
  shows "callbacks (daemon_loop d') (source_fd d') = Some Source_cb \<and>
    callbacks (daemon_loop d') (signal_fd d') = Some Signal_cb \<and>
    callbacks (daemon_loop d') (control_fd d') = Some Control_accept_cb \<and>
    callbacks (daemon_loop d') (listen_fd (tcp (pipe (app d')))) = Some Tcp_accept_cb \<and>
    length (clients (control d')) \<le> 64 \<and>
    (\<forall>f. callbacks (daemon_loop d') f = Some (Client_cb f) \<longleftrightarrow> map_of (clients (control d')) f \<noteq> None) \<and>
    received (pipe (app d')) = word_of_nat (length (accepted (qt (pipe (app d'))))) + dropped (sq (pipe (app d')))"
proof -
  obtain cap w0 where "daemon_inv cap w0 d'" by (rule main_loop_state [OF assms]) 
  then show ?thesis
    by (auto simp: daemon_inv_def fixed_callbacks_def server_inv_def pipe_inv_def counts_inv_def
        trace_inv_def daemon_loop_def)
qed

theorem daemon_consistent_witness:
  "callbacks (daemon_loop demo_after) (source_fd demo_after) = Some Source_cb"
proof -
  have "distinct (own_fds demo_daemon)" by (simp add: demo_daemon)
  from daemon_consistent [OF demo_main_setup this demo_loop(2,1)]
  show ?thesis by blast
qed

text \<open>
  Property C24 (reload reaches the driver). With the driver behind the device, \<open>reload\<close> reads the configuration
  file again; an interval within the driver's range is programmed into its settings and its timer, and
  sampling is enabled; any other interval makes the command fail and leaves the driver as it was. The
  samples that are queued and the rest of the daemon are untouched in both cases.
\<close>

theorem reload_reaches_driver:
  assumes "\<not> simulate a" and "load_config_file (file_system a) (config_path a) = Inr cfg"
    and "\<forall>c \<in> set ws. cmd_blank c"
  shows "handle_control_command strerror (drv_ioctl K) gaps (''reload'' @ ws) a =
    (if 10 \<le> unat (sensor_interval_ms cfg) \<and> unat (sensor_interval_ms cfg) \<le> 60000
     then (Inr (''ok'' @ [nl]), a\<lparr>device := (device a)\<lparr>config := \<lparr>interval_ms = sensor_interval_ms cfg, enabled = 1\<rparr>,
             timer := Some (sensor_interval_ms cfg)\<rparr>\<rparr>)
     else (Inl (Sys_error ''ioctl SET_CONFIG'' EINVAL), a))"
proof -
  have "strip_command (''reload'' @ ws) = ''reload''"
    by (rule strip_command_plain [OF assms(3)]) (simp add: cmd_blank_def)
  with assms(1,2) show ?thesis
    by (simp add: handle_control_command_def set_config_def drv_ioctl_def interval_in_range_def not_less
        word_le_nat_alt word_less_nat_alt sensorhub_apply_config_def Let_def)
qed

theorem reload_reaches_driver_witness:
  "fst (handle_control_command (\<lambda>_. []) (drv_ioctl ring_ops) (\<lambda>_. []) (''reload'' @ [cr]) driver_app) = Inr (''ok'' @ [nl]) \<and>
   timer (device (snd (handle_control_command (\<lambda>_. []) (drv_ioctl ring_ops) (\<lambda>_. []) (''reload'' @ [cr]) driver_app))) = Some 500"
proof -
  have "\<not> simulate driver_app" "load_config_file (file_system driver_app) (config_path driver_app) = Inr default_config"
    "\<forall>c \<in> set [cr]. cmd_blank c"
    by (simp_all add: driver_app_def demo_config cmd_blank_def)
  from reload_reaches_driver [OF this, of "\<lambda>_. []" ring_ops "\<lambda>_. []"] show ?thesis by (simp add: default_config_def)
qed

text \<open>
  Control commands. Trailing line breaks and blanks are ignored. \<open>shutdown\<close> answers "ok"
  and ends the main loop; an unknown command changes nothing; \<open>reload\<close> fails, changing nothing, when the
  configuration file cannot be read, is acknowledged without effect in simulation mode, and otherwise
  passes the interval to the driver, whose refusal is an exception.
\<close>

theorem control_commands:
  assumes "\<forall>c \<in> set ws. cmd_blank c"
  shows "handle_control_command strerror ioctl gaps (''shutdown'' @ ws) a = (Inr (''ok'' @ [nl]), a\<lparr>running := False\<rparr>) \<and>
    handle_control_command strerror ioctl gaps (''reload'' @ ws) a =
      (case load_config_file (file_system a) (config_path a) of
         Inl e \<Rightarrow> (Inl e, a)
       | Inr cfg \<Rightarrow>
           if simulate a then (Inr (''ok'' @ [nl]), a)
           else case set_config ioctl \<lparr>interval_ms = sensor_interval_ms cfg, enabled = 1\<rparr> (device a) of
                  (Inl e, w) \<Rightarrow> (Inl e, a\<lparr>device := w\<rparr>)
                | (Inr _, w) \<Rightarrow> (Inr (''ok'' @ [nl]), a\<lparr>device := w\<rparr>)) \<and>
    (cmd \<notin> {''stats'', ''reload'', ''shutdown''} \<longrightarrow>
     cmd = [] \<or> \<not> cmd_blank (last cmd) \<longrightarrow>
     handle_control_command strerror ioctl gaps (cmd @ ws) a = (Inr (''unknown command'' @ [nl]), a))"
proof -
  have "strip_command (''shutdown'' @ ws) = ''shutdown''" "strip_command (''reload'' @ ws) = ''reload''"
    by (rule strip_command_plain [OF assms]; simp add: cmd_blank_def)+
  moreover have "strip_command (cmd @ ws) = cmd"
    if "cmd = [] \<or> \<not> cmd_blank (last cmd)"
    by (rule strip_command_plain [OF assms that])
  ultimately show ?thesis
    by (simp add: handle_control_command_def Let_def cong: sum.case_cong)
qed

theorem control_commands_witness:
  "snd (handle_control_command (\<lambda>_. []) no_ioctl (\<lambda>_. []) (''shutdown'' @ [cr, nl]) (app demo_daemon)) =
     (app demo_daemon)\<lparr>running := False\<rparr>"
proof -
  have "\<forall>c \<in> set [cr, nl]. cmd_blank c" by (simp add: cmd_blank_def)
  from control_commands [OF this, of "\<lambda>_. []" no_ioctl "\<lambda>_. []" "app demo_daemon" "[]"] show ?thesis
    by (metis snd_conv)
qed

text \<open>
  Property C25 (statistics tell the state). With the driver behind the device, the reply of \<open>stats\<close> consists of one
  "name=value" line per counter, in a fixed order: the daemon's counters at the moment of their line, the length and the losses of the
  worker queue, and the driver's counters with the size of its queue in bytes, 32 per queued sample. The
  workers may run between any two of these lines, so the values are not those of one instant; still, they
  never claim too much: received is the number of accepted and dropped samples, and processed and queued
  together are at most the accepted ones. Apart from the work of the workers the command changes nothing.
\<close>

theorem stats_report_state:
  assumes "kfifo_api K bytes ok" and "drv_inv K bytes ok (device a)" and "\<not> simulate a"
    and "pipe_inv cap w0 (pipe a)" and "\<forall>c \<in> set ws. cmd_blank c"
  shows "\<exists>reply n. handle_control_command strerror (drv_ioctl K) gaps (''stats'' @ ws) a =
      (Inr reply, a\<lparr>pipe := view gaps 5 (pipe a)\<rparr>) \<and>
    getlines reply =
      [''mode=driver'',
       ''received='' @ dec (unat (received (pipe a))),
       ''processed='' @ dec (unat (processed (view gaps 1 (pipe a)))),
       ''exported='' @ dec (unat (exported (view gaps 2 (pipe a)))),
       ''tcp_clients='' @ dec (length (tcp_clients (tcp (view gaps 3 (pipe a))))),
       ''queue_size='' @ dec (length (queue (sq (view gaps 4 (pipe a))))),
       ''queue_dropped='' @ dec (unat (dropped (sq (pipe a)))),
       ''driver_generated='' @ dec (unat (d_generated (device a))),
       ''driver_injected='' @ dec (unat (d_injected (device a))),
       ''driver_dropped='' @ dec (unat (d_dropped (device a))),
       ''driver_fifo_bytes='' @ dec (32 * length (queued bytes (device a)))] \<and>
    received (pipe a) = word_of_nat (length (accepted (qt (pipe a)))) + dropped (sq (pipe a)) \<and>
    processed (view gaps 1 (pipe a)) = word_of_nat n \<and>
    n + length (queue (sq (view gaps 4 (pipe a)))) \<le> length (accepted (qt (pipe a)))"
proof -
  let ?v = "\<lambda>n. view gaps n (pipe a)"
  have "strip_command (''stats'' @ ws) = ''stats''"
    by (rule strip_command_plain [OF assms(5)]) (simp add: cmd_blank_def)
  moreover have g: "get_stats (drv_ioctl K) (device a) = (Inr (read_stats K (device a)), device a)"
    by (simp add: get_stats_def drv_ioctl_def)
  moreover have "snd (build_stats_text strerror (drv_ioctl K) gaps a) = a\<lparr>pipe := ?v 5\<rparr>"
    using assms(3) g by (simp add: build_stats_text_def Let_def del: view.simps)
  ultimately have h: "handle_control_command strerror (drv_ioctl K) gaps (''stats'' @ ws) a =
      (Inr (fst (build_stats_text strerror (drv_ioctl K) gaps a)), a\<lparr>pipe := ?v 5\<rparr>)"
    by (auto simp: handle_control_command_def simp del: view.simps split: prod.splits)
  have inv: "pipe_inv cap w0 (?v n)" for n by (rule worker_run_inv [OF worker_run_view assms(4)])
  note q = view_queue [OF assms(4), of gaps]
  have len: "unat (word_of_nat (length (queue (sq (?v 4)))) :: u64) = length (queue (sq (?v 4)))"
  proof -
    have "length (queue (sq (?v 4))) \<le> unat (capacity (sq (?v 4)))"
      using inv [of 4] unfolding pipe_inv_def counts_inv_def trace_inv_def queue_inv_def by blast
    then show ?thesis using unat_less_u64 [of "capacity (sq (?v 4))"]
      by (simp add: unsigned_of_nat take_bit_nat_eq_self)
  qed
  obtain n where n: "processed (?v 1) = word_of_nat n" "n \<le> length (popped (qt (?v 1)))"
    by (rule processed_from_inv [OF inv])
  have "n + length (queue (sq (?v 4))) \<le> length (accepted (qt (pipe a)))"
    using n(2) view_popped [of 1 4 gaps "pipe a"] q(1) [of 4] by simp
  moreover have "received (pipe a) = word_of_nat (length (accepted (qt (pipe a)))) + dropped (sq (pipe a))"
    using assms(4) by (simp add: pipe_inv_def counts_inv_def trace_inv_def)
  ultimately show ?thesis
    using driver_stats_fields [OF assms(1,2)] len h build_stats_lines [of strerror "drv_ioctl K" gaps a] assms(3) g n(1) q(2) [of 5]
    by (intro exI [of _ "fst (build_stats_text strerror (drv_ioctl K) gaps a)"] exI [of _ n]) (simp del: view.simps add: view.simps(1))
qed

text \<open>A worker takes the queued sample while the report is made.\<close>

theorem stats_report_state_witness:
  "\<exists>reply. fst (handle_control_command (\<lambda>_. []) (drv_ioctl ring_ops) (\<lambda>n. if n = 3 then [Pop_at 0] else []) (''stats'' @ [])
      (driver_app\<lparr>pipe := demo_pushed\<rparr>)) = Inr reply \<and>
    ''driver_fifo_bytes='' @ dec 32 \<in> set (getlines reply) \<and> ''queue_size='' @ dec 0 \<in> set (getlines reply)"
proof -
  let ?gaps = "\<lambda>n :: nat. if n = 3 then [Pop_at 0] else []"
  let ?a = "driver_app\<lparr>pipe := demo_pushed\<rparr>"
  let ?w = "new_log_writer ''logs/sensorhub.log'' (1024 * 1024) demo_fs"
  have p: "pipe_inv 1024 ?w demo_pushed"
    by (rule produce_inv [OF demo_produce(1)]) (unfold demo_pipe_def, rule pipe_inv_new)
  have v: "queue (sq (view ?gaps 4 demo_pushed)) = []"
    by (simp add: numeral_eq_Suc run_workers_def demo_pushed_def pushed_def demo_pipe_def demo_defs)
  from stats_report_state [OF ring.kfifo_api_axioms, of ?a 1024 ?w "[]" "\<lambda>_. []" ?gaps]
  obtain reply where "fst (handle_control_command (\<lambda>_. []) (drv_ioctl ring_ops) ?gaps (''stats'' @ []) ?a) = Inr reply"
    "''queue_size='' @ dec (length (queue (sq (view ?gaps 4 demo_pushed)))) \<in> set (getlines reply)"
    "''driver_fifo_bytes='' @ dec (32 * length (queued ring_bytes sampled_ring)) \<in> set (getlines reply)"
    using p sampled_ring_inv by (auto simp: driver_app_def simp del: view.simps dec.simps append_Nil2)
  then show ?thesis using v queued_sampled_ring by (auto simp del: view.simps dec.simps append_Nil2)
qed

text \<open>
  Property C39 (errors at start-up). An error of the TCP port is reported in the log as the line after the
  start message, and the process returns 1 with every descriptor it has obtained closed once. Every later
  error (device, signal descriptor, control socket, event loop) occurs when the worker threads already run, so
  the process does not reach the handler: it terminates, and the log shows the first messages of a normal
  start and nothing of the error.
\<close>

theorem startup_errors:
  assumes "parse_config_arg args ''config/sensorhub.conf'' = Some cpath" and "load_config_file fs cpath = Inr cfg"
    and "fst (create_udp_socket inet_pton ans cfg) = Inr udp"
    and "listen_on (tcp_answers ans) (tcp_listen_port cfg) new_tcp_broadcaster = (r, t)"
    and "thread_failure ans = None"
  shows "(\<forall>e. r = Inl e \<longrightarrow>
       (\<exists>lg. daemon_main strerror ioctl inet_pton ans waits before joins nt args fs w = Some (Exit 1, lg, None) \<and>
          err_lines lg = [log_line (Info, fst (nt 0), snd (nt 0), ''starting sensorhubd''),
            log_line (Error, fst (nt 1), snd (nt 1), what strerror e)]) \<and>
       (\<exists>ms cl. main_setup inet_pton ans args fs nt w = Failed e ms cl \<and>
          mset cl = mset (udp # (case socket_res (tcp_answers ans) of Inl _ \<Rightarrow> [] | Inr g \<Rightarrow> [g])))) \<and>
    (r = Inr () \<longrightarrow>
       (\<exists>e. open_source ans cfg = Inl e) \<or> (\<exists>m e. create_signal_fd ans m = Inl e) \<or>
       (\<exists>e. fst (create_control_socket ans (control_socket cfg)) = Inl e) \<or> (\<exists>e. epoll_create_res ans = Inl e) \<or>
       add_source_err ans \<noteq> None \<or> add_signal_err ans \<noteq> None \<or> add_control_err ans \<noteq> None \<or> add_tcp_err ans \<noteq> None \<longrightarrow>
       (\<exists>k. daemon_main strerror ioctl inet_pton ans waits before joins nt args fs w =
          Some (Terminate, log_infos nt (take k (boot_messages cfg)) new_logger, None)))"
    (is "_ \<and> (r = Inr () \<longrightarrow> ?late \<longrightarrow> ?crash)")
proof -
  have late: "\<exists>e. setup_late ans cfg cpath fs udp t m nt w = Inl e" if ?late for m
  proof (cases "setup_late ans cfg cpath fs udp t m nt w")
    case (Inr d)
    then show ?thesis
      using that by (auto simp: setup_late_def new_epoll_loop_def register_all_def register_cb_def add_def
          create_signal_fd_def split: option.splits sum.splits)
  qed auto
  obtain m where m: "start_workers (thread_failure ans) (unat (worker_threads cfg)) \<lparr>main_mask = initial_mask ans, worker_masks = []\<rparr> = (Inr (), m)"
    using start_workers_ok assms(5) by metis
  obtain cl where u: "create_udp_socket inet_pton ans cfg = (Inr udp, cl)" using assms(3) by (metis prod.collapse)
  have "mset (tcp_closed t @ [udp]) = mset (udp # (case socket_res (tcp_answers ans) of Inl _ \<Rightarrow> [] | Inr g \<Rightarrow> [g]))"
    if "r = Inl e" for e
    using assms(4) that by (auto simp: listen_on_def new_tcp_broadcaster_def close_fd_def split: sum.splits option.splits)
  moreover have "err_lines (log_error (fst (nt 1)) (snd (nt 1)) m (log_infos nt [''starting sensorhubd''] new_logger)) =
      [log_line (Info, fst (nt 0), snd (nt 0), ''starting sensorhubd''), log_line (Error, fst (nt 1), snd (nt 1), m)]" for m
    by (simp add: log_infos_def log_error_def log_info_def log_def new_logger_def)
  moreover have ?crash if "r = Inr ()" ?late
    using late [OF that(2), of m] that(1) u assms(1-4) m by (auto simp: daemon_main_def main_setup_def)
  ultimately show ?thesis using u assms(1-4) by (auto simp: daemon_main_def main_setup_def)
qed

text \<open>A driver device that is not there.\<close>

theorem startup_errors_witness:
  "\<exists>lg. daemon_main (\<lambda>_. []) no_ioctl (\<lambda>_. Some 0) (demo_ans\<lparr>dev_open_res := Inl ENOENT\<rparr>) [] [] [] demo_stamp [] demo_fs () =
     Some (Terminate, lg, None)"
proof -
  let ?ans = "demo_ans\<lparr>dev_open_res := Inl ENOENT\<rparr>"
  have p: "parse_config_arg [] ''config/sensorhub.conf'' = Some ''config/sensorhub.conf''" by simp
  have o: "\<exists>e. open_source ?ans default_config = Inl e"
    by (simp add: open_source_def default_config_def open_device_def)
  have u: "fst (create_udp_socket (\<lambda>_. Some 0) ?ans default_config) = Inr 3"
    by (simp add: create_udp_socket_def demo_ans_def)
  have l: "listen_on (tcp_answers ?ans) (tcp_listen_port default_config) new_tcp_broadcaster =
      (Inr (), new_tcp_broadcaster\<lparr>listen_fd := 4\<rparr>)"
    by (simp add: listen_on_def demo_ans_def new_tcp_broadcaster_def)
  have t: "thread_failure ?ans = None" by (simp add: demo_ans_def)
  from startup_errors [OF p demo_config u l t, where strerror = "\<lambda>_. []" and ioctl = no_ioctl and
      waits = "[]" and before = "[]" and joins = "[]" and nt = demo_stamp and w = "()"] o show ?thesis by blast
qed





end
