(* ===== verification/Tools.thy ===== *)
theory Tools
  imports Daemon
begin

text \<open>
  The command line tools, \<open>userspace/tools\<close>: \<open>sensorctl\<close> (control client), \<open>sensor_subscribe\<close> (TCP
  subscriber) and \<open>sensor_inject\<close> (writes one sample to the driver). A run of a tool is a function from
  its arguments, the file system and the answers of the system calls to its exit code and output.
\<close>

record tool_run =
  exit_code :: nat
  std_out :: string
  std_err :: string

definition tool_error :: "(errno \<Rightarrow> string) \<Rightarrow> string \<Rightarrow> exn \<Rightarrow> string \<Rightarrow> tool_run" where
  "tool_error strerror name e out =
     \<lparr>exit_code = 1, std_out = out, std_err = name @ '': '' @ what strerror e @ [nl]\<rparr>"

section \<open>sensorctl\<close>

definition known_command :: "string \<Rightarrow> bool" where
  "known_command a \<longleftrightarrow> a = ''stats'' \<or> a = ''reload'' \<or> a = ''shutdown''"

fun ctl_args :: "string list \<Rightarrow> string \<Rightarrow> string \<Rightarrow> string \<times> string" where
  "ctl_args [] cpath command = (cpath, command)"
| "ctl_args [a] cpath command =
     (if \<not> known_command a then (cpath, a) else (cpath, command))"
| "ctl_args (a # b # rest) cpath command =
     (if is_config_opt a then ctl_args rest b command
      else if \<not> known_command a then ctl_args (b # rest) cpath a
      else ctl_args (b # rest) cpath command)"

definition ctl_parse :: "string list \<Rightarrow> string \<times> string" where
  "ctl_parse args =
     ctl_args args ''config/sensorhub.conf'' (case args of [] \<Rightarrow> ''stats'' | a # _ \<Rightarrow> a)"

record ctl_answers =
  ctl_socket :: "errno + fd"
  ctl_connect :: "errno option"
  ctl_reads :: "char io_in list"

text \<open>The reading loop ends at the first result that is not positive, an error included.\<close>

fun ctl_read :: "char io_in list \<Rightarrow> string \<Rightarrow> string option" where
  "ctl_read [] out = None"
| "ctl_read (Got buf # rest) out = (if buf \<noteq> [] then ctl_read rest (out @ buf) else Some out)"
| "ctl_read (In_err e # rest) out = Some out"

text \<open>
  The result pairs the run with the command line that was handed to \<open>write\<close>, whose return value the
  program ignores (\<open>None\<close>: nothing was written).
\<close>

definition sensorctl :: "(errno \<Rightarrow> string) \<Rightarrow> ctl_answers \<Rightarrow> (string \<Rightarrow> string option) \<Rightarrow> string list \<Rightarrow>
    (tool_run \<times> string option) option" where
  "sensorctl strerror ans fs args =
     (case ctl_parse args of
        (cpath, command) \<Rightarrow>
          (case load_config_file fs cpath of
             Inl e \<Rightarrow> Some (tool_error strerror ''sensorctl'' e [], None)
           | Inr cfg \<Rightarrow>
               (case ctl_socket ans of
                  Inl e \<Rightarrow> Some (tool_error strerror ''sensorctl'' (Sys_error ''socket'' e) [], None)
                | Inr f \<Rightarrow>
                    (if length (control_socket cfg) \<ge> 108
                     then Some (tool_error strerror ''sensorctl'' (Runtime_error ''control socket path is too long'') [], None)
                     else case ctl_connect ans of
                            Some e \<Rightarrow> Some (tool_error strerror ''sensorctl''
                                        (Sys_error (''connect '' @ control_socket cfg) e) [], None)
                          | None \<Rightarrow>
                              map_option (\<lambda>out. (\<lparr>exit_code = 0, std_out = out, std_err = []\<rparr>, Some (command @ [nl])))
                                (ctl_read (ctl_reads ans) [])))))"

section \<open>sensor_subscribe\<close>

fun sub_args :: "string list \<Rightarrow> string \<Rightarrow> int \<Rightarrow> (string \<times> int) result" where
  "sub_args [] cpath limit = Inr (cpath, limit)"
| "sub_args [a] cpath limit = Inr (cpath, limit)"
| "sub_args (a # b # rest) cpath limit =
     (if is_config_opt a then sub_args rest b limit
      else if a = ''-n'' \<or> a = ''--count'' then bindR (stoi b) (sub_args rest cpath)
      else sub_args (b # rest) cpath limit)"

text \<open>The inner loop: print complete lines while the count is not reached.\<close>

function sub_extract :: "int \<Rightarrow> string \<Rightarrow> int \<Rightarrow> string \<Rightarrow> string \<times> int \<times> string" where
  "sub_extract limit pending n out =
     (case str_find nl pending of
        None \<Rightarrow> (pending, n, out)
      | Some pos \<Rightarrow>
          (if n < limit
           then sub_extract limit (drop (Suc pos) pending) (n + 1) (out @ take pos pending @ [nl])
           else (pending, n, out)))"
  by pat_completeness auto
termination
  by (relation "measure (\<lambda>(_, pending, _, _). length pending)") (auto dest: str_find_less_length)

declare sub_extract.simps [simp del]

fun sub_loop :: "char io_in list \<Rightarrow> int \<Rightarrow> string \<Rightarrow> int \<Rightarrow> string \<Rightarrow> (int result \<times> string) option" where
  "sub_loop [] limit pending n out = (if n < limit then None else Some (Inr n, out))"
| "sub_loop (ans # rest) limit pending n out =
     (if n < limit
      then (case ans of
              In_err e \<Rightarrow> Some (Inl (Sys_error ''read TCP broadcaster'' e), out)
            | Got buf \<Rightarrow>
                (if buf = [] then Some (Inr n, out)
                 else case sub_extract limit (pending @ buf) n out of
                        (pending', n', out') \<Rightarrow> sub_loop rest limit pending' n' out'))
      else Some (Inr n, out))"

record sub_answers =
  sub_socket :: fd
  sub_socket_errno :: errno
  sub_connect :: "errno option"
  sub_reads :: "char io_in list"

definition sensor_subscribe :: "(errno \<Rightarrow> string) \<Rightarrow> sub_answers \<Rightarrow> (string \<Rightarrow> string option) \<Rightarrow> string list \<Rightarrow>
    tool_run option" where
  "sensor_subscribe strerror ans fs args =
     (case bindR (sub_args args ''config/sensorhub.conf'' 5) (\<lambda>(cpath, limit).
             bindR (load_config_file fs cpath) (\<lambda>cfg. Inr (cfg, limit))) of
        Inl e \<Rightarrow> Some (tool_error strerror ''sensor_subscribe'' e [])
      | Inr (cfg, limit) \<Rightarrow>
          (if sub_socket ans < 0
           then Some (tool_error strerror ''sensor_subscribe'' (Sys_error ''socket'' (sub_socket_errno ans)) [])
           else case sub_connect ans of
                  Some e \<Rightarrow> Some (tool_error strerror ''sensor_subscribe'' (Sys_error ''connect TCP broadcaster'' e) [])
                | None \<Rightarrow>
                    (case sub_loop (sub_reads ans) limit [] 0 [] of
                       None \<Rightarrow> None
                     | Some (Inl e, out) \<Rightarrow> Some (tool_error strerror ''sensor_subscribe'' e out)
                     | Some (Inr n, out) \<Rightarrow>
                         Some \<lparr>exit_code = (if n = limit then 0 else 1), std_out = out, std_err = []\<rparr>)))"

section \<open>sensor_inject\<close>

record inject_answers =
  inj_open :: "errno + fd"
  inj_now :: u64

definition inject_sample :: "u64 \<Rightarrow> int \<Rightarrow> sensorhub_sample" where
  "inject_sample now v = zero_sample\<lparr>timestamp_ns := now, stype := SENSORHUB_SAMPLE_USER, value0 := word_of_int v\<rparr>"

text \<open>\<open>write_dev\<close> is the device's \<open>write\<close>: the number of bytes taken or an error.\<close>

definition sensor_inject :: "(errno \<Rightarrow> string) \<Rightarrow> (byte list \<Rightarrow> 'w \<Rightarrow> (errno + nat) \<times> 'w) \<Rightarrow> inject_answers \<Rightarrow>
    errno \<Rightarrow> string list \<Rightarrow> 'w \<Rightarrow> tool_run \<times> 'w" where
  "sensor_inject strerror write_dev ans last_errno args w =
     (let dev = (case args of [] \<Rightarrow> ''/dev/sensorhub0'' | a # _ \<Rightarrow> a)
      in case (case args of _ # v # _ \<Rightarrow> stoi v | _ \<Rightarrow> Inr 12345) of
           Inl e \<Rightarrow> (tool_error strerror ''sensor_inject'' e [], w)
         | Inr v \<Rightarrow>
             (case inj_open ans of
                Inl e \<Rightarrow> (tool_error strerror ''sensor_inject'' (Sys_error (''open '' @ dev) e) [], w)
              | Inr f \<Rightarrow>
                  (case write_dev (encode_sample (inject_sample (inj_now ans) v)) w of
                     (Inl e, w1) \<Rightarrow> (tool_error strerror ''sensor_inject'' (Sys_error ''write sample'' e) [], w1)
                   | (Inr n, w1) \<Rightarrow>
                       (if n \<noteq> sample_size
                        then (tool_error strerror ''sensor_inject'' (Sys_error ''write sample'' last_errno) [], w1)
                        else (\<lparr>exit_code = 0, std_out = ''injected value='' @ dec_int v @ '' to '' @ dev @ [nl],
                               std_err = []\<rparr>, w1)))))"

section \<open>Lines of a byte stream\<close>

text \<open>The complete lines of a stream and the unfinished rest.\<close>

function split_lines :: "string \<Rightarrow> string list \<times> string" where
  "split_lines s =
     (case str_find nl s of
        None \<Rightarrow> ([], s)
      | Some i \<Rightarrow> (case split_lines (drop (Suc i) s) of (ls, r) \<Rightarrow> (take i s # ls, r)))"
  by pat_completeness auto
termination
  by (relation "measure length") (auto dest: str_find_less_length)

declare split_lines.simps [simp del]

lemma split_lines_line: "nl \<notin> set l \<Longrightarrow> split_lines (l @ nl # s) = (l # fst (split_lines s), snd (split_lines s))"
  using split_lines.simps [of "l @ nl # s"] by (simp add: str_find_prefix case_prod_beta)

lemma split_lines_rest: "nl \<notin> set s \<Longrightarrow> split_lines s = ([], s)"
  by (subst split_lines.simps) (simp add: str_find_None [THEN iffD2])

lemma split_lines_unlines:
  "\<forall>l \<in> set ls. nl \<notin> set l \<Longrightarrow> nl \<notin> set part \<Longrightarrow> split_lines (unlines ls @ part) = (ls, part)"
  by (induction ls) (simp_all add: unlines_Cons split_lines_line split_lines_rest)

lemma stream_cases:
  obtains (rest) "nl \<notin> set s" | (line) l t where "nl \<notin> set l" "s = l @ nl # t"
  by (metis split_list_first)

lemma split_lines_append:
  "split_lines (a @ b) =
     (fst (split_lines a) @ fst (split_lines (snd (split_lines a) @ b)), snd (split_lines (snd (split_lines a) @ b)))"
proof (induction "length a" arbitrary: a rule: less_induct)
  case less
  show ?case
  proof (cases a rule: stream_cases)
    case rest
    then show ?thesis by (simp add: split_lines_rest)
  next
    case (line l t)
    then show ?thesis using less [of t] by (simp add: split_lines_line)
  qed
qed

lemma snd_split_lines_no_nl: "nl \<notin> set (snd (split_lines s))"
proof (induction "length s" arbitrary: s rule: less_induct)
  case less
  show ?case
  proof (cases s rule: stream_cases)
    case rest
    then show ?thesis by (simp add: split_lines_rest)
  next
    case (line l t)
    then show ?thesis using less [of t] by (simp add: split_lines_line)
  qed
qed

text \<open>The inner loop prints complete lines up to the count.\<close>

lemma sub_extract_spec:
  "n \<le> limit \<Longrightarrow>
     snd (sub_extract limit pending n out) =
       (min limit (n + int (length (fst (split_lines pending)))),
        out @ unlines (take (nat (limit - n)) (fst (split_lines pending)))) \<and>
     (n + int (length (fst (split_lines pending))) \<le> limit \<longrightarrow>
        fst (sub_extract limit pending n out) = snd (split_lines pending))"
proof (induction "length pending" arbitrary: pending n out rule: less_induct)
  case less
  show ?case
  proof (cases pending rule: stream_cases)
    case rest
    then have "str_find nl pending = None" by (simp add: list_find)
    with rest less.prems show ?thesis by (simp add: split_lines_rest sub_extract.simps)
  next
    case (line l t)
    then have f: "str_find nl pending = Some (length l)" by (simp add: str_find_prefix)
    show ?thesis
    proof (cases "n < limit")
      case True
      then have k: "nat (limit - n) = Suc (nat (limit - (n + 1)))" by arith
      have "sub_extract limit pending n out = sub_extract limit t (n + 1) (out @ l @ [nl])"
        using True line f by (subst sub_extract.simps) simp
      with less.hyps [of t "n + 1" "out @ l @ [nl]"] True line k show ?thesis
        by (simp add: split_lines_line unlines_Cons add_ac)
    next
      case False
      have "sub_extract limit pending n out = (pending, n, out)"
        using False f by (subst sub_extract.simps) simp
      with False less.prems line show ?thesis by (simp add: split_lines_line)
    qed
  qed
qed

lemma sub_loop_spec:
  assumes "\<forall>x \<in> set xs. \<exists>buf. x = Got buf \<and> buf \<noteq> []" "nl \<notin> set pending" "n \<le> limit"
  shows "sub_loop (xs @ [Got []]) limit pending n out =
    Some (Inr (min limit (n + int (length (fst (split_lines (pending @ data_of xs)))))),
          out @ unlines (take (nat (limit - n)) (fst (split_lines (pending @ data_of xs)))))"
  using assms
proof (induction xs arbitrary: pending n out)
  case Nil
  then show ?case by (auto simp: split_lines_rest)
next
  case (Cons x xs)
  obtain buf where x: "x = Got buf" "buf \<noteq> []" using Cons.prems(1) by auto
  let ?sp = "split_lines (pending @ buf)"
  have split: "fst (split_lines (pending @ buf @ data_of xs)) = fst ?sp @ fst (split_lines (snd ?sp @ data_of xs))"
    using split_lines_append [of "pending @ buf" "data_of xs"] by simp
  obtain p n' out' where e: "sub_extract limit (pending @ buf) n out = (p, n', out')" by (metis prod_cases3)
  note spec = sub_extract_spec [OF Cons.prems(3), of "pending @ buf" out, unfolded e]
  show ?case
  proof (cases "n < limit")
    case False
    with Cons.prems show ?thesis by simp
  next
    case True
    show ?thesis
    proof (cases "n + int (length (fst ?sp)) \<le> limit")
      case fits: True
      with spec have "p = snd ?sp" "n' = n + int (length (fst ?sp))" "out' = out @ unlines (fst ?sp)"
        by auto
      moreover have "nat (limit - (n + int (length (fst ?sp)))) = nat (limit - n) - length (fst ?sp)"
        by arith
      ultimately show ?thesis
        using Cons.IH [of "snd ?sp" n' out'] Cons.prems fits True x e split snd_split_lines_no_nl
        by (simp add: unlines_def add_ac)
    next
      case False
      with spec have "n' = limit" "out' = out @ unlines (take (nat (limit - n)) (fst ?sp))" by auto
      with True x e split False show ?thesis by (cases xs) (auto simp: take_append)
    qed
  qed
qed

lemma ctl_read_spec:
  "\<forall>x \<in> set xs. \<exists>buf. x = Got buf \<and> buf \<noteq> [] \<Longrightarrow> ctl_read (xs @ Got [] # rest) out = Some (out @ data_of xs)"
  by (induction xs arbitrary: out) auto

text \<open>The driver as the device that \<open>sensor_inject\<close> writes to.\<close>

definition drv_write :: "'f kfifo_ops \<Rightarrow> u64 \<Rightarrow> byte list \<Rightarrow> 'f sensorhub_device \<Rightarrow> (errno + nat) \<times> 'f sensorhub_device" where
  "drv_write K now buf d =
     (case sensorhub_write K False now buf d of
        (Err e, d1) \<Rightarrow> (Inl e, d1)
      | (Ret n, d1) \<Rightarrow> (Inr n, d1)
      | (Data bs, d1) \<Rightarrow> (Inr (length bs), d1))"

lemma subscriber_run:
  assumes "sub_args args ''config/sensorhub.conf'' 5 = Inr (cpath, limit)" "load_config_file fs cpath = Inr cfg"
    and "0 \<le> sub_socket ans" "sub_connect ans = None" "sub_reads ans = xs @ [Got []]" "0 \<le> limit"
    and "\<forall>x \<in> set xs. \<exists>buf. x = Got buf \<and> buf \<noteq> []" "data_of xs = unlines ls @ part"
    and "\<forall>l \<in> set ls. nl \<notin> set l" "nl \<notin> set part"
  shows "sensor_subscribe strerror ans fs args =
    Some \<lparr>exit_code = (if limit \<le> int (length ls) then 0 else 1), std_out = unlines (take (nat limit) ls), std_err = []\<rparr>"
proof -
  have "fst (split_lines (data_of xs)) = ls"
    using split_lines_unlines [OF assms(9,10)] assms(8) by simp
  then have "sub_loop (sub_reads ans) limit [] 0 [] = Some (Inr (min limit (int (length ls))), unlines (take (nat limit) ls))"
    using sub_loop_spec [OF assms(7), of "[]" 0 limit "[]"] assms(5,6) by simp
  moreover have "min limit (int (length ls)) = limit \<longleftrightarrow> limit \<le> int (length ls)" by auto
  ultimately show ?thesis using assms(1-4) by (simp add: sensor_subscribe_def)
qed

section \<open>Properties\<close>

text \<open>
  The subscriber prints whole lines, however TCP cuts the stream. For every segmentation of a
  stream of complete lines with an unfinished rest, ended by the peer, \<open>sensor_subscribe\<close> prints exactly
  the first lines, as many as it was asked for, and returns 0 exactly when there were enough.
\<close>

theorem subscriber_prints_lines:
  assumes "sub_args args ''config/sensorhub.conf'' 5 = Inr (cpath, limit)" "load_config_file fs cpath = Inr cfg"
    and "0 \<le> sub_socket ans" "sub_connect ans = None" "sub_reads ans = xs @ [Got []]" "0 \<le> limit"
    and "\<forall>x \<in> set xs. \<exists>buf. x = Got buf \<and> buf \<noteq> []" "data_of xs = unlines ls @ part"
    and "\<forall>l \<in> set ls. nl \<notin> set l" "nl \<notin> set part"
  shows "sensor_subscribe strerror ans fs args =
    Some \<lparr>exit_code = (if limit \<le> int (length ls) then 0 else 1), std_out = unlines (take (nat limit) ls), std_err = []\<rparr>"
  using assms by (intro subscriber_run)

definition demo_conf :: "string \<Rightarrow> string option" where
  "demo_conf p = (if p = ''config/sensorhub.conf'' then Some [] else None)"

lemma demo_conf: "load_config_file demo_conf ''config/sensorhub.conf'' = Inr default_config"
  by (simp add: load_config_file_def demo_conf_def default_config_def)

theorem subscriber_prints_lines_witness:
  "sensor_subscribe (\<lambda>_. []) \<lparr>sub_socket = 3, sub_socket_errno = EINVAL, sub_connect = None,
       sub_reads = [Got ''a'', Got (nl # ''bc'')] @ [Got []]\<rparr> demo_conf [''-n'', ''1''] =
     Some \<lparr>exit_code = 0, std_out = ''a'' @ [nl], std_err = []\<rparr>"
proof -
  have "dec 1 = ''1''" by code_simp
  then have n: "stoi ''1'' = Inr 1" using stoi_dec [of 1] by simp
  have "sensor_subscribe (\<lambda>_. []) \<lparr>sub_socket = 3, sub_socket_errno = EINVAL, sub_connect = None,
       sub_reads = [Got ''a'', Got (nl # ''bc'')] @ [Got []]\<rparr> demo_conf [''-n'', ''1''] =
     Some \<lparr>exit_code = (if 1 \<le> int (length [''a'']) then 0 else 1), std_out = unlines (take (nat 1) [''a'']), std_err = []\<rparr>"
    by (rule subscriber_prints_lines [OF _ demo_conf, where part = "''bc''" and
          xs = "[Got ''a'', Got (nl # ''bc'')]"])
      (simp_all add: is_config_opt_def n unlines_def)
  then show ?thesis by (simp add: unlines_def)
qed

text \<open>
  Arguments of \<open>sensorctl\<close>. With the command first, options after it are understood. With the
  configuration option first, the command is lost: the tool then sends "-c" to the daemon.
\<close>

theorem sensorctl_option_first:
  assumes "known_command cmd" and "is_config_opt opt"
  shows "ctl_parse [cmd, opt, f] = (f, cmd) \<and> ctl_parse [opt, f, cmd] = (f, opt)"
proof -
  have "\<not> is_config_opt cmd" "\<not> known_command opt"
    using assms by (auto simp: known_command_def is_config_opt_def)
  with assms show ?thesis by (simp add: ctl_parse_def)
qed

theorem sensorctl_option_first_witness:
  "ctl_parse [''-c'', ''my.conf'', ''stats''] = (''my.conf'', ''-c'')"
  using sensorctl_option_first [of "''stats''" "''-c''" "''my.conf''"]
  by (simp add: known_command_def is_config_opt_def)

text \<open>
  Injection. \<open>sensor_inject\<close> with a number stores one sample in the driver's queue: user
  type, the given value, the driver's time and next sequence number; it succeeds even when the queue is
  full, in which case the driver only counts the loss.
\<close>

theorem inject_reaches_queue:
  assumes "kfifo_api K bytes ok" and "drv_inv K bytes ok d" and "stoi v = Inr n" and "inj_open ans = Inr f"
    and "sensor_inject strerror (drv_write K now) ans e (dev # v # rest) d = (run, d')"
  shows "exit_code run = 0 \<and>
    (if length (queued bytes d) < 2048
     then queued bytes d' = queued bytes d @ [\<lparr>seq = next_seq d, timestamp_ns = now, stype = SENSORHUB_SAMPLE_USER,
            value0 = word_of_int n, value1 = 0, value2 = 0\<rparr>] \<and> d_injected d' = d_injected d + 1
     else queued bytes d' = queued bytes d \<and> d_dropped d' = d_dropped d + 1)"
proof -
  let ?s = "(inject_sample (inj_now ans) n)\<lparr>timestamp_ns := now, stype := SENSORHUB_SAMPLE_USER\<rparr>"
  have d': "d' = sensorhub_push_sample K ?s True d" and ex: "exit_code run = 0"
    using assms(3-5) by (auto simp: sensor_inject_def drv_write_def sensorhub_write_def)
  have "abs_device bytes d' = spec_push ?s True (abs_device bytes d)"
    unfolding d' by (rule kfifo_api.push_refines(1) [OF assms(1,2)])
  from arg_cong [OF this, of fifo] arg_cong [OF this, of d_injected] arg_cong [OF this, of d_dropped] ex
  show ?thesis
    by (auto simp: abs_device_def spec_push_def Let_def inject_sample_def zero_sample_def split: if_splits)
qed

lemma inject_inv:
  assumes "kfifo_api K bytes ok" "drv_inv K bytes ok d" "stoi v = Inr n" "inj_open ans = Inr f"
    "sensor_inject strerror (drv_write K now) ans e (dev # v # rest) d = (run, d')"
  shows "drv_inv K bytes ok d'"
  using assms(3-5) kfifo_api.push_refines(2) [OF assms(1,2)]
  by (auto simp: sensor_inject_def drv_write_def sensorhub_write_def)

theorem inject_reaches_queue_witness:
  "\<exists>d'. queued ring_bytes d' = [\<lparr>seq = 0, timestamp_ns = 9, stype = SENSORHUB_SAMPLE_USER,
     value0 = 7, value1 = 0, value2 = 0\<rparr>] \<and>
     d' = snd (sensor_inject (\<lambda>_. []) (drv_write ring_ops 9) \<lparr>inj_open = Inr 3, inj_now = 1\<rparr> EINVAL
       [''/dev/sensorhub0'', ''7''] loaded_ring)"
proof -
  have "dec 7 = ''7''" by code_simp
  then have n: "stoi ''7'' = Inr 7" using stoi_dec [of 7] by simp
  from queued_loaded_ring next_seq_loaded_ring show ?thesis
    using inject_reaches_queue [OF ring.kfifo_api_axioms loaded_ring_inv n, of "\<lparr>inj_open = Inr 3, inj_now = 1\<rparr>" 3
        "\<lambda>_. []" 9 EINVAL "''/dev/sensorhub0''" "[]"]
    by (metis (no_types, lifting) append_Nil inject_answers.select_convs(1) length_greater_0_conv list.size(3)
        prod.collapse word_of_int_numeral zero_less_numeral)
qed

end
