(* ===== verification/Delivery.thy ===== *)
theory Delivery
  imports Daemon_Properties Tools
begin

text \<open>
  The way of a sample through the pipeline, seen from its two ends: what a batch of pushes adds to the
  worker queue while the workers run, and what the actions of the pipeline put on the wire of one
  subscriber.
\<close>

section \<open>From the driver into the pipeline\<close>

lemma produce_queue:
  assumes "produce s who p = Some p'"
  shows "\<exists>b. accepted (qt p') = accepted (qt p) @ (if b then [s] else []) \<and>
    rejected (qt p') = rejected (qt p) + (if b then 0 else 1) \<and> received p' = received p + 1"
proof -
  have "qt p' = queue_step (Push s) (qt p) \<and> received p' = received p + 1"
    using assms by (cases rule: produce_cases) (simp_all add: pushed_def)
  then show ?thesis
    by (intro exI [of _ "fst (push s (sq p))"]) (auto simp: queue_step.simps split: prod.splits if_splits)
qed

lemma push_samples_queue:
  "push_samples ss sch p = Some p' \<Longrightarrow> \<not> terminated p' \<Longrightarrow>
     \<exists>ks. subseq ks ss \<and> accepted (qt p') = accepted (qt p) @ ks \<and>
       rejected (qt p') + length ks = rejected (qt p) + length ss \<and> received p' = received p + word_of_nat (length ss)"
proof (induction ss sch p rule: push_samples.induct)
  case (3 s ss as who sch p)
  then obtain p1 p2 where p: "run_actions as p = Some p1" "produce s who p1 = Some p2"
    "push_samples ss sch p2 = Some p'" "list_all worker_action as" "\<not> terminated p1"
    using push_samples_step [OF "3.prems"(1)] "3.prems"(2) by metis
  from 3 p obtain ks where ks: "subseq ks ss" "accepted (qt p') = accepted (qt p2) @ ks"
    "rejected (qt p') + length ks = rejected (qt p2) + length ss" "received p' = received p2 + word_of_nat (length ss)"
    by auto
  obtain b where "accepted (qt p2) = accepted (qt p1) @ (if b then [s] else [])"
    "rejected (qt p2) = rejected (qt p1) + (if b then 0 else 1)" "received p2 = received p1 + 1"
    using produce_queue [OF p(2)] by blast
  with ks worker_run_queue [OF p(1,4)] show ?case
    by (intro exI [of _ "(if b then [s] else []) @ ks"]) auto
qed simp_all

lemma push_samples_reach: "push_samples ss sch p = Some p' \<Longrightarrow> reach p0 p \<Longrightarrow> reach p0 p'"
proof (induction ss sch p rule: push_samples.induct)
  case (3 s ss as who sch p)
  from "3.prems"(1) show ?case
  proof (cases rule: push_samples_step)
    case killed
    then show ?thesis using reach_run "3.prems"(2) by blast
  next
    case (pushed p1 p2)
    then have "act (Produce s who) p1 = Some p2" by simp
    then have "reach p0 p2" using reach_run [OF "3.prems"(2) pushed(1)] by (rule reach.step [rotated])
    with 3 pushed show ?thesis by auto
  qed
qed simp_all

text \<open>When nothing was rejected, a batch is accepted as a whole.\<close>

lemma push_samples_all:
  assumes "push_samples ss sch p = Some p'" "\<not> terminated p'" "rejected (qt p') = rejected (qt p)"
  shows "accepted (qt p') = accepted (qt p) @ ss"
  using push_samples_queue [OF assms(1,2)] assms(3) subseq_same_length by fastforce

section \<open>From the pipeline to a subscriber\<close>

text \<open>\<open>accept4\<close> returns descriptors that are not in use.\<close>

fun new_fds :: "(errno + fd) list \<Rightarrow> fd list" where
  "new_fds [] = []"
| "new_fds (Inl e # rest) = []"
| "new_fds (Inr f # rest) = f # new_fds rest"

fun fresh_accepts :: "action list \<Rightarrow> pipeline \<Rightarrow> bool" where
  "fresh_accepts [] p = True"
| "fresh_accepts (a # as) p =
     ((case a of Accept_tcp xs \<Rightarrow> distinct (tcp_clients (tcp p) @ new_fds xs) | _ \<Rightarrow> True) \<and>
      (case act a p of None \<Rightarrow> True | Some p1 \<Rightarrow> fresh_accepts as p1))"

lemma tcp_accept_ready_fds:
  "tcp_accept_ready xs t = Some (r, t') \<Longrightarrow> tcp_clients t' = tcp_clients t @ new_fds xs \<and>
     (\<forall>f. f \<notin> set (new_fds xs) \<longrightarrow> tcp_wire t' f = tcp_wire t f)"
  by (induction xs t rule: tcp_accept_ready.induct) (auto split: if_splits)

text \<open>One action either leaves the broadcaster alone, accepts subscribers or broadcasts one line.\<close>

lemma act_tcp:
  assumes "act a p = Some p'"
  obtains (same) "tcp p' = tcp p" "published p' = published p"
    | (accept) xs r where "a = Accept_tcp xs" "tcp_accept_ready xs (tcp p) = Some (r, tcp p')" "published p' = published p"
    | (line) ans l where "tcp p' = broadcast_line ans l (tcp p)" "published p' = published p @ [(ans, l)]"
proof (cases a)
  case (Accept_tcp xs)
  then show thesis using assms that(2) by (auto split: if_splits option.splits prod.splits sum.splits)
next
  case (Tcp_at i ans)
  then have "tcp_at i ans p = Some p'" using assms by simp
  then show thesis by (cases rule: tcp_at_cases) (use that(3) in simp)
next
  case (Produce s who)
  then have "produce s who p = Some p'" using assms by simp
  then show thesis by (cases rule: produce_cases) (use that(1) in \<open>simp_all add: pushed_def\<close>)
next
  case (Pop_at i)
  then have "pop_at i p = Some p'" using assms by simp
  then show thesis by (cases rule: pop_at_cases) (use that(1) in simp_all)
next
  case (Write_at i ans)
  then have "write_at i ans p = Some p'" using assms by simp
  then show thesis by (cases rule: write_at_cases) (use that(1) in simp_all)
next
  case (Udp_at i)
  then have "udp_at i p = Some p'" using assms by simp
  then show thesis by (cases rule: udp_at_cases) (use that(1) in simp)
qed (use assms that(1) in \<open>auto split: if_splits\<close>)

lemma run_published: "run_actions as p = Some p' \<Longrightarrow> \<exists>bs. published p' = published p @ bs"
proof (induction as arbitrary: p)
  case (Cons a as)
  then obtain p1 where p1: "act a p = Some p1" "run_actions as p1 = Some p'" by (auto split: option.splits)
  with Cons.IH [OF p1(2)] show ?case by (auto elim!: act_tcp)
qed simp

lemma run_subscriber:
  "run_actions as p = Some p' \<Longrightarrow> fresh_accepts as p \<Longrightarrow> distinct (tcp_clients (tcp p)) \<Longrightarrow> f \<in> set (tcp_clients (tcp p)) \<Longrightarrow>
     \<exists>bs. published p' = published p @ bs \<and>
       ((\<forall>(ans, l) \<in> set bs. stays (l @ [nl]) (ans f)) \<longrightarrow>
        tcp_wire (tcp p') f = tcp_wire (tcp p) f @ unlines (lines_for f bs))"
proof (induction as arbitrary: p)
  case (Cons a as)
  then obtain p1 where p1: "act a p = Some p1" "run_actions as p1 = Some p'" by (auto split: option.splits)
  have fr: "fresh_accepts as p1" using Cons.prems(2) p1(1) by simp
  from p1(1) show ?case
  proof (cases rule: act_tcp)
    case same
    with Cons.IH [OF p1(2) fr] Cons.prems show ?thesis by simp
  next
    case (accept xs r)
    from tcp_accept_ready_fds [OF accept(2)] Cons.prems accept(1) have
      "distinct (tcp_clients (tcp p1))" "f \<in> set (tcp_clients (tcp p1))" "tcp_wire (tcp p1) f = tcp_wire (tcp p) f"
      by auto
    with Cons.IH [OF p1(2) fr] accept(3) show ?thesis by simp
  next
    case (line ans l)
    show ?thesis
    proof (cases "stays (l @ [nl]) (ans f)")
      case True
      then have t: "f \<in> set (tcp_clients (tcp p1))" "distinct (tcp_clients (tcp p1))"
        "tcp_wire (tcp p1) f = tcp_wire (tcp p) f @ unlines (lines_for f [(ans, l)])"
        using Cons.prems(3,4) by (auto simp: line(1) broadcast_line_spec taken_stays unlines_Cons)
      from Cons.IH [OF p1(2) fr t(2,1)] obtain bs where
        "published p' = published p1 @ bs"
        "(\<forall>(ans, l) \<in> set bs. stays (l @ [nl]) (ans f)) \<longrightarrow>
           tcp_wire (tcp p') f = tcp_wire (tcp p1) f @ unlines (lines_for f bs)" by blast
      with t(3) line(2) show ?thesis
        by (intro exI [of _ "(ans, l) # bs"]) (auto simp: unlines_Cons)
    next
      case False
      from run_published [OF p1(2)] obtain bs where "published p' = published p1 @ bs" by blast
      with False line(2) show ?thesis by (intro exI [of _ "(ans, l) # bs"]) auto
    qed
  qed
qed simp

lemma published_segment:
  assumes "prefix (map snd (logged p)) (accepted (qt p))"
    "prefix (map snd (published p)) (map sample_to_line (map snd (logged p)))"
    and "n \<le> length (published p)"
  shows "map snd (drop n (published p)) =
      map sample_to_line (take (length (published p) - n) (drop n (accepted (qt p))))"
    and "length (take (length (published p) - n) (drop n (accepted (qt p)))) = length (published p) - n"
proof -
  from assms(1,2) have "prefix (map snd (published p)) (map sample_to_line (accepted (qt p)))"
    by (meson map_mono_prefix prefix_order.trans)
  then obtain r where r: "map sample_to_line (accepted (qt p)) = map snd (published p) @ r" by (auto simp: prefix_def)
  from arg_cong [OF r, of length] assms(3)
  show len: "length (take (length (published p) - n) (drop n (accepted (qt p)))) = length (published p) - n" by simp
  have "map sample_to_line (take (length (published p) - n) (drop n (accepted (qt p)))) =
      take (length (published p) - n) (drop n (map snd (published p) @ r))"
    by (simp add: r [symmetric] take_map drop_map)
  then show "map snd (drop n (published p)) =
      map sample_to_line (take (length (published p) - n) (drop n (accepted (qt p))))"
    using assms(3) by (simp add: drop_map)
qed

end
