(* ===== verification/Descriptors.thy ===== *)
theory Descriptors
  imports Delivery
begin

text \<open>
  File descriptors of the daemon: every descriptor that the daemon obtains, at start-up or by accepting a
  connection, is closed exactly once until the process has returned from \<open>main\<close>. The ledger of a state
  collects the descriptors that a component still owns or has closed; operations keep it, and accepting
  a connection adds the new descriptor.
\<close>

section \<open>Control connections\<close>

definition control_ledger :: "control_server \<Rightarrow> fd multiset" where
  "control_ledger s = mset (map fst (clients s)) + mset (closed_fds s)"

lemma mset_delete:
  "distinct (map fst xs) \<Longrightarrow> map_of xs f \<noteq> None \<Longrightarrow>
     mset (map fst xs) = add_mset f (mset (map fst (AList.delete f xs)))"
proof (induction xs)
  case (Cons x xs)
  show ?case
  proof (cases "fst x = f")
    case True
    then have "f \<notin> fst ` set xs" using Cons.prems(1) by auto
    then have "AList.delete f xs = xs" by (simp add: delete_id)
    with True show ?thesis by (cases x) simp
  next
    case False
    with Cons show ?thesis by (cases x) auto
  qed
qed simp

lemma ledger_close:
  "distinct (map fst (clients s)) \<Longrightarrow> map_of (clients s) f \<noteq> None \<Longrightarrow>
     control_ledger (close_client f s) = control_ledger s"
  using mset_delete [of "clients s" f] by (simp add: control_ledger_def close_client_def)

lemma keys_put: "map_of (clients s) f \<noteq> None \<Longrightarrow> map fst (clients (put_client f c s)) = map fst (clients s)"
  by (auto simp: put_client_def update_keys map_of_eq_None_iff)

lemma ledger_put: "map_of (clients s) f \<noteq> None \<Longrightarrow> control_ledger (put_client f c s) = control_ledger s"
  by (simp add: control_ledger_def keys_put) (simp add: put_client_def)

lemma ledger_respond:
  assumes "respond f ev io c s = Some (r, s')" "distinct (map fst (clients s))" "map_of (clients s) f \<noteq> None"
  shows "control_ledger s' = control_ledger s \<and> epoll_fd (loop s') = epoll_fd (loop s)"
proof -
  obtain out c1 w where l: "send_loop ev (sends io) c (wire s f) = Some (out, c1, w)"
    using assms(1) by (auto simp: respond_def split: option.splits)
  define s1 where "s1 = put_client f c1 (s\<lparr>wire := (wire s)(f := w)\<rparr>)"
  have s1: "control_ledger s1 = control_ledger s" "distinct (map fst (clients s1))" "map_of (clients s1) f \<noteq> None"
    "epoll_fd (loop s1) = epoll_fd (loop s)"
    using assms(2,3) by (simp_all add: s1_def ledger_put keys_put) (simp_all add: control_ledger_def)
  show ?thesis
  proof (cases out)
    case Finished
    then have "s' = close_client f s1" using assms(1) l by (simp add: respond_def s1_def)
    then show ?thesis using ledger_close [OF s1(2,3)] s1 by (simp add: close_client_def remove_def)
  next
    case Blocked
    then have "s' = s1\<lparr>loop := snd (modify (mod_err io) f EPOLLOUT (loop s1))\<rparr>"
      using assms(1) l by (auto simp: respond_def s1_def split: prod.splits)
    then show ?thesis using s1 by (simp add: control_ledger_def modify_def split: option.splits)
  qed
qed

lemma ledger_ready:
  assumes "ready h f ev io (s, a) = Some (r, s', a')" "distinct (map fst (clients s))"
  shows "control_ledger s' = control_ledger s \<and> epoll_fd (loop s') = epoll_fd (loop s)"
proof (cases "map_of (clients s) f")
  case None
  then show ?thesis using assms(1) by (simp add: ready_def)
next
  case (Some c)
  obtain out c1 a1 where o: "(if responding c then Some (Respond, c, a) else recv_loop h ev (recvs io) c a) = Some (out, c1, a1)"
    using assms(1) Some by (auto simp: ready_def split: option.splits)
  define s1 where "s1 = put_client f c1 s"
  have s1: "control_ledger s1 = control_ledger s" "distinct (map fst (clients s1))" "map_of (clients s1) f \<noteq> None"
    "loop s1 = loop s"
    using assms(2) Some by (simp_all add: s1_def ledger_put keys_put)
  show ?thesis
  proof (cases out)
    case Keep
    then show ?thesis using assms(1) Some o s1 by (simp add: ready_def s1_def)
  next
    case Hang_up
    then have "s' = close_client f s1" using assms(1) Some o by (simp add: ready_def s1_def)
    then show ?thesis using ledger_close [OF s1(2,3)] s1 by (simp add: close_client_def remove_def)
  next
    case Respond
    then obtain r1 where "respond f ev io c1 s1 = Some (r1, s')"
      using assms(1) Some o by (auto simp: ready_def s1_def)
    from ledger_respond [OF this s1(2,3)] s1 show ?thesis by simp
  qed
qed

lemma epoll_fd_removes: "epoll_fd (fold (\<lambda>entry l. remove (fst entry) l) xs l) = epoll_fd l"
  by (induction xs arbitrary: l) (simp_all add: remove_def)

text \<open>The descriptors that one call of \<open>accept_ready\<close> takes from the system.\<close>

fun accepted_fds :: "accept_answer list \<Rightarrow> control_server \<Rightarrow> fd list" where
  "accepted_fds [] s = []"
| "accepted_fds (Accept_err e # rest) s = (if e = EINTR then accepted_fds rest s else [])"
| "accepted_fds (Accepted f ctl_err # rest) s =
     f # (case add_client ctl_err f s of (Inl e, s') \<Rightarrow> [] | (Inr _, s') \<Rightarrow> accepted_fds rest s')"

lemma ledger_add:
  assumes "add_client err f s = (r, s')" "distinct (map fst (clients s))"
  shows "control_ledger s' = add_mset f (control_ledger s) \<and> distinct (map fst (clients s')) \<and>
    epoll_fd (loop s') = epoll_fd (loop s)"
proof -
  show ?thesis
  proof (cases "map_of (clients s) f")
    case None
    then have "f \<notin> fst ` set (clients s)" by (simp add: map_of_eq_None_iff)
    with None assms show ?thesis
      by (auto simp: add_client_def control_ledger_def add_def Let_def delete_id split: if_splits option.splits)
  next
    case (Some c)
    then have "image_mset fst (mset (clients s)) = add_mset f (image_mset fst (mset (AList.delete f (clients s))))"
      using mset_delete [OF assms(2), of f] by simp
    with Some assms show ?thesis
      by (auto simp: add_client_def control_ledger_def add_def Let_def distinct_delete split: if_splits option.splits)
  qed
qed

lemma ledger_accept:
  "accept_ready xs s = Some (r, s') \<Longrightarrow> distinct (map fst (clients s)) \<Longrightarrow>
     control_ledger s' = control_ledger s + mset (accepted_fds xs s) \<and> epoll_fd (loop s') = epoll_fd (loop s)"
proof (induction xs s rule: accept_ready.induct)
  case (3 f err rest s)
  obtain r1 s1 where a: "add_client err f s = (r1, s1)" by fastforce
  with 3 ledger_add [OF a 3(3)] show ?case by (cases r1) auto
qed (auto split: if_splits)

section \<open>Subscribers\<close>

definition tcp_ledger :: "tcp_broadcaster \<Rightarrow> fd multiset" where
  "tcp_ledger t = mset (tcp_clients t) + mset (tcp_closed t)"

lemma ledger_send_each:
  "send_each ans fs p t = (kept, t') \<Longrightarrow> mset kept + mset (tcp_closed t') = mset fs + mset (tcp_closed t)"
proof (induction fs arbitrary: kept t t')
  case (Cons f fs)
  show ?case
  proof (cases "stays p (ans f)")
    case True
    then obtain t1 where "send_each ans (f # fs) p t = (case send_each ans fs p t1 of (kept, s') \<Rightarrow> (f # kept, s'))"
      "tcp_closed t1 = tcp_closed t"
      by (cases "ans f") (auto simp: send_defs Let_def)
    with Cons.IH Cons.prems show ?thesis by (auto split: prod.splits)
  next
    case False
    then obtain t1 where "send_each ans (f # fs) p t = send_each ans fs p t1" "tcp_closed t1 = tcp_closed t @ [f]"
      by (cases "ans f") (auto simp: send_defs Let_def close_fd_def)
    with Cons.IH Cons.prems show ?thesis by fastforce
  qed
qed simp

lemma ledger_broadcast: "tcp_ledger (broadcast_line ans l t) = tcp_ledger t"
  using ledger_send_each [of ans "tcp_clients t" "l @ [nl]" t]
  by (auto simp: tcp_ledger_def broadcast_line_def split: prod.splits)

lemma ledger_worker_action: "act a p = Some p' \<Longrightarrow> worker_action a \<Longrightarrow> tcp_ledger (tcp p') = tcp_ledger (tcp p)"
  by (erule act_tcp) (auto simp: ledger_broadcast)

lemma ledger_run: "run_actions as p = Some p' \<Longrightarrow> list_all worker_action as \<Longrightarrow> tcp_ledger (tcp p') = tcp_ledger (tcp p)"
  by (induction as arbitrary: p) (auto split: option.splits dest: ledger_worker_action)

lemma ledger_worker_run: "worker_run p p' \<Longrightarrow> tcp_ledger (tcp p') = tcp_ledger (tcp p)"
  by (auto simp: worker_run_def intro: ledger_run)

lemma ledger_produce: "produce s who p = Some p' \<Longrightarrow> tcp p' = tcp p"
  by (erule produce_cases) (simp_all add: pushed_def)

lemma ledger_push: "push_samples ss sch p = Some p' \<Longrightarrow> tcp_ledger (tcp p') = tcp_ledger (tcp p)"
proof (induction ss sch p rule: push_samples.induct)
  case (3 s ss as who sch p)
  from "3.prems" show ?case
  proof (cases rule: push_samples_step)
    case killed
    then show ?thesis by (simp add: ledger_run)
  next
    case (pushed p1 p2)
    then have "tcp_ledger (tcp p') = tcp_ledger (tcp p2)" using 3 by simp
    then show ?thesis using ledger_run [OF pushed(1,5)] ledger_produce [OF pushed(3)] by simp
  qed
qed simp_all

section \<open>The whole daemon\<close>

definition ledger :: "'w daemon \<Rightarrow> fd multiset" where
  "ledger d = control_ledger (control d) + tcp_ledger (tcp (pipe (app d)))"

text \<open>The descriptors that exist from start-up to the end of \<open>main\<close>.\<close>

definition fixed_fds :: "'w daemon \<Rightarrow> fd list" where
  "fixed_fds d = own_fds d @ [udp_fd d, epoll_fd (daemon_loop d)]"

text \<open>The descriptors that a callback, a batch of events and the main loop take from the system.\<close>

fun subscriber_fds :: "(action list \<times> (errno + fd)) list \<Rightarrow> pipeline \<Rightarrow> fd list" where
  "subscriber_fds [] p = []"
| "subscriber_fds ((as, x) # rest) p =
     (case run_actions as p of
        None \<Rightarrow> []
      | Some p1 \<Rightarrow>
          (if terminated p1 then []
           else case x of
                  Inl e \<Rightarrow> []
                | Inr f \<Rightarrow> f # subscriber_fds rest (p1\<lparr>tcp := add_subscriber f (tcp p1)\<rparr>)))"

definition invoke_fds :: "callback \<Rightarrow> daemon_io \<Rightarrow> 'w daemon \<Rightarrow> fd list" where
  "invoke_fds cb io d =
     (case cb of
        Control_accept_cb \<Rightarrow> accepted_fds (control_accepts io) (control d)
      | Tcp_accept_cb \<Rightarrow> subscriber_fds (tcp_accepts io) (pipe (app d))
      | _ \<Rightarrow> [])"

definition invoked_fds :: "callback \<Rightarrow> daemon_io \<Rightarrow> 'w daemon \<Rightarrow> fd list" where
  "invoked_fds cb io d = (case let_workers_run (sched io) d of Some (Inr _, d1) \<Rightarrow> invoke_fds cb io d1 | _ \<Rightarrow> [])"

fun dispatch_fds :: "(errno \<Rightarrow> string) \<Rightarrow> 'w ioctl_call \<Rightarrow> (fd \<times> u32 \<times> daemon_io) list \<Rightarrow> 'w daemon \<Rightarrow> fd list" where
  "dispatch_fds strerror ioctl [] d = []"
| "dispatch_fds strerror ioctl ((f, ev, io) # rest) d =
     (case callbacks (daemon_loop d) f of
        None \<Rightarrow> dispatch_fds strerror ioctl rest d
      | Some cb \<Rightarrow> invoked_fds cb io d @
          (case invoke strerror ioctl cb ev io d of
             Some (Inr _, d1) \<Rightarrow> dispatch_fds strerror ioctl rest d1
           | _ \<Rightarrow> []))"

fun obtained_fds :: "(errno \<Rightarrow> string) \<Rightarrow> 'w ioctl_call \<Rightarrow> wait_step list \<Rightarrow> 'w daemon \<Rightarrow> fd list" where
  "obtained_fds strerror ioctl [] d = []"
| "obtained_fds strerror ioctl ((as, ans) # rest) d =
     (if running (app d)
      then (case let_workers_run as d of
              Some (Inr _, d1) \<Rightarrow>
                (case ans of Wait_events evs \<Rightarrow> dispatch_fds strerror ioctl evs d1 | Wait_err e \<Rightarrow> []) @
                (case run_once daemon_loop (invoke strerror ioctl) ans d1 of
                   Some (Inr _, d2) \<Rightarrow> obtained_fds strerror ioctl rest d2
                 | _ \<Rightarrow> [])
            | _ \<Rightarrow> [])
      else [])"

lemma ledger_subscribers:
  "accept_subscribers xs p = Some (r, p') \<Longrightarrow>
     tcp_ledger (tcp p') = tcp_ledger (tcp p) + mset (subscriber_fds xs p) \<and> same_shape p' p"
proof (induction xs arbitrary: p)
  case (Cons y xs)
  obtain as x where y: "y = (as, x)" by fastforce
  from Cons.prems [unfolded y] show ?case
  proof (cases rule: accept_subscribers_step)
    case (accepts f p1)
    have "same_shape (p1\<lparr>tcp := add_subscriber f (tcp p1)\<rparr>) p"
      using same_shape_worker [OF accepts(1)] by (simp add: same_shape_def)
    with Cons.IH [OF accepts(5)] ledger_worker_run [OF accepts(1)] accepts(2-4) same_shape_trans show ?thesis
      by (auto simp: tcp_ledger_def y)
  qed (auto simp: ledger_worker_run same_shape_worker y)
qed simp

lemma fixed_fds_app:
  "same_shape (pipe a) (pipe (app d)) \<Longrightarrow> fixed_fds (d\<lparr>app := a\<rparr>) = fixed_fds d"
  by (simp add: fixed_fds_def own_fds_def daemon_loop_def same_shape_def)

lemma fixed_fds_control:
  "epoll_fd (loop c) = epoll_fd (loop (control d)) \<Longrightarrow> fixed_fds (d\<lparr>control := c\<rparr>) = fixed_fds d"
  by (simp add: fixed_fds_def own_fds_def daemon_loop_def)

lemma let_workers_run_ledger:
  assumes "let_workers_run as d = Some (r, d1)"
  shows "ledger d1 = ledger d" "fixed_fds d1 = fixed_fds d"
  using assms
  by (auto elim!: let_workers_run_cases simp: ledger_def ledger_run fixed_fds_app same_shape_run)

lemma source_callback_ledger:
  assumes "source_callback io a = Some (r, a1)"
  shows "tcp_ledger (tcp (pipe a1)) = tcp_ledger (tcp (pipe a)) \<and> same_shape (pipe a1) (pipe a)"
proof -
  obtain x a2 where r: "read_samples io a = Some (x, a2)"
    using assms by (auto simp: source_callback_def split: option.splits)
  then have "pipe a2 = pipe a" by (auto simp: read_samples_def split: if_splits prod.splits)
  with assms r show ?thesis
    by (cases x) (auto simp: source_callback_def dest: ledger_push same_shape_push)
qed

lemma run_callback_ledger:
  assumes "server_inv (control d)" "run_callback strerror ioctl cb ev io d = Some (r, d')"
  shows "ledger d' = ledger d + mset (invoke_fds cb io d) \<and> fixed_fds d' = fixed_fds d"
proof -
  have dist: "distinct (map fst (clients (control d)))" using assms(1) by (simp add: server_inv_def)
  show ?thesis
  proof (cases cb)
    case Source_cb
    then obtain a1 where "source_callback io (app d) = Some (r, a1)" "d' = d\<lparr>app := a1\<rparr>"
      using assms(2) by (auto simp: run_callback_def)
    with Source_cb source_callback_ledger [of io "app d" r a1] show ?thesis
      by (auto simp: ledger_def invoke_fds_def intro: fixed_fds_app)
  next
    case Signal_cb
    with assms(2) show ?thesis
      by (auto simp: run_callback_def ledger_def invoke_fds_def fixed_fds_app signal_callback_def)
  next
    case Control_accept_cb
    then obtain c where c: "accept_ready (control_accepts io) (control d) = Some (r, c)" "d' = d\<lparr>control := c\<rparr>"
      using assms(2) by (auto simp: run_callback_def)
    with Control_accept_cb ledger_accept [OF c(1) dist] show ?thesis
      by (simp add: ledger_def invoke_fds_def fixed_fds_control)
  next
    case Tcp_accept_cb
    then obtain p where p: "accept_subscribers (tcp_accepts io) (pipe (app d)) = Some (r, p)"
      "d' = d\<lparr>app := (app d)\<lparr>pipe := p\<rparr>\<rparr>"
      using assms(2) by (auto simp: run_callback_def tcp_callback_def)
    with Tcp_accept_cb ledger_subscribers [OF p(1)] show ?thesis by (simp add: ledger_def invoke_fds_def fixed_fds_app)
  next
    case (Client_cb f)
    then obtain c a1 r1 where c: "ready (handle_control_command strerror ioctl (stats_gaps io)) f ev (client_io io)
        (control d, (app d)\<lparr>file_system := config_files io\<rparr>) = Some (r1, c, a1)"
      "d' = d\<lparr>control := c, app := a1\<rparr>"
      using assms(2) by (auto simp: run_callback_def)
    have "worker_run (pipe ((app d)\<lparr>file_system := config_files io\<rparr>)) (pipe a1)" using ready_state [OF c(1)] handler_run worker_run_refl by metis
    then have "worker_run (pipe (app d)) (pipe a1)" by simp
    with Client_cb ledger_ready [OF c(1) dist] c(2) show ?thesis
      by (simp add: ledger_def invoke_fds_def fixed_fds_app fixed_fds_control ledger_worker_run same_shape_worker)
  qed
qed

text \<open>The descriptors of a callback that is not reached any more are not obtained.\<close>

lemma invoke_ledger:
  assumes "server_inv (control d)" "invoke strerror ioctl cb ev io d = Some (r, d')"
  shows "ledger d' = ledger d + mset (invoked_fds cb io d) \<and> fixed_fds d' = fixed_fds d"
  using assms(2) unfolding invoke_def
proof (cases rule: and_then_cases)
  case (throws e)
  then show ?thesis using let_workers_run_ledger [OF throws(1)] by (simp add: invoked_fds_def)
next
  case (continues d1)
  note w = let_workers_run_ledger [OF continues(1)] and frame = let_workers_run_frame [OF continues(1)]
  from run_callback_ledger [OF _ continues(2)] assms(1) w frame(1) show ?thesis
    by (simp add: invoked_fds_def continues(1))
qed

lemma dispatch_ledger:
  "dispatch daemon_loop (invoke strerror ioctl) evs d = Some (r, d') \<Longrightarrow> events_ok strerror ioctl evs d \<Longrightarrow>
     daemon_inv cap w0 d \<Longrightarrow>
     ledger d' = ledger d + mset (dispatch_fds strerror ioctl evs d) \<and> fixed_fds d' = fixed_fds d"
proof (induction evs arbitrary: d)
  case (Cons e evs)
  obtain f ev io where e: "e = (f, ev, io)" by (metis prod_cases3)
  show ?case
  proof (cases "callbacks (daemon_loop d) f")
    case None
    with Cons e show ?thesis by simp
  next
    case (Some cb)
    obtain r1 d1 where i: "invoke strerror ioctl cb ev io d = Some (r1, d1)"
      using Cons.prems(1) Some e by (auto split: option.splits)
    have l: "ledger d1 = ledger d + mset (invoked_fds cb io d)" "fixed_fds d1 = fixed_fds d"
      using invoke_ledger [OF _ i] Cons.prems(3) by (simp_all add: daemon_inv_def)
    have "daemon_inv cap w0 d1"
      using invoke_keeps [OF Cons.prems(3) Some _ i] Cons.prems(2) Some e by simp
    with Cons Some e i l show ?thesis by (cases r1) auto
  qed
qed simp

lemma loop_step_ledger:
  assumes "loop_step strerror ioctl (as, ans) d = Some (r, d')" "waits_ok strerror ioctl ((as, ans) # rest) d"
    "daemon_inv cap w0 d" "running (app d)"
  shows "ledger d' + mset (case r of Inl e \<Rightarrow> [] | Inr _ \<Rightarrow> obtained_fds strerror ioctl rest d') =
      ledger d + mset (obtained_fds strerror ioctl ((as, ans) # rest) d)"
    and "fixed_fds d' = fixed_fds d"
proof -
  have "ledger d' + mset (case r of Inl e \<Rightarrow> [] | Inr _ \<Rightarrow> obtained_fds strerror ioctl rest d') =
      ledger d + mset (obtained_fds strerror ioctl ((as, ans) # rest) d) \<and> fixed_fds d' = fixed_fds d"
    using assms(1,2)
  proof (cases rule: loop_step_cases)
    case (killed e)
    with let_workers_run_ledger [OF killed(1)] show ?thesis by simp
  next
    case (served d1)
    note w = let_workers_run_ledger [OF served(1)] let_workers_run_inv [OF assms(3) served(1)]
    have "ledger d' = ledger d1 + mset (case ans of Wait_events evs \<Rightarrow> dispatch_fds strerror ioctl evs d1 | Wait_err e \<Rightarrow> []) \<and>
        fixed_fds d' = fixed_fds d1"
      using dispatch_ledger [of strerror ioctl _ d1 r d' cap w0] served(2,3) w(3)
      by (auto simp: run_once_def split: wait_answer.splits)
    with w served assms(4) show ?thesis by (cases r) auto
  qed
  then show "ledger d' + mset (case r of Inl e \<Rightarrow> [] | Inr _ \<Rightarrow> obtained_fds strerror ioctl rest d') =
      ledger d + mset (obtained_fds strerror ioctl ((as, ans) # rest) d)" "fixed_fds d' = fixed_fds d" by blast+
qed

lemma main_loop_ledger:
  assumes "main_loop strerror ioctl waits d = Some (r, d')" "waits_ok strerror ioctl waits d" "daemon_inv cap w0 d"
  shows "ledger d' = ledger d + mset (obtained_fds strerror ioctl waits d) \<and> fixed_fds d' = fixed_fds d"
  using assms
proof (induction rule: main_loop_induct)
  case (stop waits d)
  then show ?case by (cases waits) auto
next
  case (round step waits d r1 d1)
  obtain as ans where st: "step = (as, ans)" by fastforce
  note l = loop_step_ledger [OF round(3,2) [unfolded st] round(5,1)] and inv = loop_step_inv [OF round(3,2,5)]
  show ?case
  proof (cases r1)
    case (Inl e)
    with round(4) l st show ?thesis by simp
  next
    case (Inr u)
    with round(4) inv l st show ?thesis by simp
  qed
qed

lemma finish_ledger:
  assumes "finish before joins nt d = Some (Inr (), d')"
  shows "ledger d' = ledger d" "fixed_fds d' = fixed_fds d" "control d' = control d"
proof -
  have "ledger d' = ledger d \<and> fixed_fds d' = fixed_fds d \<and> control d' = control d"
    using assms
  proof (cases rule: finish_cases)
    case (returns d1 p d2)
    have t: "tcp p = tcp (pipe (app d1))" "same_shape p (pipe (app d1))"
      using returns(2) same_shape_effect [OF act_effect [OF returns(2)]] by (auto split: if_splits)
    have j: "ledger d' = ledger d2" "fixed_fds d' = fixed_fds d2" "control d' = control d2"
      using returns(4) by (auto simp: joined_def ledger_def fixed_fds_def own_fds_def daemon_loop_def split: if_splits)
    have "ledger (d1\<lparr>app := (app d1)\<lparr>pipe := p\<rparr>\<rparr>) = ledger d1" "fixed_fds (d1\<lparr>app := (app d1)\<lparr>pipe := p\<rparr>\<rparr>) = fixed_fds d1"
      using t by (simp_all add: ledger_def fixed_fds_app)
    with j let_workers_run_ledger [OF returns(1)] let_workers_run_frame(1) [OF returns(1)]
      let_workers_run_ledger [OF returns(3)] let_workers_run_frame(1) [OF returns(3)]
    show ?thesis by simp
  qed simp_all
  then show "ledger d' = ledger d" "fixed_fds d' = fixed_fds d" "control d' = control d" by blast+
qed

lemma setup_ledger:
  assumes "main_setup inet_pton ans args fs nt w = Ready d"
  shows "ledger d = {#}"
  using assms
  by (auto simp: main_setup_def setup_late_def listen_on_def new_tcp_broadcaster_def ledger_def control_ledger_def
      tcp_ledger_def new_control_server_def new_pipeline_def split: option.splits sum.splits prod.splits if_splits)

lemma process_closes_ledger: "mset (process_closes d) = ledger d + mset (fixed_fds d)"
  by (simp add: process_closes_def main_locals_def ledger_def control_ledger_def tcp_ledger_def fixed_fds_def own_fds_def
      daemon_loop_def destroy_def)

lemma callbacks_removes:
  "callbacks (fold (\<lambda>entry l. remove (fst entry) l) xs l) f = (if f \<in> fst ` set xs then None else callbacks l f)"
  by (induction xs arbitrary: l) auto

lemma destroy_callbacks:
  assumes "server_inv s"
  shows "callbacks (loop (destroy s)) f \<noteq> Some (Client_cb g)"
  using server_inv_registered [OF assms, of f g] by (auto simp: destroy_def callbacks_removes map_of_eq_None_iff)

section \<open>A concrete run\<close>

text \<open>A control connection is accepted, then the signal arrives; the connection is still open at the end.\<close>

definition visit_waits :: "wait_step list" where
  "visit_waits = [([], Wait_events [(7, EPOLLIN, demo_io\<lparr>control_accepts := [Accepted 20 None, Accept_err EAGAIN]\<rparr>),
     (6, EPOLLIN, demo_io)])]"

definition visited :: control_server where
  "visited = snd (add_client None 20 (control demo_daemon))"

lemma visited:
  "accept_ready [Accepted 20 None, Accept_err EAGAIN] (control demo_daemon) = Some (Inr (), visited)"
  "callbacks (loop visited) = (callbacks (loop (control demo_daemon)))(20 \<mapsto> Client_cb 20)"
  "accepted_fds [Accepted 20 None, Accept_err EAGAIN] (control demo_daemon) = [20]"
  by (simp_all add: visited_def add_client_def demo_daemon add_def Let_def)

lemma visit_loop:
  "\<exists>d. main_loop strerror no_ioctl visit_waits demo_daemon = Some (Inr (), d) \<and> pipe (app d) = demo_pipe"
  "waits_ok strerror no_ioctl visit_waits demo_daemon"
  "obtained_fds strerror no_ioctl visit_waits demo_daemon = [20]"
  using demo_produce visited demo_daemon(8,9) [unfolded daemon_loop_def]
  by (simp_all add: visit_waits_def demo_daemon demo_loop_defs demo_io_def demo_daemon(6) [unfolded daemon_loop_def]
      invoke_fds_def invoked_fds_def)

section \<open>Properties\<close>

text \<open>
  Property C18 (no descriptor leaks). When the daemon returns from \<open>main\<close>, every descriptor that it obtained
  (its sockets, the device, the signal and the epoll descriptor, and every accepted control connection and
  subscriber, refused ones included) has been closed exactly once, and nothing else has been
  closed. After the destructor of the control server no callback of a connection is left in the event
  loop.
\<close>

theorem descriptors_closed_once:
  assumes "main_setup inet_pton ans args fs nt w = Ready d0" and "distinct (own_fds d0)"
    and "waits_ok strerror ioctl waits d0"
    and "daemon_main strerror ioctl inet_pton ans waits before joins nt args fs w = Some (Exit 0, lg, Some d')"
  shows "mset (process_closes d') = mset (fixed_fds d0 @ obtained_fds strerror ioctl waits d0) \<and>
    (\<forall>f g. callbacks (loop (destroy (control d'))) f \<noteq> Some (Client_cb g))"
proof -
  obtain d1 where d1: "main_loop strerror ioctl waits d0 = Some (Inr (), d1)" "finish before joins nt d1 = Some (Inr (), d')"
    using daemon_main_exit [OF assms(4)] assms(1) by (metis startup.inject(3))
  obtain cpath cfg udp t m where s: "load_config_file fs cpath = Inr cfg" "setup_late ans cfg cpath fs udp t m nt w = Inr d0"
    by (rule main_setup_Ready [OF assms(1)])
  have inv: "daemon_inv (queue_capacity cfg) (initial_log cfg fs) d0"
    by (rule setup_late_inv(1) [OF s(2) assms(2) load_config_workers [OF s(1)]])
  have "server_inv (control d1)" using main_loop_inv [OF d1(1) assms(3) inv] by (simp add: daemon_inv_def)
  moreover have "ledger d1 = mset (obtained_fds strerror ioctl waits d0)" "fixed_fds d1 = fixed_fds d0"
    using main_loop_ledger [OF d1(1) assms(3) inv] setup_ledger [OF assms(1)] by simp_all
  ultimately show ?thesis
    using finish_ledger [OF d1(2)] process_closes_ledger [of d'] destroy_callbacks [of "control d1"] by simp
qed

theorem descriptors_closed_once_witness:
  "\<exists>lg d'. daemon_main (\<lambda>_. []) no_ioctl (\<lambda>_. Some 0) demo_ans visit_waits [] [Pop_at 0, Pop_at 1] demo_stamp [] demo_fs () =
     Some (Exit 0, lg, Some d') \<and> mset (process_closes d') = {#3, 4, 5, 6, 7, 8, 20#}"
proof -
  obtain d where d: "main_loop (\<lambda>_. []) no_ioctl visit_waits demo_daemon = Some (Inr (), d)" "pipe (app d) = demo_pipe"
    using visit_loop(1) by blast
  then obtain d' where "finish [] [Pop_at 0, Pop_at 1] demo_stamp d = Some (Inr (), d')"
    by (simp add: finish_def close_queue_def joined_def let_workers_run_def alive_def demo_pipe_def demo_defs)
  with d have m: "daemon_main (\<lambda>_. []) no_ioctl (\<lambda>_. Some 0) demo_ans visit_waits [] [Pop_at 0, Pop_at 1] demo_stamp [] demo_fs () =
     Some (Exit 0, logs (app d'), Some d')" by (simp add: daemon_main_def demo_main_setup)
  have "distinct (own_fds demo_daemon)" by (simp add: demo_daemon)
  from descriptors_closed_once [OF demo_main_setup this visit_loop(2) m] m show ?thesis
    by (auto simp: visit_loop fixed_fds_def demo_daemon)
qed

end
