(* ===== verification/Shutdown.thy ===== *)
theory Shutdown
  imports Descriptors
begin

text \<open>
  Ending the daemon by command: from the bytes of \<open>shutdown\<close> on a control connection to the end of \<open>main\<close>. The
  states of the serving daemon are those that rounds of the main loop lead to, whatever happened in them.
\<close>

section \<open>The serving daemon\<close>

inductive serving :: "(errno \<Rightarrow> string) \<Rightarrow> 'w ioctl_call \<Rightarrow> 'w daemon \<Rightarrow> 'w daemon \<Rightarrow> bool" for strerror ioctl d0 where
  ready: "serving strerror ioctl d0 d0"
| round: "serving strerror ioctl d0 d \<Longrightarrow> running (app d) \<Longrightarrow> waits_ok strerror ioctl [step] d \<Longrightarrow>
     loop_step strerror ioctl step d = Some (Inr (), d') \<Longrightarrow> serving strerror ioctl d0 d'"

lemma serving_inv:
  assumes "main_setup inet_pton ans args fs nt w = Ready d0" "distinct (own_fds d0)" "serving strerror ioctl d0 d"
  obtains cap w0 where "daemon_inv cap w0 d"
proof -
  obtain cpath cfg udp t m where s: "load_config_file fs cpath = Inr cfg" "setup_late ans cfg cpath fs udp t m nt w = Inr d0"
    by (rule main_setup_Ready [OF assms(1)])
  have "\<exists>cap w0. daemon_inv cap w0 d"
    using assms(3)
  proof induction
    case ready
    then show ?case using setup_late_inv(1) [OF s(2) assms(2) load_config_workers [OF s(1)]] by blast
  next
    case (round d step d')
    then show ?case using loop_step_inv by blast
  qed
  then show thesis using that by blast
qed

text \<open>Nothing sets \<open>running\<close> again.\<close>

lemma handler_running: "\<not> running a \<Longrightarrow> \<not> running (snd (handle_control_command strerror ioctl gaps cmd a))"
  by (auto simp: handle_control_command_def build_stats_text_def Let_def split: prod.splits sum.splits)

lemma run_callback_running:
  assumes "run_callback strerror ioctl cb ev io d = Some (r, d')" "\<not> running (app d)"
  shows "\<not> running (app d')"
proof (cases cb)
  case Source_cb
  with assms show ?thesis
    by (auto simp: run_callback_def source_callback_def read_samples_def split: option.splits prod.splits sum.splits if_splits)
next
  case (Client_cb f)
  then obtain c a1 r1 where c: "ready (handle_control_command strerror ioctl (stats_gaps io)) f ev (client_io io)
      (control d, (app d)\<lparr>file_system := config_files io\<rparr>) = Some (r1, c, a1)" "app d' = a1"
    using assms(1) by (auto simp: run_callback_def)
  from ready_state [OF c(1)] assms(2) c(2) handler_running [of "(app d)\<lparr>file_system := config_files io\<rparr>"] show ?thesis
    by auto
qed (use assms in \<open>auto simp: run_callback_def signal_callback_def tcp_callback_def\<close>)

lemma dispatch_running:
  "dispatch daemon_loop (invoke strerror ioctl) evs d = Some (r, d') \<Longrightarrow> \<not> running (app d) \<Longrightarrow> \<not> running (app d')"
proof (induction evs arbitrary: d)
  case (Cons e evs)
  obtain f ev io where e: "e = (f, ev, io)" by (metis prod_cases3)
  have inv: "\<not> running (app d1)" if "invoke strerror ioctl cb ev io d = Some (r1, d1)" for cb r1 d1
    using that unfolding invoke_def
  proof (cases rule: and_then_cases)
    case (throws e)
    then show ?thesis using Cons.prems(2) let_workers_run_frame(4) by metis
  next
    case (continues d2)
    then show ?thesis using run_callback_running Cons.prems(2) let_workers_run_frame(4) by metis
  qed
  from Cons.prems(1) show ?case unfolding e
    using Cons.prems(2) inv Cons.IH by (fastforce split: option.splits prod.splits sum.splits)
qed simp

section \<open>The command\<close>

text \<open>\<open>d1\<close> is the daemon right after the callback that received the command.\<close>

definition last_round :: "(errno \<Rightarrow> string) \<Rightarrow> 'w ioctl_call \<Rightarrow> action list \<Rightarrow> fd \<times> u32 \<times> daemon_io \<Rightarrow> 'w daemon \<Rightarrow> 'w daemon \<Rightarrow> bool" where
  "last_round strerror ioctl as event d d1 \<longleftrightarrow>
     (\<forall>rest waits d'. dispatch daemon_loop (invoke strerror ioctl) rest d1 = Some (Inr (), d') \<longrightarrow>
        main_loop strerror ioctl ((as, Wait_events (event # rest)) # waits) d = Some (Inr (), d'))"

lemma shutdown_handled:
  "strip_command cmd = ''shutdown'' \<Longrightarrow>
     handle_control_command strerror ioctl gaps cmd a = (Inr (''ok'' @ [nl]), a\<lparr>running := False\<rparr>)"
  by (simp add: handle_control_command_def)

lemma last_roundI:
  assumes "running (app d)" "let_workers_run as d = Some (Inr (), d1)" "let_workers_run (sched io) d1 = Some (Inr (), d2)"
    and "callbacks (daemon_loop d) f = Some (Client_cb f)"
    and "run_callback strerror ioctl (Client_cb f) ev io d2 = Some (Inr (), d3)" "\<not> running (app d3)"
  shows "last_round strerror ioctl as (f, ev, io) d d3"
proof -
  have i: "invoke strerror ioctl (Client_cb f) ev io d1 = Some (Inr (), d3)" using assms(3,5) by (simp add: invoke_def)
  have cb: "callbacks (daemon_loop d1) f = Some (Client_cb f)" using assms(4) let_workers_run_frame(2) [OF assms(2)] by simp
  have "main_loop strerror ioctl waits d' = Some (Inr (), d')"
    if "dispatch daemon_loop (invoke strerror ioctl) rest d3 = Some (Inr (), d')" for rest waits d'
    using dispatch_running [OF that assms(6)] by (cases waits) simp_all
  with i cb assms(1,2) show ?thesis by (simp add: last_round_def loop_step_def run_once_def)
qed

lemma exits:
  assumes "wake_inv (pipe (app d))" "\<not> terminated (pipe (app d))"
  shows "\<exists>joins d'. finish [] joins nt d = Some (Inr (), d')"
proof -
  obtain p where p: "act Close_queue (pipe (app d)) = Some p" "wake_inv p" "closed (sq p)" "\<not> terminated p"
    by (rule close_for_exit [OF assms])
  obtain joins p1 where j: "list_all worker_action joins" "run_actions joins p = Some p1" "\<not> terminated p1"
      "set (workers p1) \<subseteq> {Exited}"
    using workers_can_exit [OF p(2-4)] by blast
  have "let_workers_run [] d = Some (Inr (), d)" using assms(2) by (simp add: let_workers_run_def alive_def)
  from finish_schedule [OF this p(1) j(1,2), of nt] j(3,4) show ?thesis by auto
qed

section \<open>Properties\<close>

text \<open>
  Property C14 (the shutdown command ends the daemon). When the bytes of \<open>shutdown\<close> on a control connection are
  complete, in whatever pieces and states of the daemon they arrived, the round of the main loop that
  receives them is the last one: the other events of the round are still served, no further round is
  started, whatever the clients and the device would do, and the process can reach its \<open>return 0\<close>. The client gets the reply if its
  socket takes it at once; otherwise the reply is lost, since nobody waits for the socket any more.
\<close>

theorem shutdown_command_ends_daemon:
  assumes "main_setup inet_pton ans args fs nt w = Ready d0" and "distinct (own_fds d0)"
    and "serving strerror ioctl d0 d" and "running (app d)"
    and "map_of (clients (control d)) f = Some c" and "\<not> responding c"
    and "let_workers_run as d = Some (Inr (), d1)" and "let_workers_run (sched io) d1 = Some (Inr (), d2)"
    and "\<forall>x \<in> set (recvs (client_io io)). delivers x"
    and "request c @ data_of (recvs (client_io io)) = cmd @ nl # more_bytes" and "nl \<notin> set cmd" and "length cmd \<le> 127"
    and "strip_command cmd = ''shutdown''"
  shows "((\<forall>x \<in> set (sends (client_io io)). accepts x) \<and> 3 \<le> room_of (sends (client_io io)) \<longrightarrow>
      (\<exists>d3. last_round strerror ioctl as (f, ev, io) d d3 \<and> connection_done f (''ok'' @ [nl]) (control d3) \<and>
         (\<exists>joins d'. finish [] joins nt d3 = Some (Inr (), d')))) \<and>
    (sends (client_io io) = [Out_err EAGAIN] \<and> \<not> broken ev \<and> mod_err (client_io io) = None \<longrightarrow>
      (\<exists>d3. last_round strerror ioctl as (f, ev, io) d d3 \<and> wire (destroy (control d3)) f = [] \<and>
         (\<exists>joins d'. finish [] joins nt d3 = Some (Inr (), d'))))"
proof -
  let ?h = "handle_control_command strerror ioctl (stats_gaps io)" and ?a = "(app d2)\<lparr>file_system := config_files io\<rparr>"
  let ?s = "control d2" and ?a1 = "?a\<lparr>running := False\<rparr>"
  obtain cap w0 where inv: "daemon_inv cap w0 d" by (rule serving_inv [OF assms(1-3)])
  have sinv: "server_inv (control d)" using inv by (simp add: daemon_inv_def)
  have s: "?s = control d" using let_workers_run_frame(1) [OF assms(7)] let_workers_run_frame(1) [OF assms(8)] by simp
  have cb: "callbacks (daemon_loop d) f = Some (Client_cb f)"
    using sinv assms(5) by (auto simp: server_inv_def daemon_loop_def)
  have wake: "wake_inv (pipe (app d2))" "\<not> terminated (pipe (app d2))"
    using let_workers_run_inv [OF let_workers_run_inv [OF inv assms(7)] assms(8)] let_workers_run_alive [OF assms(8)]
    by (auto simp: daemon_inv_def pipe_inv_def)
  have v: "verdict (request c @ data_of (recvs (client_io io))) = Command cmd"
    using assms(10-12) by (simp add: verdict_def str_find_prefix)
  have ans: "answer_of ?h (Command cmd) ?a = (''ok'' @ [nl], ?a1)"
    by (simp add: answer_of_def shutdown_handled [OF assms(13)])
  obtain c1 where c1: "ready ?h f ev (client_io io) (?s, ?a) =
      map_option (\<lambda>(r, s1). (r, s1, ?a1)) (respond f ev (client_io io) c1 (put_client f c1 ?s))"
    "response c1 = ''ok'' @ [nl]" "sent c1 = 0" "client_wire c1 (wire ?s f)"
    using ready_decided [OF _ _ assms(6,9) v _ ans refl, of ?s f] assms(5) s server_inv_client_ok [OF sinv assms(5)] by auto
  have ends: "last_round strerror ioctl as (f, ev, io) d (d2\<lparr>control := s3, app := ?a1\<rparr>) \<and>
      (\<exists>joins d'. finish [] joins nt (d2\<lparr>control := s3, app := ?a1\<rparr>) = Some (Inr (), d'))"
    if "respond f ev (client_io io) c1 (put_client f c1 ?s) = Some (Inr (), s3)" for s3
    using that c1(1) wake
    by (intro conjI last_roundI [OF assms(4,7,8) cb] exits) (simp_all add: run_callback_def alive_def)
  have w: "client_wire c1 (wire (put_client f c1 ?s) f)" using c1(4) by simp
  show ?thesis
  proof (intro conjI impI)
    assume "(\<forall>x \<in> set (sends (client_io io)). accepts x) \<and> 3 \<le> room_of (sends (client_io io))"
    then obtain s3 where "respond f ev (client_io io) c1 (put_client f c1 ?s) = Some (Inr (), s3)"
      "connection_done f (''ok'' @ [nl]) s3"
      using respond_finish [OF w, of "client_io io" ev] c1(2,3) by auto
    with ends show "\<exists>d3. last_round strerror ioctl as (f, ev, io) d d3 \<and> connection_done f (''ok'' @ [nl]) (control d3) \<and>
         (\<exists>joins d'. finish [] joins nt d3 = Some (Inr (), d'))"
      by (intro exI [of _ "d2\<lparr>control := s3, app := ?a1\<rparr>"]) simp
  next
    assume b: "sends (client_io io) = [Out_err EAGAIN] \<and> \<not> broken ev \<and> mod_err (client_io io) = None"
    then obtain s3 where "respond f ev (client_io io) c1 (put_client f c1 ?s) = Some (Inr (), s3)" "client_wire c1 (wire s3 f)"
      using respond_blocked [OF w, of "[]" ev "client_io io"] c1(2,3) by (auto simp: client_wire_def)
    moreover from this(2) c1(3) have "wire (destroy s3) f = []" by (simp add: client_wire_def destroy_def)
    ultimately show "\<exists>d3. last_round strerror ioctl as (f, ev, io) d d3 \<and> wire (destroy (control d3)) f = [] \<and>
         (\<exists>joins d'. finish [] joins nt d3 = Some (Inr (), d'))"
      using ends by (intro exI [of _ "d2\<lparr>control := s3, app := ?a1\<rparr>"]) simp
  qed
qed

text \<open>A client connects with descriptor 20 and sends the command in two pieces.\<close>

definition connected :: "unit daemon" where
  "connected = demo_daemon\<lparr>control := visited\<rparr>"

definition shutdown_io :: daemon_io where
  "shutdown_io = demo_io\<lparr>client_io := \<lparr>recvs = [Got ''shut'', Got (''down'' @ [nl])], sends = [Room 8], mod_err = None\<rparr>\<rparr>"

lemma connected:
  "serving strerror no_ioctl demo_daemon connected" "running (app connected)" "pipe (app connected) = demo_pipe"
  "map_of (clients (control connected)) 20 = Some new_client"
proof -
  let ?step = "([], Wait_events [(7, EPOLLIN, demo_io\<lparr>control_accepts := [Accepted 20 None, Accept_err EAGAIN]\<rparr>)])"
  have "loop_step strerror no_ioctl ?step demo_daemon = Some (Inr (), connected)" "waits_ok strerror no_ioctl [?step] demo_daemon"
    using demo_produce visited demo_daemon(8,9) [unfolded daemon_loop_def]
    by (simp_all add: connected_def demo_daemon demo_loop_defs demo_io_def)
  from serving.round [OF serving.ready _ this(2,1)] show "serving strerror no_ioctl demo_daemon connected"
    by (simp add: demo_daemon)
  show "running (app connected)" "pipe (app connected) = demo_pipe" by (simp_all add: connected_def demo_daemon)
  show "map_of (clients (control connected)) 20 = Some new_client"
    by (simp add: connected_def visited_def add_client_def demo_daemon add_def Let_def)
qed

theorem shutdown_command_ends_daemon_witness:
  "\<exists>d. last_round (\<lambda>_. []) no_ioctl [] (20, EPOLLIN, shutdown_io) connected d \<and>
    connection_done 20 (''ok'' @ [nl]) (control d) \<and> (\<exists>joins d'. finish [] joins demo_stamp d = Some (Inr (), d'))"
proof -
  have idle: "let_workers_run [] connected = Some (Inr (), connected)"
    using connected(3) demo_produce(2) by (simp add: let_workers_run_def alive_def)
  then have idle': "let_workers_run (sched shutdown_io) connected = Some (Inr (), connected)"
    by (simp add: shutdown_io_def demo_io_def)
  have "distinct (own_fds demo_daemon)" by (simp add: demo_daemon)
  from shutdown_command_ends_daemon [OF demo_main_setup this connected(1,2,4) _ idle idle',
      where cmd = "''shutdown''" and more_bytes = "[]" and ev = EPOLLIN]
  show ?thesis
    by (simp add: new_client_def shutdown_io_def demo_io_def delivers_def accepts_def strip_command_def cmd_blank_def)
qed

end
