(* ===== verification/Unique_Fd.thy ===== *)
theory Unique_Fd
  imports Sensorhub_Prelude "HOL-Library.Multiset"
begin

text \<open>
  The owning file descriptor wrapper \<open>userspace/include/fd.hpp\<close>. The wrapper objects of a program
  are the cells of a list: cell \<open>i\<close> holds the \<open>fd_\<close> member of object \<open>i\<close>, and a destroyed object
  keeps its cell with the value \<open>-1\<close>. Identity of objects matters for the move assignment, which
  does nothing when source and target are the same object. \<open>closes\<close> lists the arguments of the
  \<open>close\<close> system call in order.
\<close>

record fd_world =
  cells :: "fd list"
  closes :: "fd list"

definition fd_ctor :: "fd \<Rightarrow> fd_world \<Rightarrow> fd_world" where
  "fd_ctor f w = w\<lparr>cells := cells w @ [f]\<rparr>"

definition fd_ctor_default :: "fd_world \<Rightarrow> fd_world" where
  "fd_ctor_default w = w\<lparr>cells := cells w @ [-1]\<rparr>"

definition fd_get :: "nat \<Rightarrow> fd_world \<Rightarrow> fd" where
  "fd_get i w = cells w ! i"

definition fd_valid :: "nat \<Rightarrow> fd_world \<Rightarrow> bool" where
  "fd_valid i w \<longleftrightarrow> 0 \<le> cells w ! i"

definition fd_reset :: "nat \<Rightarrow> fd \<Rightarrow> fd_world \<Rightarrow> fd_world" where
  "fd_reset i next w =
     (let w1 = (if 0 \<le> cells w ! i then w\<lparr>closes := closes w @ [cells w ! i]\<rparr> else w)
      in w1\<lparr>cells := (cells w)[i := next]\<rparr>)"

definition fd_dtor :: "nat \<Rightarrow> fd_world \<Rightarrow> fd_world" where
  "fd_dtor i w = fd_reset i (-1) w"

definition fd_move_ctor :: "nat \<Rightarrow> fd_world \<Rightarrow> fd_world" where
  "fd_move_ctor other w = w\<lparr>cells := (cells w)[other := -1] @ [cells w ! other]\<rparr>"

definition fd_move_assign :: "nat \<Rightarrow> nat \<Rightarrow> fd_world \<Rightarrow> fd_world" where
  "fd_move_assign this other w =
     (if this \<noteq> other
      then let w1 = fd_reset this (-1) w
           in w1\<lparr>cells := (cells w1)[this := cells w1 ! other, other := -1]\<rparr>
      else w)"

definition fd_release :: "nat \<Rightarrow> fd_world \<Rightarrow> fd \<times> fd_world" where
  "fd_release i w = (cells w ! i, w\<lparr>cells := (cells w)[i := -1]\<rparr>)"

section \<open>Programs over wrappers\<close>

datatype fd_op =
    Ctor fd | Ctor_default | Dtor nat | Move_ctor nat | Move_assign nat nat | Release nat
  | Reset nat fd

fun fd_exec :: "fd_op \<Rightarrow> fd_world \<Rightarrow> fd_world" where
  "fd_exec (Ctor f) w = fd_ctor f w"
| "fd_exec Ctor_default w = fd_ctor_default w"
| "fd_exec (Dtor i) w = fd_dtor i w"
| "fd_exec (Move_ctor j) w = fd_move_ctor j w"
| "fd_exec (Move_assign i j) w = fd_move_assign i j w"
| "fd_exec (Release i) w = snd (fd_release i w)"
| "fd_exec (Reset i f) w = fd_reset i f w"

text \<open>An operation names existing objects only.\<close>

fun op_ok :: "fd_op \<Rightarrow> fd_world \<Rightarrow> bool" where
  "op_ok (Ctor f) w = True"
| "op_ok Ctor_default w = True"
| "op_ok (Dtor i) w = (i < length (cells w))"
| "op_ok (Move_ctor j) w = (j < length (cells w))"
| "op_ok (Move_assign i j) w = (i < length (cells w) \<and> j < length (cells w))"
| "op_ok (Release i) w = (i < length (cells w))"
| "op_ok (Reset i f) w = (i < length (cells w))"

fun ops_ok :: "fd_op list \<Rightarrow> fd_world \<Rightarrow> bool" where
  "ops_ok [] w = True"
| "ops_ok (x # xs) w = (op_ok x w \<and> ops_ok xs (fd_exec x w))"

fun fd_run :: "fd_op list \<Rightarrow> fd_world \<Rightarrow> fd_world" where
  "fd_run [] w = w"
| "fd_run (x # xs) w = fd_run xs (fd_exec x w)"

text \<open>Descriptors that enter the wrappers and descriptors that leave them by \<open>release\<close>.\<close>

definition valid_mset :: "fd list \<Rightarrow> fd multiset" where
  "valid_mset fs = filter_mset (\<lambda>f. 0 \<le> f) (mset fs)"

fun entering :: "fd_op \<Rightarrow> fd list" where
  "entering (Ctor f) = [f]"
| "entering (Reset i f) = [f]"
| "entering _ = []"

fun leaving :: "fd_op \<Rightarrow> fd_world \<Rightarrow> fd list" where
  "leaving (Release i) w = [fst (fd_release i w)]"
| "leaving _ w = []"

fun released :: "fd_op list \<Rightarrow> fd_world \<Rightarrow> fd list" where
  "released [] w = []"
| "released (x # xs) w = leaving x w @ released xs (fd_exec x w)"

lemma valid_mset_Nil [simp]: "valid_mset [] = {#}"
  by (simp add: valid_mset_def)

lemma valid_mset_Cons [simp]:
  "valid_mset (f # fs) = (if 0 \<le> f then add_mset f (valid_mset fs) else valid_mset fs)"
  by (simp add: valid_mset_def)

lemma valid_mset_append [simp]: "valid_mset (xs @ ys) = valid_mset xs + valid_mset ys"
  by (simp add: valid_mset_def)

lemma valid_mset_update:
  "i < length xs \<Longrightarrow> valid_mset (xs[i := f]) + valid_mset [xs ! i] = valid_mset xs + valid_mset [f]"
proof (induction xs arbitrary: i)
  case Nil
  then show ?case by simp
next
  case (Cons x xs)
  then show ?case by (cases i) (auto simp: ac_simps)
qed

lemma valid_mset_clear:
  "i < length xs \<Longrightarrow> valid_mset (xs[i := -1]) + valid_mset [xs ! i] = valid_mset xs"
  using valid_mset_update [of i xs "-1"] by simp

text \<open>Every descriptor that entered is owned by one wrapper, has been closed once, or was released.\<close>

lemma fd_reset_balance:
  "i < length (cells w) \<Longrightarrow>
     valid_mset (cells (fd_reset i f w)) + valid_mset (closes (fd_reset i f w)) =
     valid_mset (cells w) + valid_mset (closes w) + valid_mset [f]"
  using valid_mset_update [of i "cells w" f]
  by (cases "0 \<le> cells w ! i") (auto simp: fd_reset_def Let_def ac_simps)

lemma fd_move_assign_balance:
  assumes "i < length (cells w)" "j < length (cells w)"
  shows "valid_mset (cells (fd_move_assign i j w)) + valid_mset (closes (fd_move_assign i j w)) =
     valid_mset (cells w) + valid_mset (closes w)"
proof (cases "i = j")
  case True
  then show ?thesis by (simp add: fd_move_assign_def)
next
  case False
  define w1 where "w1 = fd_reset i (-1) w"
  have len: "length (cells w1) = length (cells w)" and ci: "cells w1 ! i = -1"
    using assms by (auto simp: w1_def fd_reset_def Let_def)
  have "valid_mset ((cells w1)[i := cells w1 ! j, j := -1]) +
      valid_mset [(cells w1)[i := cells w1 ! j] ! j] = valid_mset ((cells w1)[i := cells w1 ! j])"
    by (rule valid_mset_clear) (use assms len in simp)
  moreover have "valid_mset ((cells w1)[i := cells w1 ! j]) + valid_mset [cells w1 ! i] =
      valid_mset (cells w1) + valid_mset [cells w1 ! j]"
    by (rule valid_mset_update) (use assms len in simp)
  ultimately have "valid_mset ((cells w1)[i := cells w1 ! j, j := -1]) = valid_mset (cells w1)"
    using False ci by (auto split: if_splits)
  moreover have "valid_mset (cells w1) + valid_mset (closes w1) =
      valid_mset (cells w) + valid_mset (closes w)"
    using fd_reset_balance [OF assms(1), of "-1"] by (simp add: w1_def)
  ultimately show ?thesis
    using False by (simp add: fd_move_assign_def w1_def [symmetric])
qed

lemma fd_exec_balance:
  assumes "op_ok x w"
  shows "valid_mset (cells (fd_exec x w)) + valid_mset (closes (fd_exec x w)) +
      valid_mset (leaving x w) =
    valid_mset (cells w) + valid_mset (closes w) + valid_mset (entering x)"
proof (cases x)
  case (Move_ctor j)
  with assms valid_mset_clear [of j "cells w"] show ?thesis
    by (simp add: fd_move_ctor_def ac_simps)
next
  case (Release i)
  with assms valid_mset_clear [of i "cells w"] show ?thesis
    by (auto simp: fd_release_def ac_simps)
next
  case (Move_assign i j)
  with assms fd_move_assign_balance [of i w j] show ?thesis by simp
next
  case (Dtor i)
  with assms fd_reset_balance [of i w "-1"] show ?thesis by (simp add: fd_dtor_def)
next
  case (Reset i f)
  with assms fd_reset_balance [of i w f] show ?thesis by simp
qed (simp_all add: fd_ctor_def fd_ctor_default_def)

lemma fd_run_balance:
  "ops_ok xs w \<Longrightarrow>
   valid_mset (cells (fd_run xs w)) + valid_mset (closes (fd_run xs w)) + valid_mset (released xs w) =
   valid_mset (cells w) + valid_mset (closes w) + valid_mset (concat (map entering xs))"
proof (induction xs arbitrary: w)
  case Nil
  then show ?case by simp
next
  case (Cons x xs)
  then have "valid_mset (cells (fd_run xs (fd_exec x w))) +
      valid_mset (closes (fd_run xs (fd_exec x w))) + valid_mset (released xs (fd_exec x w)) =
    valid_mset (cells (fd_exec x w)) + valid_mset (closes (fd_exec x w)) +
      valid_mset (concat (map entering xs))" by simp
  with fd_exec_balance [of x w] Cons.prems show ?case by (simp add: ac_simps)
qed

section \<open>Properties\<close>

definition empty_world :: fd_world where
  "empty_world = \<lparr>cells = [], closes = []\<rparr>"

text \<open>
  Ownership. In every program over the wrappers (constructions, destructions, moves,
  self-moves, resets, releases), each valid descriptor that was handed to a wrapper is accounted for
  exactly once: owned by one wrapper, closed once, or released. With distinct descriptors none is
  closed twice, and none is closed while a wrapper still owns it.
\<close>

theorem fd_ownership:
  assumes "ops_ok xs empty_world"
  shows "valid_mset (concat (map entering xs)) =
      valid_mset (cells (fd_run xs empty_world)) + valid_mset (closes (fd_run xs empty_world)) +
      valid_mset (released xs empty_world)"
  using fd_run_balance [OF assms] by (simp add: empty_world_def)

theorem fd_ownership_witness:
  "closes (fd_run [Ctor 5, Move_ctor 0, Move_assign 1 1, Dtor 1, Dtor 0] empty_world) = [5] \<and>
   valid_mset [5] = valid_mset (cells (fd_run [Ctor 5, Move_ctor 0, Move_assign 1 1, Dtor 1, Dtor 0] empty_world)) +
     valid_mset (closes (fd_run [Ctor 5, Move_ctor 0, Move_assign 1 1, Dtor 1, Dtor 0] empty_world))"
proof -
  have ok: "ops_ok [Ctor 5, Move_ctor 0, Move_assign 1 1, Dtor 1, Dtor 0] empty_world"
    by (simp add: empty_world_def fd_ctor_def fd_move_ctor_def fd_move_assign_def fd_dtor_def
        fd_reset_def Let_def)
  from fd_ownership [OF ok] show ?thesis
    by (simp add: empty_world_def fd_ctor_def fd_move_ctor_def fd_move_assign_def fd_dtor_def
        fd_reset_def Let_def)
qed

end
