(* ===== verification/Fd_Vector.thy ===== *)
theory Fd_Vector
  imports Unique_Fd Tcp_Broadcaster
begin

text \<open>
  The client vector of the broadcaster on the level of wrapper objects. \<open>clients_\<close> is a
  \<open>std::vector<UniqueFd>\<close>: its elements are \<open>vec_size\<close> consecutive cells of an \<open>fd_world\<close>, from \<open>vec_base\<close> on, in storage with
  room for \<open>vec_cap\<close> elements. \<open>erase\<close> of the standard library moves every later element one place down by the move
  assignment of \<open>fd.hpp\<close> and destroys the last one; \<open>emplace_back\<close> constructs an element behind the last one and, if the storage is
  full, first moves all elements to new storage: each is move-constructed there and its old object destroyed. By how much
  the storage grows is up to the library (the argument \<open>grow\<close>). The abstract broadcaster of
  \<open>Tcp_Broadcaster\<close>, with its list of descriptors and its explicit calls of \<open>close\<close>, is refined by the
  loop over these objects.
\<close>

section \<open>The vector operations\<close>

text \<open>On the elements from \<open>i\<close> up to \<open>n\<close>.\<close>

definition vec_erase :: "nat \<Rightarrow> nat \<Rightarrow> fd_world \<Rightarrow> fd_world" where
  "vec_erase i n w = fd_dtor (n - 1) (fold (\<lambda>j. fd_move_assign (j - 1) j) [Suc i..<n] w)"

record vec_broadcaster =
  vec_base :: nat
  vec_size :: nat
  vec_cap :: nat
  vec_world :: fd_world
  vec_wire :: "fd \<Rightarrow> string"

text \<open>New storage begins behind all existing cells; \<open>fd_move_ctor\<close> adds the new object there.\<close>

definition relocate :: "nat \<Rightarrow> nat \<Rightarrow> fd_world \<Rightarrow> fd_world" where
  "relocate i n w = fold (\<lambda>j w. fd_dtor j (fd_move_ctor j w)) [i..<n] w"

definition vec_reallocate :: "(nat \<Rightarrow> nat) \<Rightarrow> vec_broadcaster \<Rightarrow> vec_broadcaster" where
  "vec_reallocate grow v = v\<lparr>vec_base := length (cells (vec_world v)), vec_cap := grow (vec_size v),
     vec_world := relocate (vec_base v) (vec_base v + vec_size v) (vec_world v)\<rparr>"

text \<open>Construction in place: in a cell that an earlier \<open>erase\<close> left, or behind the last cell.\<close>

definition construct_at :: "nat \<Rightarrow> fd \<Rightarrow> fd_world \<Rightarrow> fd_world" where
  "construct_at i f w = (if i < length (cells w) then w\<lparr>cells := (cells w)[i := f]\<rparr> else fd_ctor f w)"

definition vec_emplace_back :: "(nat \<Rightarrow> nat) \<Rightarrow> fd \<Rightarrow> vec_broadcaster \<Rightarrow> vec_broadcaster" where
  "vec_emplace_back grow f v =
     (let v1 = (if vec_size v < vec_cap v then v else vec_reallocate grow v)
      in v1\<lparr>vec_size := Suc (vec_size v1), vec_world := construct_at (vec_base v1 + vec_size v1) f (vec_world v1)\<rparr>)"

definition vec_accept :: "(nat \<Rightarrow> nat) \<Rightarrow> fd \<Rightarrow> vec_broadcaster \<Rightarrow> vec_broadcaster" where
  "vec_accept grow f v = (vec_emplace_back grow f v)\<lparr>vec_wire := (vec_wire v)(f := [])\<rparr>"

definition vec_drop :: "nat \<Rightarrow> vec_broadcaster \<Rightarrow> vec_broadcaster" where
  "vec_drop i v = v\<lparr>vec_size := vec_size v - 1,
     vec_world := vec_erase (vec_base v + i) (vec_base v + vec_size v) (vec_world v)\<rparr>"

text \<open>The loop of \<open>broadcast_line\<close> with the iterator as an index.\<close>

function vec_loop :: "(fd \<Rightarrow> io_out) \<Rightarrow> string \<Rightarrow> nat \<Rightarrow> vec_broadcaster \<Rightarrow> vec_broadcaster" where
  "vec_loop ans payload i v =
     (if vec_size v \<le> i then v
      else let f = fd_get (vec_base v + i) (vec_world v)
           in case ans f of
                Out_err e \<Rightarrow>
                  (if e = EAGAIN then vec_loop ans payload (Suc i) v else vec_loop ans payload i (vec_drop i v))
              | Room k \<Rightarrow>
                  (let n = min k (length payload);
                       v1 = v\<lparr>vec_wire := (vec_wire v)(f := vec_wire v f @ take n payload)\<rparr>
                   in if n \<noteq> length payload then vec_loop ans payload i (vec_drop i v1)
                      else vec_loop ans payload (Suc i) v1))"
  by pat_completeness auto

termination
  by (relation "measure (\<lambda>(ans, payload, i, v). vec_size v - i)") (auto simp: vec_drop_def)

declare vec_loop.simps [simp del]

definition vec_broadcast :: "(fd \<Rightarrow> io_out) \<Rightarrow> string \<Rightarrow> vec_broadcaster \<Rightarrow> vec_broadcaster" where
  "vec_broadcast ans line v = vec_loop ans (line @ [nl]) 0 v"

section \<open>Erasing an element\<close>

text \<open>After the first move, every element is moved into an object that owns nothing.\<close>

lemma shift_down:
  assumes "cells w = xs @ [-1] @ ys @ zs"
  shows "fold (\<lambda>j. fd_move_assign (j - 1) j) [Suc (length xs)..<Suc (length xs + length ys)] w =
    w\<lparr>cells := xs @ ys @ [-1] @ zs\<rparr>"
  using assms
proof (induction ys arbitrary: xs w)
  case Nil
  then show ?case by (cases w) simp
next
  case (Cons y ys)
  let ?i = "length xs"
  have "fd_move_assign ?i (Suc ?i) w = w\<lparr>cells := (xs @ [y]) @ [-1] @ ys @ zs\<rparr>"
    using Cons.prems by (simp add: fd_move_assign_def fd_reset_def Let_def nth_append list_update_append)
  moreover have "[Suc ?i..<Suc (?i + length (y # ys))] = Suc ?i # [Suc (length (xs @ [y]))..<Suc (length (xs @ [y]) + length ys)]"
    by (simp add: upt_conv_Cons del: upt_Suc)
  ultimately show ?case using Cons.IH [of "w\<lparr>cells := (xs @ [y]) @ [-1] @ ys @ zs\<rparr>" "xs @ [y]"] by simp
qed

lemma vec_erase_spec:
  assumes "cells w = xs @ f # ys @ zs" "n = Suc (length xs + length ys)" "0 \<le> f"
  shows "cells (vec_erase (length xs) n w) = xs @ ys @ [-1] @ zs"
    and "closes (vec_erase (length xs) n w) = closes w @ [f]"
proof -
  let ?i = "length xs"
  have "cells (vec_erase ?i n w) = xs @ ys @ [-1] @ zs \<and> closes (vec_erase ?i n w) = closes w @ [f]"
  proof (cases ys)
    case Nil
    then show ?thesis using assms
      by (simp add: vec_erase_def fd_dtor_def fd_reset_def Let_def nth_append list_update_append)
  next
    case (Cons y ys')
    let ?w = "w\<lparr>cells := (xs @ [y]) @ [-1] @ ys' @ zs, closes := closes w @ [f]\<rparr>"
    have "fd_move_assign ?i (Suc ?i) w = ?w"
      using assms(1,3) Cons by (simp add: fd_move_assign_def fd_reset_def Let_def nth_append list_update_append)
    moreover have "[Suc ?i..<n] = Suc ?i # [Suc (length (xs @ [y]))..<Suc (length (xs @ [y]) + length ys')]"
      using assms(2) Cons by (simp add: upt_conv_Cons del: upt_Suc)
    ultimately have "vec_erase ?i n w = fd_dtor (n - 1) (?w\<lparr>cells := (xs @ [y]) @ ys' @ [-1] @ zs\<rparr>)"
      using shift_down [of ?w "xs @ [y]" ys' zs] by (simp add: vec_erase_def)
    then show ?thesis using assms(2) Cons
      by (simp add: fd_dtor_def fd_reset_def Let_def nth_append list_update_append)
  qed
  then show "cells (vec_erase ?i n w) = xs @ ys @ [-1] @ zs" "closes (vec_erase ?i n w) = closes w @ [f]" by simp_all
qed

section \<open>Moving to new storage\<close>

text \<open>Every element arrives in the new storage, and destroying the objects it leaves closes nothing.\<close>

lemma relocate_spec:
  assumes "cells w = xs @ fs @ zs"
  shows "relocate (length xs) (length xs + length fs) w = w\<lparr>cells := xs @ replicate (length fs) (-1) @ zs @ fs\<rparr>"
  using assms
proof (induction fs arbitrary: xs w zs)
  case Nil
  then show ?case by (cases w) (simp add: relocate_def)
next
  case (Cons f fs)
  let ?w = "w\<lparr>cells := (xs @ [-1]) @ fs @ (zs @ [f])\<rparr>"
  have "fd_dtor (length xs) (fd_move_ctor (length xs) w) = ?w"
    using Cons.prems by (simp add: fd_dtor_def fd_reset_def fd_move_ctor_def Let_def nth_append list_update_append)
  moreover have "[length xs..<length xs + length (f # fs)] = length xs # [length (xs @ [-1 :: fd])..<length (xs @ [-1 :: fd]) + length fs]"
    by (simp add: upt_conv_Cons del: upt_Suc)
  ultimately have "relocate (length xs) (length xs + length (f # fs)) w =
      relocate (length (xs @ [-1 :: fd])) (length (xs @ [-1 :: fd]) + length fs) ?w" by (simp add: relocate_def del: upt_Suc)
  then show ?case using Cons.IH [of ?w "xs @ [-1]" "zs @ [f]"] by simp
qed

section \<open>Refinement\<close>

text \<open>
  The vector of objects \<open>v\<close> stands for the broadcaster \<open>s\<close>. The cells in front of it are storage that was given up, those
  behind it elements that were erased; none of them owns a descriptor.
\<close>

definition represents :: "vec_broadcaster \<Rightarrow> tcp_broadcaster \<Rightarrow> bool" where
  "represents v s \<longleftrightarrow> vec_size v = length (tcp_clients s) \<and>
     (\<exists>old dead. cells (vec_world v) = old @ tcp_clients s @ dead \<and> vec_base v = length old \<and> (\<forall>f \<in> set (old @ dead). f = -1)) \<and>
     (\<forall>f \<in> set (tcp_clients s). 0 \<le> f) \<and> closes (vec_world v) = tcp_closed s \<and> vec_wire v = tcp_wire s"

lemma representsI:
  assumes "cells (vec_world v) = old @ tcp_clients s @ dead" "vec_base v = length old" "vec_size v = length (tcp_clients s)"
    "\<forall>f \<in> set (old @ dead). f = -1" "\<forall>f \<in> set (tcp_clients s). 0 \<le> f" "closes (vec_world v) = tcp_closed s" "vec_wire v = tcp_wire s"
  shows "represents v s"
  using assms unfolding represents_def by blast

lemma representsE:
  assumes "represents v s"
  obtains old dead where "cells (vec_world v) = old @ tcp_clients s @ dead" "vec_base v = length old"
    "vec_size v = length (tcp_clients s)" "\<forall>f \<in> set (old @ dead). f = -1" "\<forall>f \<in> set (tcp_clients s). 0 \<le> f"
    "closes (vec_world v) = tcp_closed s" "vec_wire v = tcp_wire s"
  using assms unfolding represents_def by blast

lemma represents_drop:
  assumes "represents v s" "tcp_clients s = xs @ f # ys"
  shows "represents (vec_drop (length xs) v) ((close_fd f s)\<lparr>tcp_clients := xs @ ys\<rparr>)"
  using assms(1)
proof (rule representsE)
  fix old dead
  assume d: "cells (vec_world v) = old @ tcp_clients s @ dead" "vec_base v = length old" "vec_size v = length (tcp_clients s)"
    "\<forall>f \<in> set (old @ dead). f = -1" "\<forall>f \<in> set (tcp_clients s). 0 \<le> f" "closes (vec_world v) = tcp_closed s" "vec_wire v = tcp_wire s"
  then have c: "cells (vec_world v) = (old @ xs) @ f # ys @ dead" "vec_base v + vec_size v = Suc (length (old @ xs) + length ys)" "0 \<le> f"
    using assms(2) by simp_all
  show ?thesis
    using vec_erase_spec [OF c] d assms(2)
    by (intro representsI [of _ old _ "-1 # dead"]) (auto simp: vec_drop_def close_fd_def)
qed

lemma vec_loop_refines:
  "represents v (s\<lparr>tcp_clients := pre @ fs\<rparr>) \<Longrightarrow>
     represents (vec_loop ans payload (length pre) v)
       (case send_each ans fs payload s of (kept, s1) \<Rightarrow> s1\<lparr>tcp_clients := pre @ kept\<rparr>)"
proof (induction fs arbitrary: v s pre)
  case Nil
  then show ?case by (simp add: vec_loop.simps [of ans payload "length pre" v] represents_def)
next
  case (Cons f fs)
  let ?i = "length pre"
  have f: "fd_get (vec_base v + ?i) (vec_world v) = f" "\<not> vec_size v \<le> ?i" "vec_wire v = tcp_wire s"
    using Cons.prems by (auto simp: represents_def fd_get_def nth_append)
  have keep: "represents (vec_loop ans payload (Suc ?i) v1)
      (case send_each ans fs payload s1 of (kept, s2) \<Rightarrow> s2\<lparr>tcp_clients := pre @ f # kept\<rparr>)"
    if "represents v1 (s1\<lparr>tcp_clients := pre @ f # fs\<rparr>)" for v1 s1
    using Cons.IH [where v = v1 and s = s1 and pre = "pre @ [f]"] that by simp
  have drop: "represents (vec_loop ans payload ?i (vec_drop ?i v1))
      (case send_each ans fs payload (close_fd f s1) of (kept, s2) \<Rightarrow> s2\<lparr>tcp_clients := pre @ kept\<rparr>)"
    if "represents v1 (s1\<lparr>tcp_clients := pre @ f # fs\<rparr>)" for v1 s1
    using Cons.IH [where v = "vec_drop ?i v1" and s = "close_fd f s1" and pre = pre] represents_drop [OF that] by (simp add: close_fd_def)
  show ?case
  proof (cases "ans f")
    case (Room k)
    define n where "n = min k (length payload)"
    let ?W = "(tcp_wire s)(f := tcp_wire s f @ take n payload)"
    have r: "represents (v\<lparr>vec_wire := ?W\<rparr>) ((s\<lparr>tcp_wire := ?W\<rparr>)\<lparr>tcp_clients := pre @ f # fs\<rparr>)"
      using Cons.prems by (simp add: represents_def)
    show ?thesis
      using keep [OF r] drop [OF r] f Room
      by (cases "n = length payload")
        (simp_all add: vec_loop.simps [of ans payload ?i v] Let_def case_prod_unfold n_def [symmetric])
  next
    case (Out_err e)
    then show ?thesis
      using keep [OF Cons.prems] drop [OF Cons.prems] f
      by (simp add: vec_loop.simps [of ans payload ?i v] case_prod_unfold)
  qed
qed

lemma reallocate_refines:
  assumes "represents v s"
  shows "represents (vec_reallocate grow v) s"
  using assms
proof (rule representsE)
  fix old dead
  assume d: "cells (vec_world v) = old @ tcp_clients s @ dead" "vec_base v = length old" "vec_size v = length (tcp_clients s)"
    "\<forall>f \<in> set (old @ dead). f = -1" "\<forall>f \<in> set (tcp_clients s). 0 \<le> f" "closes (vec_world v) = tcp_closed s" "vec_wire v = tcp_wire s"
  show ?thesis
    using d relocate_spec [OF d(1)]
    by (intro representsI [of _ "old @ replicate (length (tcp_clients s)) (-1) @ dead" _ "[]"]) (auto simp: vec_reallocate_def)
qed

lemma construct_refines:
  assumes "represents v s" "0 \<le> f"
  shows "represents (v\<lparr>vec_size := Suc (vec_size v), vec_world := construct_at (vec_base v + vec_size v) f (vec_world v),
      vec_wire := (vec_wire v)(f := [])\<rparr>) (add_subscriber f s)"
  using assms(1)
proof (rule representsE)
  fix old dead
  assume d: "cells (vec_world v) = old @ tcp_clients s @ dead" "vec_base v = length old" "vec_size v = length (tcp_clients s)"
    "\<forall>f \<in> set (old @ dead). f = -1" "\<forall>f \<in> set (tcp_clients s). 0 \<le> f" "closes (vec_world v) = tcp_closed s" "vec_wire v = tcp_wire s"
  let ?w = "construct_at (vec_base v + vec_size v) f (vec_world v)"
  have "cells ?w = old @ (tcp_clients s @ [f]) @ tl dead" "closes ?w = closes (vec_world v)"
    using d by (cases dead; simp add: construct_at_def fd_ctor_def list_update_append)+
  moreover have "\<forall>f \<in> set (old @ tl dead). f = -1" using d(4) by (cases dead) auto
  ultimately show ?thesis
    using assms(2) d by (intro representsI [of _ old _ "tl dead"]) auto
qed

lemma vec_accept_refines:
  assumes "represents v s" "0 \<le> f"
  shows "represents (vec_accept grow f v) (add_subscriber f s)"
proof -
  have wire: "vec_wire (vec_reallocate grow v) = vec_wire v" by (simp add: vec_reallocate_def)
  show ?thesis
    using construct_refines [OF assms] construct_refines [OF reallocate_refines [OF assms(1)] assms(2), of grow]
    by (simp add: vec_accept_def vec_emplace_back_def Let_def wire)
qed

section \<open>Properties\<close>

definition empty_vec :: vec_broadcaster where
  "empty_vec = \<lparr>vec_base = 0, vec_size = 0, vec_cap = 0, vec_world = empty_world, vec_wire = (\<lambda>_. [])\<rparr>"

datatype vec_op = Vec_accept fd | Vec_broadcast "fd \<Rightarrow> io_out" string

fun vec_exec :: "(nat \<Rightarrow> nat) \<Rightarrow> vec_op \<Rightarrow> vec_broadcaster \<Rightarrow> vec_broadcaster" where
  "vec_exec grow (Vec_accept f) v = vec_accept grow f v"
| "vec_exec grow (Vec_broadcast ans line) v = vec_broadcast ans line v"

fun tcp_exec :: "vec_op \<Rightarrow> tcp_broadcaster \<Rightarrow> tcp_broadcaster" where
  "tcp_exec (Vec_accept f) s = add_subscriber f s"
| "tcp_exec (Vec_broadcast ans line) s = broadcast_line ans line s"

lemma vec_exec_refines: "represents v s \<Longrightarrow> (\<And>f. x = Vec_accept f \<Longrightarrow> 0 \<le> f) \<Longrightarrow> represents (vec_exec grow x v) (tcp_exec x s)"
  using vec_loop_refines [where v = v and s = s and pre = "[]" and fs = "tcp_clients s"] vec_accept_refines
  by (cases x) (auto simp: vec_broadcast_def broadcast_line_def)

text \<open>
  Property C35 (the vector of wrappers). For every sequence of accepted connections and broadcasts, the
  broadcaster that keeps its clients as a vector of owning wrapper objects sends the same bytes to the
  same connections, keeps the same connections in the same order, and closes the same descriptors in the
  same order as the one that keeps a list of descriptors and closes them explicitly: moving the later
  elements down when a client is erased closes nothing but that client's descriptor, and moving all elements when the storage
  is full, however it grows, closes nothing at all. No object outside the vector owns a descriptor.
\<close>

theorem vector_refines_list:
  assumes "\<forall>f. Vec_accept f \<in> set xs \<longrightarrow> 0 \<le> f"
  shows "\<exists>old dead. vec_wire (fold (vec_exec grow) xs empty_vec) = tcp_wire (fold tcp_exec xs new_tcp_broadcaster) \<and>
    closes (vec_world (fold (vec_exec grow) xs empty_vec)) = tcp_closed (fold tcp_exec xs new_tcp_broadcaster) \<and>
    cells (vec_world (fold (vec_exec grow) xs empty_vec)) = old @ tcp_clients (fold tcp_exec xs new_tcp_broadcaster) @ dead \<and>
    (\<forall>f \<in> set (old @ dead). f = -1)"
proof -
  have "represents (fold (vec_exec grow) xs v) (fold tcp_exec xs s)"
    if "represents v s" "\<forall>f. Vec_accept f \<in> set xs \<longrightarrow> 0 \<le> f" for v s
    using that
  proof (induction xs arbitrary: v s)
    case (Cons x xs)
    have "represents (vec_exec grow x v) (tcp_exec x s)"
      by (rule vec_exec_refines [OF Cons.prems(1)]) (use Cons.prems(2) in auto)
    with Cons show ?case by simp
  qed simp
  moreover have "represents empty_vec new_tcp_broadcaster"
    by (simp add: represents_def empty_vec_def empty_world_def new_tcp_broadcaster_def)
  ultimately show ?thesis using assms unfolding represents_def by blast
qed

text \<open>
  Three clients, in storage that doubles: it is full at the second and at the third accept. The broadcast fails for the first
  client and would block for the second one.
\<close>

theorem vector_refines_list_witness:
  "closes (vec_world (fold (vec_exec (\<lambda>n. max 1 (2 * n))) [Vec_accept 7, Vec_accept 8, Vec_accept 9,
     Vec_broadcast (\<lambda>f. if f = 7 then Room 0 else if f = 8 then Out_err EAGAIN else Room 5) ''a''] empty_vec)) = [7] \<and>
   vec_wire (fold (vec_exec (\<lambda>n. max 1 (2 * n))) [Vec_accept 7, Vec_accept 8, Vec_accept 9,
     Vec_broadcast (\<lambda>f. if f = 7 then Room 0 else if f = 8 then Out_err EAGAIN else Room 5) ''a''] empty_vec) 9 = ''a'' @ [nl]"
  using vector_refines_list [of "[Vec_accept 7, Vec_accept 8, Vec_accept 9,
     Vec_broadcast (\<lambda>f. if f = 7 then Room 0 else if f = 8 then Out_err EAGAIN else Room 5) ''a'']" "\<lambda>n. max 1 (2 * n)"]
  by (auto simp: broadcast_line_def new_tcp_broadcaster_def close_fd_def Let_def)

end
