(* ===== verification/Driver_Concurrency.thy ===== *)
theory Driver_Concurrency
  imports Driver_Refinement
begin

text \<open>
  Concurrent configuration of the driver. \<open>sensorhub_apply_config\<close> and the sysfs stores run without the
  device lock: each load or store of a 32-bit field of \<open>dev->config\<close> and each call of the timer subsystem is
  a step of its own, and any number of writers (ioctl and sysfs) may be inside at the same time, together
  with the timer callback. Everything that runs under the device lock, and every entry that does not
  touch the configuration, is one step, as in \<open>Driver\<close>.

  The theory shows what survives (the range of the settings), when the atomic view of \<open>Driver\<close> is exact (one
  writer at a time), and what can go wrong with two.
\<close>

section \<open>Writers\<close>

text \<open>
  The entries that copy or change the configuration; the result of \<open>kstrtouint\<close> or \<open>kstrtobool\<close> on the buffer is
  part of the entry, as in \<open>drv_event\<close>.
\<close>

datatype sysfs_store = Interval_value "errno + u32" string | Enabled_value "errno + bool" string

datatype config_entry = Get_config bool | Set_config bool "byte list" | Store sysfs_store

text \<open>
  Program points: copying the two fields of \<open>dev->config\<close> to the local \<open>cfg\<close> (for the ioctl that returns them, or
  in a sysfs store), writing the two fields back, programming the timer. The reply is what the entry
  will return.
\<close>

datatype task =
    Get_interval bool
  | Get_enabled bool u32
  | Copy_interval sysfs_store
  | Copy_enabled sysfs_store u32
  | Write_interval sensorhub_config reply
  | Write_enabled sensorhub_config reply
  | Program_timer sensorhub_config reply
  | Returned reply

fun enter :: "config_entry \<Rightarrow> task" where
  "enter (Get_config fault) = Get_interval fault"
| "enter (Set_config fault arg) =
     (if fault then Returned (Err EFAULT)
      else if \<not> interval_in_range (interval_ms (decode_config arg)) then Returned (Err EINVAL)
      else Write_interval (decode_config arg) (Ret 0))"
| "enter (Store s) = Copy_interval s"

text \<open>The stores between the copy and \<open>sensorhub_apply_config\<close>.\<close>

fun after_copy :: "sysfs_store \<Rightarrow> sensorhub_config \<Rightarrow> task" where
  "after_copy (Interval_value r buf) cfg =
     (case r of
        Inl e \<Rightarrow> Returned (Err e)
      | Inr ms \<Rightarrow>
          (if \<not> interval_in_range ms then Returned (Err EINVAL)
           else Write_interval (cfg\<lparr>interval_ms := ms\<rparr>) (Ret (length buf))))"
| "after_copy (Enabled_value r buf) cfg =
     (case r of
        Inl e \<Rightarrow> Returned (Err e)
      | Inr b \<Rightarrow> Write_interval (cfg\<lparr>enabled := (if b then 1 else 0)\<rparr>) (Ret (length buf)))"

text \<open>
  The timer callback: before the test of \<open>enabled\<close>, before the push, before the restart. \<open>hrtimer_cancel\<close> waits
  until no callback runs; \<open>hrtimer_start\<close> does not. A callback that asks for a restart leaves a timer
  alone that was started meanwhile.
\<close>

datatype timer_cb = Cb_idle | Cb_check | Cb_sample | Cb_forward

fun task_step :: "timer_cb \<Rightarrow> task \<Rightarrow> 'f sensorhub_device \<Rightarrow> (task \<times> 'f sensorhub_device) option" where
  "task_step c (Get_interval fault) d = Some (Get_enabled fault (interval_ms (config d)), d)"
| "task_step c (Get_enabled fault ms) d =
     Some (Returned (if fault then Err EFAULT
                     else Data (encode_config \<lparr>interval_ms = ms, enabled = enabled (config d)\<rparr>)), d)"
| "task_step c (Copy_interval s) d = Some (Copy_enabled s (interval_ms (config d)), d)"
| "task_step c (Copy_enabled s ms) d = Some (after_copy s \<lparr>interval_ms = ms, enabled = enabled (config d)\<rparr>, d)"
| "task_step c (Write_interval cfg r) d =
     Some (Write_enabled cfg r, d\<lparr>config := (config d)\<lparr>interval_ms := interval_ms cfg\<rparr>\<rparr>)"
| "task_step c (Write_enabled cfg r) d =
     Some (Program_timer cfg r, d\<lparr>config := (config d)\<lparr>enabled := (if enabled cfg \<noteq> 0 then 1 else 0)\<rparr>\<rparr>)"
| "task_step c (Program_timer cfg r) d =
     (if enabled cfg \<noteq> 0 then Some (Returned r, d\<lparr>timer := Some (interval_ms cfg)\<rparr>)
      else if c = Cb_idle then Some (Returned r, d\<lparr>timer := None\<rparr>)
      else None)"
| "task_step c (Returned r) d = None"

section \<open>The kernel side as a whole\<close>

record 'f kernel =
  kdev :: "'f sensorhub_device"
  tasks :: "task list"
  cb :: timer_cb

datatype kernel_action = Enter config_entry | Task nat | Expire | Cb u32 u64 | Entry drv_event

fun config_event :: "drv_event \<Rightarrow> bool" where
  "config_event (Timer_fires r now) = True"
| "config_event (Interval_store r buf) = True"
| "config_event (Enabled_store r buf) = True"
| "config_event (Ioctl_call cmd fault arg) = (cmd = SENSORHUB_IOC_SET_CONFIG \<or> cmd = SENSORHUB_IOC_GET_CONFIG)"
| "config_event ev = False"

fun cb_step :: "'f kfifo_ops \<Rightarrow> u32 \<Rightarrow> u64 \<Rightarrow> timer_cb \<Rightarrow> 'f sensorhub_device \<Rightarrow> (timer_cb \<times> 'f sensorhub_device) option" where
  "cb_step K r now Cb_idle d = None"
| "cb_step K r now Cb_check d = Some (if enabled (config d) = 0 then Cb_idle else Cb_sample, d)"
| "cb_step K r now Cb_sample d = Some (Cb_forward, sensorhub_push_sample K (timer_sample r now) False d)"
| "cb_step K r now Cb_forward d =
     Some (Cb_idle, d\<lparr>timer := (case timer d of None \<Rightarrow> Some (interval_ms (config d)) | Some ms \<Rightarrow> Some ms)\<rparr>)"

fun kstep :: "'f kfifo_ops \<Rightarrow> kernel_action \<Rightarrow> 'f kernel \<Rightarrow> 'f kernel option" where
  "kstep K (Enter e) k = Some (k\<lparr>tasks := tasks k @ [enter e]\<rparr>)"
| "kstep K (Task i) k =
     (if i < length (tasks k)
      then map_option (\<lambda>(t, d). k\<lparr>kdev := d, tasks := (tasks k)[i := t]\<rparr>) (task_step (cb k) (tasks k ! i) (kdev k))
      else None)"
| "kstep K Expire k =
     (if cb k = Cb_idle \<and> timer (kdev k) \<noteq> None
      then Some (k\<lparr>kdev := (kdev k)\<lparr>timer := None\<rparr>, cb := Cb_check\<rparr>) else None)"
| "kstep K (Cb r now) k = map_option (\<lambda>(c, d). k\<lparr>kdev := d, cb := c\<rparr>) (cb_step K r now (cb k) (kdev k))"
| "kstep K (Entry ev) k = (if config_event ev then None else Some (k\<lparr>kdev := snd (drv_exec K ev (kdev k))\<rparr>))"

fun krun :: "'f kfifo_ops \<Rightarrow> kernel_action list \<Rightarrow> 'f kernel \<Rightarrow> 'f kernel option" where
  "krun K [] k = Some k"
| "krun K (a # as) k = (case kstep K a k of None \<Rightarrow> None | Some k1 \<Rightarrow> krun K as k1)"

definition idle_kernel :: "'f sensorhub_device \<Rightarrow> 'f kernel" where
  "idle_kernel d = \<lparr>kdev = d, tasks = [], cb = Cb_idle\<rparr>"

lemma krun_append: "krun K (as @ bs) k = (case krun K as k of None \<Rightarrow> None | Some k1 \<Rightarrow> krun K bs k1)"
  by (induction as arbitrary: k) (auto split: option.splits)

lemma krun_invariant:
  assumes "krun K as k = Some k'" "P k" "\<And>a k k'. a \<in> set as \<Longrightarrow> kstep K a k = Some k' \<Longrightarrow> P k \<Longrightarrow> P k'"
  shows "P k'"
  using assms
proof (induction as arbitrary: k)
  case (Cons a as)
  then obtain k1 where k1: "kstep K a k = Some k1" "krun K as k1 = Some k'" by (auto split: option.splits)
  have P1: "P k1" by (rule Cons.prems(3) [OF _ k1(1) Cons.prems(2)]) simp
  show ?case
  proof (rule Cons.IH [OF k1(2) P1])
    fix b k k'
    assume "b \<in> set as" "kstep K b k = Some k'" "P k"
    then show "P k'" using Cons.prems(3) [of b k k'] by simp
  qed
qed simp

lemma push_settings [simp]:
  "config (sensorhub_push_sample K s b d) = config d" "timer (sensorhub_push_sample K s b d) = timer d"
  by (simp_all add: sensorhub_push_sample_def Let_def split: prod.splits)

lemma other_entry_settings:
  assumes "\<not> config_event ev"
  shows "config (snd (drv_exec K ev d)) = config d" "timer (snd (drv_exec K ev d)) = timer d"
proof -
  have "config (snd (drv_exec K ev d)) = config d \<and> timer (snd (drv_exec K ev d)) = timer d"
  proof (cases ev)
    case (Ioctl_call cmd fault arg)
    with assms show ?thesis by (cases cmd) simp_all
  next
    case (Read_call nonblock signal fault count)
    then show ?thesis by (simp add: sensorhub_read_def read_copy_def Let_def split: prod.splits)
  qed (use assms in \<open>simp_all add: sensorhub_open_def sensorhub_release_def sensorhub_write_def\<close>)
  then show "config (snd (drv_exec K ev d)) = config d" "timer (snd (drv_exec K ev d)) = timer d" by simp_all
qed

section \<open>The settings stay in range\<close>

fun task_ok :: "task \<Rightarrow> bool" where
  "task_ok (Get_interval fault) = True"
| "task_ok (Get_enabled fault ms) = interval_in_range ms"
| "task_ok (Copy_interval s) = True"
| "task_ok (Copy_enabled s ms) = interval_in_range ms"
| "task_ok (Write_interval cfg r) = interval_in_range (interval_ms cfg)"
| "task_ok (Write_enabled cfg r) = interval_in_range (interval_ms cfg)"
| "task_ok (Program_timer cfg r) = interval_in_range (interval_ms cfg)"
| "task_ok (Returned r) = True"

definition settings_range :: "sensorhub_config \<Rightarrow> u32 option \<Rightarrow> bool" where
  "settings_range c t \<longleftrightarrow> interval_in_range (interval_ms c) \<and> enabled c \<in> {0, 1} \<and>
     (case t of None \<Rightarrow> True | Some ms \<Rightarrow> interval_in_range ms)"

definition range_inv :: "'f kernel \<Rightarrow> bool" where
  "range_inv k \<longleftrightarrow> settings_range (config (kdev k)) (timer (kdev k)) \<and> list_all task_ok (tasks k)"

lemma enter_ok: "task_ok (enter e)"
  by (cases e) auto

lemma after_copy_ok: "interval_in_range (interval_ms cfg) \<Longrightarrow> task_ok (after_copy s cfg)"
  by (cases s) (auto split: sum.splits)

lemma task_step_range:
  assumes "task_step c t d = Some (t', d')" "task_ok t" "settings_range (config d) (timer d)"
  shows "task_ok t' \<and> settings_range (config d') (timer d')"
  using assms
  by (cases "(c, t, d)" rule: task_step.cases)
    (auto simp: settings_range_def intro: after_copy_ok split: if_splits option.splits)

lemma cb_step_range:
  assumes "cb_step K r now c d = Some (c', d')" "settings_range (config d) (timer d)"
  shows "settings_range (config d') (timer d')"
  using assms by (cases c) (auto simp: settings_range_def split: option.splits)

lemma kstep_range:
  assumes "kstep K a k = Some k'" "range_inv k"
  shows "range_inv k'"
proof (cases a)
  case (Task i)
  then obtain t d where t: "i < length (tasks k)" "task_step (cb k) (tasks k ! i) (kdev k) = Some (t, d)"
    "k' = k\<lparr>kdev := d, tasks := (tasks k)[i := t]\<rparr>"
    using assms(1) by (auto split: if_splits)
  moreover have "task_ok (tasks k ! i)" using assms(2) t(1) by (simp add: range_inv_def list_all_length)
  ultimately show ?thesis
    using task_step_range [OF t(2)] assms(2) by (auto simp: range_inv_def list_all_length nth_list_update)
next
  case (Cb r now)
  with assms show ?thesis by (auto simp: range_inv_def dest: cb_step_range)
next
  case (Entry ev)
  with assms show ?thesis by (auto simp: range_inv_def other_entry_settings split: if_splits)
next
  case (Enter e)
  with assms show ?thesis by (auto simp: range_inv_def enter_ok)
next
  case Expire
  with assms show ?thesis by (auto simp: range_inv_def settings_range_def split: if_splits)
qed

text \<open>
  The samples in the FIFO do not depend on the settings: the data operations commute with forgetting them,
  so the invariant of \<open>Driver_Refinement\<close> carries over.
\<close>

definition plain :: "'f sensorhub_device \<Rightarrow> 'f sensorhub_device" where
  "plain d = d\<lparr>config := \<lparr>interval_ms = SENSORHUB_DEFAULT_INTERVAL_MS, enabled = 0\<rparr>, timer := None\<rparr>"

lemma plain_updates [simp]: "plain (d\<lparr>config := c\<rparr>) = plain d" "plain (d\<lparr>timer := t\<rparr>) = plain d" "fifo (plain d) = fifo d"
  by (simp_all add: plain_def)

lemma plain_push: "plain (sensorhub_push_sample K s b d) = sensorhub_push_sample K s b (plain d)"
  by (simp add: plain_def sensorhub_push_sample_def Let_def split: prod.splits)

lemma plain_entry:
  assumes "\<not> config_event ev"
  shows "plain (snd (drv_exec K ev d)) = snd (drv_exec K ev (plain d))"
proof (cases ev)
  case (Ioctl_call cmd fault arg)
  with assms show ?thesis by (cases cmd) (simp_all add: plain_def)
next
  case (Read_call nonblock signal fault count)
  then show ?thesis
    by (simp add: plain_def sensorhub_read_def sensorhub_has_data_def read_copy_def Let_def split: prod.splits)
next
  case (Write_call fault now buf)
  then show ?thesis by (simp add: sensorhub_write_def plain_push)
qed (use assms in \<open>simp_all add: plain_def sensorhub_open_def sensorhub_release_def\<close>)

lemma plain_task_step: "task_step c t d = Some (t', d') \<Longrightarrow> plain d' = plain d"
  by (cases "(c, t, d)" rule: task_step.cases) (auto split: if_splits)

lemma kstep_samples:
  assumes "kfifo_api K bytes ok" "kstep K a k = Some k'" "drv_inv K bytes ok (plain (kdev k))"
  shows "drv_inv K bytes ok (plain (kdev k'))"
proof (cases a)
  case (Task i)
  with assms(2,3) show ?thesis by (auto dest!: plain_task_step split: if_splits)
next
  case (Cb r now)
  with assms show ?thesis
    by (cases "cb k") (auto simp: plain_push kfifo_api.push_refines(2))
next
  case (Entry ev)
  with assms(2,3) kfifo_api.run_refines [OF assms(1,3), of "[ev]"] show ?thesis
    by (auto simp: plain_entry split: if_splits prod.splits)
qed (use assms in \<open>auto split: if_splits\<close>)

section \<open>One writer at a time\<close>

fun finished :: "task \<Rightarrow> bool" where
  "finished (Returned r) = True"
| "finished t = False"

fun is_enter :: "kernel_action \<Rightarrow> bool" where
  "is_enter (Enter e) = True"
| "is_enter a = False"

text \<open>The configuration entries that a run starts, in their order.\<close>

fun entries :: "kernel_action list \<Rightarrow> config_entry list" where
  "entries [] = []"
| "entries (Enter e # as) = e # entries as"
| "entries (a # as) = entries as"

lemma no_entries: "list_all (\<lambda>a. \<not> is_enter a) as \<longleftrightarrow> entries as = []"
  by (induction as rule: entries.induct) auto

text \<open>Sampling is stopped when disabled; when enabled, the timer is queued or its callback is running.\<close>

definition consistent :: "'f kernel \<Rightarrow> bool" where
  "consistent k \<longleftrightarrow>
     (if enabled (config (kdev k)) = 0 then timer (kdev k) = None \<and> cb k = Cb_idle
      else timer (kdev k) \<noteq> None \<or> cb k \<noteq> Cb_idle)"

definition applied :: "sensorhub_config \<Rightarrow> sensorhub_config" where
  "applied cfg = \<lparr>interval_ms = interval_ms cfg, enabled = (if enabled cfg \<noteq> 0 then 1 else 0)\<rparr>"

text \<open>What a writer does with a configuration that nobody else changes, and the entry of \<open>Driver\<close> it is.\<close>

fun planned :: "config_entry \<Rightarrow> sensorhub_config \<Rightarrow> task" where
  "planned (Get_config fault) c0 = Returned (if fault then Err EFAULT else Data (encode_config c0))"
| "planned (Set_config fault arg) c0 = enter (Set_config fault arg)"
| "planned (Store s) c0 = after_copy s c0"

fun event_of :: "config_entry \<Rightarrow> drv_event" where
  "event_of (Get_config fault) = Ioctl_call SENSORHUB_IOC_GET_CONFIG fault []"
| "event_of (Set_config fault arg) = Ioctl_call SENSORHUB_IOC_SET_CONFIG fault arg"
| "event_of (Store (Interval_value r buf)) = Interval_store r buf"
| "event_of (Store (Enabled_value r buf)) = Enabled_store r buf"

lemma planned_refused: "planned e (config d) = Returned r \<Longrightarrow> drv_exec K (event_of e) d = (r, d)"
  by (cases e rule: event_of.cases)
    (auto simp: interval_ms_store_def enabled_store_def split: sum.splits if_splits)

lemma planned_applies:
  "planned e (config d) = Write_interval cfg r \<Longrightarrow> drv_exec K (event_of e) d = (r, sensorhub_apply_config cfg d)"
  by (cases e rule: event_of.cases)
    (auto simp: interval_ms_store_def enabled_store_def split: sum.splits if_splits)

lemma consistent_tasks [simp]: "consistent (k\<lparr>tasks := ts\<rparr>) = consistent k"
  by (simp add: consistent_def)

text \<open>The program points of the only active writer, entered with the configuration \<open>c0\<close>.\<close>

fun alone :: "config_entry \<Rightarrow> sensorhub_config \<Rightarrow> 'f kernel \<Rightarrow> task \<Rightarrow> bool" where
  "alone e c0 k (Get_interval fault) \<longleftrightarrow> e = Get_config fault \<and> config (kdev k) = c0 \<and> consistent k"
| "alone e c0 k (Get_enabled fault ms) \<longleftrightarrow> e = Get_config fault \<and> ms = interval_ms c0 \<and> config (kdev k) = c0 \<and> consistent k"
| "alone e c0 k (Copy_interval s) \<longleftrightarrow> e = Store s \<and> config (kdev k) = c0 \<and> consistent k"
| "alone e c0 k (Copy_enabled s ms) \<longleftrightarrow> e = Store s \<and> ms = interval_ms c0 \<and> config (kdev k) = c0 \<and> consistent k"
| "alone e c0 k (Write_interval cfg r) \<longleftrightarrow> planned e c0 = Write_interval cfg r \<and> config (kdev k) = c0 \<and> consistent k"
| "alone e c0 k (Write_enabled cfg r) \<longleftrightarrow> planned e c0 = Write_interval cfg r \<and>
     config (kdev k) = c0\<lparr>interval_ms := interval_ms cfg\<rparr> \<and> consistent k"
| "alone e c0 k (Program_timer cfg r) \<longleftrightarrow> planned e c0 = Write_interval cfg r \<and> config (kdev k) = applied cfg"
| "alone e c0 k (Returned r) \<longleftrightarrow> consistent k \<and>
     (planned e c0 = Returned r \<and> config (kdev k) = c0 \<or>
      (\<exists>cfg. planned e c0 = Write_interval cfg r \<and> config (kdev k) = applied cfg))"

definition alone_inv :: "task list \<Rightarrow> config_entry \<Rightarrow> sensorhub_config \<Rightarrow> 'f kernel \<Rightarrow> bool" where
  "alone_inv ts e c0 k \<longleftrightarrow> list_all finished ts \<and> (\<exists>t. tasks k = ts @ [t] \<and> alone e c0 k t)"

lemma task_step_finished: "finished t \<Longrightarrow> task_step c t d = None"
  by (cases t) simp_all

lemma alone_entered:
  assumes "consistent k"
  shows "alone e (config (kdev k)) (k\<lparr>tasks := ts\<rparr>) (enter e)"
  using assms by (cases e) (auto simp: consistent_def)

lemma alone_after_copy:
  assumes "e = Store s" "config (kdev k) = c0" "consistent k"
  shows "alone e c0 k (after_copy s c0)"
  using assms by (cases "after_copy s c0") (auto elim: after_copy.elims split: sum.splits if_splits)

lemma config_eta: "\<lparr>interval_ms = interval_ms c, enabled = enabled c\<rparr> = (c :: sensorhub_config)"
  by (cases c) simp

lemma alone_task_step:
  assumes "alone e c0 k t" "task_step (cb k) t (kdev k) = Some (t', d')"
  shows "alone e c0 (k\<lparr>kdev := d', tasks := ts\<rparr>) t'"
proof (cases t)
  case (Copy_enabled s ms)
  then show ?thesis using assms alone_after_copy [of e s "k\<lparr>tasks := ts\<rparr>" c0]
    by (auto simp: config_eta)
next
  case (Get_enabled fault ms)
  then show ?thesis using assms by (auto simp: config_eta)
qed (use assms in \<open>auto simp: consistent_def applied_def split: if_splits\<close>)

lemma alone_frame:
  assumes "alone e c0 k t" "config (kdev k') = config (kdev k)" "consistent k \<Longrightarrow> consistent k'"
  shows "alone e c0 k' t"
  using assms by (cases t) auto

text \<open>The timer and the other entries keep the consistency of the settings.\<close>

lemma consistent_others:
  assumes "kstep K a k = Some k'" "\<not> is_enter a" "\<forall>i. a \<noteq> Task i"
  shows "config (kdev k') = config (kdev k)" "tasks k' = tasks k" "consistent k \<Longrightarrow> consistent k'"
proof -
  have "config (kdev k') = config (kdev k) \<and> tasks k' = tasks k \<and> (consistent k \<longrightarrow> consistent k')"
  proof (cases a)
    case (Cb r now)
    then show ?thesis using assms by (cases "cb k") (auto simp: consistent_def split: option.splits)
  qed (use assms in \<open>auto simp: consistent_def other_entry_settings split: if_splits\<close>)
  then show "config (kdev k') = config (kdev k)" "tasks k' = tasks k" "consistent k \<Longrightarrow> consistent k'" by simp_all
qed

lemma alone_step:
  assumes "kstep K a k = Some k'" "\<not> is_enter a" "alone_inv ts e c0 k"
  shows "alone_inv ts e c0 k'"
proof -
  obtain t where t: "list_all finished ts" "tasks k = ts @ [t]" "alone e c0 k t"
    using assms(3) by (auto simp: alone_inv_def)
  show ?thesis
  proof (cases "\<exists>i. a = Task i")
    case True
    then obtain i t' d' where i: "a = Task i" "i < length (tasks k)"
      "task_step (cb k) (tasks k ! i) (kdev k) = Some (t', d')" "k' = k\<lparr>kdev := d', tasks := (tasks k)[i := t']\<rparr>"
      using assms(1) by (auto split: if_splits)
    have "i = length ts"
    proof (rule ccontr)
      assume "i \<noteq> length ts"
      then have "i < length ts" using i(2) t(2) by simp
      then have "finished (tasks k ! i)" using t(1,2) by (simp add: nth_append list_all_length)
      with i(3) show False by (simp add: task_step_finished)
    qed
    with i t alone_task_step [OF t(3)] show ?thesis by (auto simp: alone_inv_def nth_append)
  next
    case False
    with consistent_others [OF assms(1,2)] t alone_frame [OF t(3)] show ?thesis by (auto simp: alone_inv_def)
  qed
qed

lemma alone_run:
  assumes "consistent k" "list_all finished (tasks k)" "list_all (\<lambda>a. \<not> is_enter a) as"
    and "krun K (Enter e # as) k = Some k1"
  shows "alone_inv (tasks k) e (config (kdev k)) k1"
proof -
  let ?k = "k\<lparr>tasks := tasks k @ [enter e]\<rparr>"
  have "alone_inv (tasks k) e (config (kdev k)) ?k"
    using assms(1,2) alone_entered by (auto simp: alone_inv_def)
  moreover have "krun K as ?k = Some k1" using assms(4) by simp
  ultimately show ?thesis
    using assms(3) by (auto simp: list_all_iff intro: krun_invariant [where P = "alone_inv (tasks k) e (config (kdev k))"] alone_step)
qed

lemma apply_config_applied: "config (sensorhub_apply_config cfg d) = applied cfg"
  by (simp add: sensorhub_apply_config_def applied_def Let_def)

section \<open>Writers return\<close>

fun rank :: "task \<Rightarrow> nat" where
  "rank (Get_interval fault) = 2"
| "rank (Get_enabled fault ms) = 1"
| "rank (Copy_interval s) = 5"
| "rank (Copy_enabled s ms) = 4"
| "rank (Write_interval cfg r) = 3"
| "rank (Write_enabled cfg r) = 2"
| "rank (Program_timer cfg r) = 1"
| "rank (Returned r) = 0"

lemma rank_after_copy: "rank (after_copy s cfg) < 4"
  by (cases s) (auto split: sum.splits)

lemma task_step_idle: "\<not> finished t \<Longrightarrow> \<exists>t' d'. task_step Cb_idle t d = Some (t', d') \<and> rank t' < rank t"
  by (cases t) (auto simp: rank_after_copy)

lemma cb_returns: "\<exists>n k'. krun K (replicate n (Cb r now)) k = Some k' \<and> cb k' = Cb_idle \<and> tasks k' = tasks k"
proof (cases "cb k")
  case Cb_idle
  then show ?thesis by (intro exI [of _ 0]) simp
next
  case Cb_check
  then show ?thesis
    by (cases "enabled (config (kdev k)) = 0")
      (auto intro: exI [of _ 1] exI [of _ 3] simp: numeral_3_eq_3)
next
  case Cb_sample
  then show ?thesis by (intro exI [of _ 2]) (simp add: numeral_2_eq_2)
next
  case Cb_forward
  then show ?thesis by (intro exI [of _ 1]) simp
qed

lemma idle_tasks_return:
  "cb k = Cb_idle \<Longrightarrow> \<exists>as k'. list_all (\<lambda>a. \<not> is_enter a) as \<and> krun K as k = Some k' \<and> list_all finished (tasks k') \<and>
     length (tasks k') = length (tasks k)"
proof (induction "sum_list (map rank (tasks k))" arbitrary: k rule: less_induct)
  case less
  show ?case
  proof (cases "list_all finished (tasks k)")
    case True
    then show ?thesis by (intro exI [of _ "[]"]) simp
  next
    case False
    then obtain i where i: "i < length (tasks k)" "\<not> finished (tasks k ! i)" by (auto simp: list_all_length)
    obtain t d where t: "task_step Cb_idle (tasks k ! i) (kdev k) = Some (t, d)" "rank t < rank (tasks k ! i)"
      using task_step_idle [OF i(2)] by blast
    let ?k = "k\<lparr>kdev := d, tasks := (tasks k)[i := t]\<rparr>"
    have s: "kstep K (Task i) k = Some ?k" using i t less.prems by simp
    have "sum_list (map rank (tasks ?k)) < sum_list (map rank (tasks k))"
      using i(1) t(2) sum_list_update [of i "map rank (tasks k)" "rank t"]
        elem_le_sum_list [of i "map rank (tasks k)"] by (simp add: map_update)
    from less.hyps [OF this] less.prems obtain as k' where
      "list_all (\<lambda>a. \<not> is_enter a) as" "krun K as ?k = Some k'" "list_all finished (tasks k')"
      "length (tasks k') = length (tasks k)" by auto
    with s show ?thesis by (intro exI [of _ "Task i # as"] exI [of _ k']) simp
  qed
qed

section \<open>Sampling that has come to a stop\<close>

definition stalled :: "'f kernel \<Rightarrow> bool" where
  "stalled k \<longleftrightarrow> timer (kdev k) = None \<and> cb k = Cb_idle \<and> list_all finished (tasks k)"

lemma other_entry_generated:
  assumes "\<not> config_event ev"
  shows "d_generated (snd (drv_exec K ev d)) \<in> {0, d_generated d}"
proof (cases ev)
  case (Ioctl_call cmd fault arg)
  with assms show ?thesis by (cases cmd) simp_all
next
  case (Read_call nonblock signal fault count)
  then show ?thesis by (simp add: sensorhub_read_def read_copy_def Let_def split: prod.splits)
qed (use assms in \<open>auto simp: sensorhub_open_def sensorhub_release_def sensorhub_write_def
      sensorhub_push_sample_def Let_def split: prod.splits\<close>)

lemma stalled_step:
  assumes "kstep K a k = Some k'" "\<not> is_enter a" "stalled k"
  shows "stalled k' \<and> d_generated (kdev k') \<in> {0, d_generated (kdev k)} \<and> config (kdev k') = config (kdev k)"
proof (cases a)
  case (Task i)
  with assms show ?thesis by (auto simp: stalled_def list_all_length task_step_finished split: if_splits)
next
  case (Entry ev)
  with assms other_entry_generated [of ev K "kdev k"] show ?thesis
    by (auto simp: stalled_def other_entry_settings split: if_splits)
qed (use assms in \<open>auto simp: stalled_def\<close>)

lemma stalled_run:
  assumes "krun K as k = Some k'" "list_all (\<lambda>a. \<not> is_enter a) as" "stalled k"
  shows "stalled k' \<and> d_generated (kdev k') \<in> {0, d_generated (kdev k)} \<and> config (kdev k') = config (kdev k)"
  by (rule krun_invariant [OF assms(1)])
    (use assms(2,3) stalled_step in \<open>fastforce simp: list_all_iff\<close>)+

section \<open>Properties\<close>

text \<open>
  Property C28 (settings under concurrent writers). Any number of ioctl and sysfs writers may run at the same
  time, interleaved with each other, with the timer callback and with all other entries: the interval
  stays between 10 and 60000 milliseconds, the enable flag is 0 or 1, the timer is never queued with a
  period outside that range, and the FIFO holds whole samples only, at most 2048.
\<close>

theorem concurrent_settings_in_range:
  assumes "kfifo_api K bytes ok" and "sensorhub_init K ans m = (None, m')" and "g_sensorhub m' = Some d0"
    and "krun K as (idle_kernel d0) = Some k"
  shows "10 \<le> unat (interval_ms (config (kdev k))) \<and> unat (interval_ms (config (kdev k))) \<le> 60000 \<and>
    enabled (config (kdev k)) \<in> {0, 1} \<and>
    (\<forall>ms. timer (kdev k) = Some ms \<longrightarrow> 10 \<le> unat ms \<and> unat ms \<le> 60000) \<and>
    (\<exists>q. bytes (fifo (kdev k)) = encode_samples q \<and> length q \<le> 2048)"
proof -
  have "settings_ok (config d0) (timer d0)" using init_loaded_inv(1) [OF assms(1-3)] by (simp add: drv_inv_def)
  then have "range_inv (idle_kernel d0)"
    by (auto simp: range_inv_def settings_range_def settings_ok_def idle_kernel_def split: option.splits)
  with assms(4) have "range_inv k" by (rule krun_invariant) (rule kstep_range)
  moreover have "interval_in_range ms \<Longrightarrow> 10 \<le> unat ms \<and> unat ms \<le> 60000" for ms
    by (simp add: interval_in_range_def not_less word_le_nat_alt)
  moreover have "\<exists>q. bytes (fifo (kdev k)) = encode_samples q \<and> length q \<le> 2048"
  proof -
    have "drv_inv K bytes ok (plain d0)" using init_loaded_inv(1) [OF assms(1-3)]
      by (simp add: drv_inv_def plain_def settings_ok_def interval_in_range_def SENSORHUB_DEFAULT_INTERVAL_MS_def)
    then have "drv_inv K bytes ok (plain (kdev k))"
      by (intro krun_invariant [OF assms(4), where P = "\<lambda>k. drv_inv K bytes ok (plain (kdev k))"])
        (auto simp: idle_kernel_def intro: kstep_samples [OF assms(1)])
    from kfifo_api.inv_samples [OF assms(1) this] show ?thesis by auto
  qed
  ultimately show ?thesis by (auto simp: range_inv_def settings_range_def)
qed

theorem concurrent_settings_in_range_witness:
  "\<exists>k. krun ring_ops [Enter (Store (Interval_value (Inr 70) ''70'')), Enter (Store (Interval_value (Inr 5) ''5'')),
      Task 0, Task 1, Expire, Task 0, Task 1, Task 0] (idle_kernel loaded_ring) = Some k \<and>
    10 \<le> unat (interval_ms (config (kdev k)))"
proof -
  obtain k where k: "krun ring_ops [Enter (Store (Interval_value (Inr 70) ''70'')), Enter (Store (Interval_value (Inr 5) ''5'')),
      Task 0, Task 1, Expire, Task 0, Task 1, Task 0] (idle_kernel loaded_ring) = Some k"
    by (simp add: idle_kernel_def loaded_ring_def interval_in_range_def)
  from concurrent_settings_in_range [OF ring.kfifo_api_axioms init_ring g_sensorhub_ring k] k show ?thesis by blast
qed

text \<open>
  Property C27 (one entry at a time is atomic). If no other such entry is active, an entry that copies or
  changes the configuration has the effect of the atomic entry of the driver, however it is interleaved with the
  timer callback and the other entries: when it has returned, its reply and the settings are those of
  the atomic entry, and the timer agrees with them (no timer and no running callback when disabled, a
  queued timer or a running callback when enabled). It can always return.
\<close>

theorem single_writer_atomic:
  assumes "consistent k" and "list_all finished (tasks k)"
    and "list_all (\<lambda>a. \<not> is_enter a) as" and "krun K (Enter e # as) k = Some k1"
  shows "(\<forall>r. last (tasks k1) = Returned r \<longrightarrow>
      r = fst (drv_exec K (event_of e) (kdev k)) \<and>
      config (kdev k1) = config (snd (drv_exec K (event_of e) (kdev k))) \<and> consistent k1) \<and>
    (\<exists>bs k2 r. list_all (\<lambda>a. \<not> is_enter a) bs \<and> krun K (Enter e # as @ bs) k = Some k2 \<and> last (tasks k2) = Returned r)"
proof -
  have inv: "alone_inv (tasks k) e (config (kdev k)) k1" by (rule alone_run [OF assms])
  have "r = fst (drv_exec K (event_of e) (kdev k)) \<and>
      config (kdev k1) = config (snd (drv_exec K (event_of e) (kdev k))) \<and> consistent k1"
    if "last (tasks k1) = Returned r" for r
    using inv that by (auto simp: alone_inv_def planned_refused planned_applies apply_config_applied)
  moreover obtain n k' where k': "krun K (replicate n (Cb 0 0)) k1 = Some k'" "cb k' = Cb_idle" "tasks k' = tasks k1"
    using cb_returns by blast
  obtain cs k2 where k2: "list_all (\<lambda>a. \<not> is_enter a) cs" "krun K cs k' = Some k2" "list_all finished (tasks k2)"
    "length (tasks k2) = length (tasks k')"
    using idle_tasks_return [OF k'(2)] by blast
  have "tasks k2 \<noteq> []" using k2(4) k'(3) inv by (auto simp: alone_inv_def)
  then have "finished (last (tasks k2))" using k2(3) by (simp add: list_all_iff)
  then obtain r where "last (tasks k2) = Returned r" by (cases "last (tasks k2)") auto
  moreover have "krun K (Enter e # as @ replicate n (Cb 0 0) @ cs) k = Some k2"
    using assms(4) k'(1) k2(2) by (auto simp: krun_append split: option.splits)
  ultimately show ?thesis using k2(1) by (auto intro!: exI [of _ "replicate n (Cb 0 0) @ cs"] simp: list_all_iff)
qed

text \<open>Sampling is switched off while the timer callback is running; the callback still stores its sample.\<close>

theorem single_writer_atomic_witness:
  "\<exists>k. krun ring_ops (Enter (Store (Enabled_value (Inr False) ''0'')) #
      [Task 0, Expire, Task 0, Cb 3 9, Task 0, Task 0, Cb 3 9, Cb 3 9, Task 0]) (idle_kernel loaded_ring) = Some k \<and>
    enabled (config (kdev k)) = 0 \<and> timer (kdev k) = None \<and> last (tasks k) = Returned (Ret 1)"
proof -
  let ?as = "[Task 0, Expire, Task 0, Cb 3 9, Task 0, Task 0, Cb 3 9, Cb 3 9, Task 0]"
  let ?e = "Store (Enabled_value (Inr False) ''0'')"
  obtain k where k: "krun ring_ops (Enter ?e # ?as) (idle_kernel loaded_ring) = Some k" "last (tasks k) = Returned (Ret 1)"
    by (simp add: idle_kernel_def loaded_ring_def fresh_device_def)
  have "consistent (idle_kernel loaded_ring)"
    by (simp add: consistent_def idle_kernel_def loaded_ring_def fresh_device_def)
  from single_writer_atomic [OF this _ _ k(1)] k show ?thesis
    by (auto simp: idle_kernel_def enabled_store_def apply_config_applied applied_def consistent_def)
qed

text \<open>
  Property C29 (two writers interfere). \<open>sensorhub_apply_config\<close> is not atomic. If sampling is disabled
  through sysfs while a process enables it by ioctl, both can succeed and leave the device enabled without
  a timer: no sample is generated any more, whatever else happens, until the configuration is written
  again. And a store to \<open>enabled\<close> that is under way can undo a store to \<open>interval_ms\<close>: the interval store returns
  its success, the new interval is in force, and then, without any other entry, the store to \<open>enabled\<close> finishes
  and puts the old interval back.
\<close>

theorem config_writers_interfere:
  fixes buf :: string
  assumes "interval_in_range ms"
  shows "(\<exists>as k. krun K as (idle_kernel d) = Some k \<and>
      entries as = [Store (Enabled_value (Inr False) (''0'' @ [nl])),
        Set_config False (encode_config \<lparr>interval_ms = ms, enabled = 1\<rparr>)] \<and>
      tasks k = [Returned (Ret 2), Returned (Ret 0)] \<and> config (kdev k) = \<lparr>interval_ms = ms, enabled = 1\<rparr> \<and>
      (\<forall>bs k'. entries bs = [] \<longrightarrow> krun K bs k = Some k' \<longrightarrow>
         enabled (config (kdev k')) = 1 \<and> timer (kdev k') = None \<and> d_generated (kdev k') \<in> {0, d_generated (kdev k)})) \<and>
    (\<exists>as k bs k'. krun K as (idle_kernel d) = Some k \<and>
      entries as = [Store (Enabled_value (Inr True) (''1'' @ [nl])), Store (Interval_value (Inr ms) buf)] \<and>
      \<not> finished (tasks k ! 0) \<and> tasks k ! 1 = Returned (Ret (length buf)) \<and> interval_ms (config (kdev k)) = ms \<and>
      krun K bs k = Some k' \<and> entries bs = [] \<and> tasks k' = [Returned (Ret 2), Returned (Ret (length buf))] \<and>
      interval_ms (config (kdev k')) = interval_ms (config d))"
proof -
  let ?set = "Set_config False (encode_config \<lparr>interval_ms = ms, enabled = 1\<rparr>)"
  let ?off = "Store (Enabled_value (Inr False) (''0'' @ [nl]))"
  let ?as = "[Enter ?off, Enter ?set, Task 0, Task 0, Task 0, Task 0, Task 1, Task 1, Task 1, Task 0]"
  obtain k where k: "krun K ?as (idle_kernel d) = Some k" "tasks k = [Returned (Ret 2), Returned (Ret 0)]"
    "config (kdev k) = \<lparr>interval_ms = ms, enabled = 1\<rparr>" "stalled k"
    using assms by (simp add: idle_kernel_def stalled_def)
  have "enabled (config (kdev k')) = 1 \<and> timer (kdev k') = None \<and> d_generated (kdev k') \<in> {0, d_generated (kdev k)}"
    if "entries bs = []" "krun K bs k = Some k'" for bs k'
    using stalled_run [OF that(2) that(1) [folded no_entries] k(4)] k(3) by (simp add: stalled_def)
  with k(1-3) have stall: "krun K ?as (idle_kernel d) = Some k \<and> entries ?as = [?off, ?set] \<and>
      tasks k = [Returned (Ret 2), Returned (Ret 0)] \<and> config (kdev k) = \<lparr>interval_ms = ms, enabled = 1\<rparr> \<and>
      (\<forall>bs k'. entries bs = [] \<longrightarrow> krun K bs k = Some k' \<longrightarrow>
         enabled (config (kdev k')) = 1 \<and> timer (kdev k') = None \<and> d_generated (kdev k') \<in> {0, d_generated (kdev k)})"
    by simp
  let ?bs = "[Enter (Store (Enabled_value (Inr True) (''1'' @ [nl]))), Enter (Store (Interval_value (Inr ms) buf)),
    Task 0, Task 0, Task 1, Task 1, Task 1, Task 1, Task 1]"
  obtain k1 where k1: "krun K ?bs (idle_kernel d) = Some k1"
    "tasks k1 = [Write_interval \<lparr>interval_ms = interval_ms (config d), enabled = 1\<rparr> (Ret 2), Returned (Ret (length buf))]"
    "interval_ms (config (kdev k1)) = ms"
    using assms by (cases "enabled (config d) = 0") (simp_all add: idle_kernel_def)
  obtain k2 where k2: "krun K [Task 0, Task 0, Task 0] k1 = Some k2"
    "tasks k2 = [Returned (Ret 2), Returned (Ret (length buf))]" "interval_ms (config (kdev k2)) = interval_ms (config d)"
    using k1(2) by simp
  show ?thesis
  proof (intro conjI)
    show "\<exists>as k bs k'. krun K as (idle_kernel d) = Some k \<and>
      entries as = [Store (Enabled_value (Inr True) (''1'' @ [nl])), Store (Interval_value (Inr ms) buf)] \<and>
      \<not> finished (tasks k ! 0) \<and> tasks k ! 1 = Returned (Ret (length buf)) \<and> interval_ms (config (kdev k)) = ms \<and>
      krun K bs k = Some k' \<and> entries bs = [] \<and> tasks k' = [Returned (Ret 2), Returned (Ret (length buf))] \<and>
      interval_ms (config (kdev k')) = interval_ms (config d)"
      by (rule exI [of _ ?bs], rule exI [of _ k1], rule exI [of _ "[Task 0, Task 0, Task 0]"], rule exI [of _ k2])
        (use k1 k2 in simp)
  qed (rule exI [of _ ?as], rule exI [of _ k], rule stall)
qed

text \<open>An interval of 100 ms is stored successfully on the freshly loaded device, and 500 ms comes back.\<close>

theorem config_writers_interfere_witness:
  "(\<exists>as k. krun ring_ops as (idle_kernel loaded_ring) = Some k \<and> enabled (config (kdev k)) = 1 \<and> timer (kdev k) = None) \<and>
   (\<exists>as k bs k'. krun ring_ops as (idle_kernel loaded_ring) = Some k \<and> tasks k ! 1 = Returned (Ret 3) \<and>
      interval_ms (config (kdev k)) = 100 \<and> krun ring_ops bs k = Some k' \<and> entries bs = [] \<and>
      interval_ms (config (kdev k')) = 500)"
proof -
  have "interval_in_range 100" by (simp add: interval_in_range_def)
  note both = config_writers_interfere [OF this, of ring_ops loaded_ring "''100''"]
  from both [THEN conjunct1] obtain as k where
    k: "krun ring_ops as (idle_kernel loaded_ring) = Some k"
    "\<forall>bs k'. entries bs = [] \<longrightarrow> krun ring_ops bs k = Some k' \<longrightarrow>
       enabled (config (kdev k')) = 1 \<and> timer (kdev k') = None \<and> d_generated (kdev k') \<in> {0, d_generated (kdev k)}"
    by blast
  have "interval_ms (config loaded_ring) = 500"
    by (simp add: loaded_ring_def fresh_device_def SENSORHUB_DEFAULT_INTERVAL_MS_def)
  moreover have "length ''100'' = 3" by simp
  ultimately have "\<exists>as k bs k'. krun ring_ops as (idle_kernel loaded_ring) = Some k \<and> tasks k ! 1 = Returned (Ret 3) \<and>
      interval_ms (config (kdev k)) = 100 \<and> krun ring_ops bs k = Some k' \<and> entries bs = [] \<and>
      interval_ms (config (kdev k')) = 500"
    using both [THEN conjunct2] by metis
  moreover from k(2) [rule_format, of "[]" k] k(1) have
    "\<exists>as k. krun ring_ops as (idle_kernel loaded_ring) = Some k \<and> enabled (config (kdev k)) = 1 \<and> timer (kdev k) = None" by auto
  ultimately show ?thesis by blast
qed

end
