(* ===== verification/Driver_Wakeup.thy ===== *)
theory Driver_Wakeup
  imports Driver_Concurrency
begin

text \<open>
  Sleeping and waking in the driver. Any number of processes are inside \<open>read\<close>, \<open>write\<close> and \<open>poll\<close> at the
  same time, together with the timer callback and the configuration entries of \<open>Driver_Concurrency\<close>. Each section under
  the device lock is one step, and so are \<open>poll_wait\<close> and \<open>wake_up_interruptible\<close>: \<open>sensorhub_push_sample\<close> wakes the
  wait queue only after it has released the lock, so that readers, polls and other producers may run between the
  two.

  The theory shows that no wake-up is lost, where the samples go, and when a reader can come away with nothing.
\<close>

section \<open>Callers\<close>

text \<open>
  Program points of a system call. \<open>Read_wait\<close> is inside \<open>wait_event_interruptible\<close>, on the wait queue: the flag
  says that the condition is to be tested (at first, and after each wake-up). \<open>Poll_waiting\<close> has registered with
  \<open>poll_wait\<close> for the events it asks for: the flag says that the mask is to be computed.
\<close>

datatype caller =
    Read_entry bool nat
  | Read_wait nat bool
  | Read_out nat
  | Write_entry bool u64 "byte list"
  | Write_wake
  | Poll_entry u32
  | Poll_waiting u32 bool
  | Poll_ready u32
  | Call_returned reply

fun at_entry :: "caller \<Rightarrow> bool" where
  "at_entry (Read_entry nonblock count) = True"
| "at_entry (Write_entry fault now buf) = True"
| "at_entry (Poll_entry events) = True"
| "at_entry c = False"

text \<open>\<open>wake_up_interruptible\<close>: the waiters of the queue are not exclusive, so that all of them are woken.\<close>

fun wake_up :: "caller \<Rightarrow> caller" where
  "wake_up (Read_wait count due) = Read_wait count True"
| "wake_up (Poll_waiting events due) = Poll_waiting events True"
| "wake_up c = c"

text \<open>The part of \<open>sensorhub_push_sample\<close> under the lock.\<close>

definition push_locked :: "'f kfifo_ops \<Rightarrow> sensorhub_sample \<Rightarrow> bool \<Rightarrow> 'f sensorhub_device \<Rightarrow> 'f sensorhub_device" where
  "push_locked K s by_user d = (sensorhub_push_sample K s by_user d)\<lparr>wake_ups := wake_ups d\<rparr>"

text \<open>One step of a call; \<open>None\<close> if it is asleep or has returned. \<open>signal\<close>: a signal is pending for the process.\<close>

fun call_step :: "'f kfifo_ops \<Rightarrow> bool \<Rightarrow> bool \<Rightarrow> caller \<Rightarrow> 'f sensorhub_device \<Rightarrow> (caller \<times> 'f sensorhub_device) option" where
  "call_step K fault signal (Read_entry nonblock count) d =
     Some (if count < sample_size then Call_returned (Err EINVAL)
           else if sensorhub_has_data K d then Read_out count
           else if nonblock then Call_returned (Err EAGAIN)
           else Read_wait count True, d)"
| "call_step K fault signal (Read_wait count due) d =
     (if \<not> due \<and> \<not> signal then None
      else Some (if sensorhub_has_data K d then Read_out count
                 else if signal then Call_returned (Err ERESTARTSYS)
                 else Read_wait count False, d))"
| "call_step K fault signal (Read_out count) d =
     (case read_copy K fault count d of (r, d1) \<Rightarrow> Some (Call_returned r, d1))"
| "call_step K fault signal (Write_entry bad now buf) d =
     Some (if length buf \<noteq> sample_size then (Call_returned (Err EINVAL), d)
           else if bad then (Call_returned (Err EFAULT), d)
           else (Write_wake,
                 push_locked K ((decode_sample buf)\<lparr>timestamp_ns := now, stype := SENSORHUB_SAMPLE_USER\<rparr>) True d))"
| "call_step K fault signal Write_wake d =
     Some (Call_returned (Ret sample_size), d\<lparr>wake_ups := wake_ups d + 1\<rparr>)"
| "call_step K fault signal (Poll_entry events) d = Some (Poll_waiting events True, d)"
| "call_step K fault signal (Poll_waiting events due) d =
     (if \<not> due \<and> \<not> signal then None
      else Some (let mask = sensorhub_poll K d AND events
                 in if mask \<noteq> 0 then Poll_ready mask
                    else if signal then Call_returned (Err EINTR)
                    else Poll_waiting events False, d))"
| "call_step K fault signal (Poll_ready ready) d = None"
| "call_step K fault signal (Call_returned r) d = None"

section \<open>The kernel side with its callers\<close>

text \<open>\<open>cb_waking\<close>: the timer callback has pushed its sample and not yet woken the queue.\<close>

record 'f kernel_side =
  kern :: "'f kernel"
  callers :: "caller list"
  cb_waking :: bool

datatype wait_action = Call caller | Step nat bool bool | Callback u32 u64 | Kernel kernel_action

text \<open>What \<open>Callback\<close> and the callers do in finer steps.\<close>

fun refined :: "kernel_action \<Rightarrow> bool" where
  "refined (Cb r now) = True"
| "refined (Entry (Read_call nonblock signal fault count)) = True"
| "refined (Entry Poll_call) = True"
| "refined (Entry (Write_call fault now buf)) = True"
| "refined a = False"

fun wstep :: "'f kfifo_ops \<Rightarrow> wait_action \<Rightarrow> 'f kernel_side \<Rightarrow> 'f kernel_side option" where
  "wstep K (Call c) w = (if at_entry c then Some (w\<lparr>callers := callers w @ [c]\<rparr>) else None)"
| "wstep K (Step i fault signal) w =
     (if i < length (callers w)
      then map_option (\<lambda>(c, d). w\<lparr>kern := (kern w)\<lparr>kdev := d\<rparr>,
             callers := (let cs = (callers w)[i := c] in if callers w ! i = Write_wake then map wake_up cs else cs)\<rparr>)
           (call_step K fault signal (callers w ! i) (kdev (kern w)))
      else None)"
| "wstep K (Callback r now) w =
     (if cb_waking w
      then Some (w\<lparr>kern := (kern w)\<lparr>kdev := (kdev (kern w))\<lparr>wake_ups := wake_ups (kdev (kern w)) + 1\<rparr>\<rparr>,
                   callers := map wake_up (callers w), cb_waking := False\<rparr>)
      else if cb (kern w) = Cb_sample
      then Some (w\<lparr>kern := (kern w)\<lparr>kdev := push_locked K (timer_sample r now) False (kdev (kern w)), cb := Cb_forward\<rparr>,
                   cb_waking := True\<rparr>)
      else map_option (\<lambda>k. w\<lparr>kern := k\<rparr>) (kstep K (Cb r now) (kern w)))"
| "wstep K (Kernel a) w = (if refined a then None else map_option (\<lambda>k. w\<lparr>kern := k\<rparr>) (kstep K a (kern w)))"

fun wrun :: "'f kfifo_ops \<Rightarrow> wait_action list \<Rightarrow> 'f kernel_side \<Rightarrow> 'f kernel_side option" where
  "wrun K [] w = Some w"
| "wrun K (a # as) w = (case wstep K a w of None \<Rightarrow> None | Some w1 \<Rightarrow> wrun K as w1)"

lemma wrun_append: "wrun K (as @ bs) w = (case wrun K as w of None \<Rightarrow> None | Some w1 \<Rightarrow> wrun K bs w1)"
  by (induction as arbitrary: w) (auto split: option.splits)

definition idle_side :: "'f sensorhub_device \<Rightarrow> 'f kernel_side" where
  "idle_side d = \<lparr>kern = idle_kernel d, callers = [], cb_waking = False\<rparr>"

abbreviation wqueue :: "('f \<Rightarrow> byte list) \<Rightarrow> 'f kernel_side \<Rightarrow> sensorhub_sample list" where
  "wqueue bytes w \<equiv> queued bytes (kdev (kern w))"

text \<open>The wake-ups that are under way: the sample is in the queue, the wait queue not yet woken.\<close>

definition wakers :: "'f kernel_side \<Rightarrow> wait_action list" where
  "wakers w = (if cb_waking w then [Callback 0 0] else []) @
     map (\<lambda>i. Step i False False) (filter (\<lambda>i. callers w ! i = Write_wake) [0..<length (callers w)])"

section \<open>Effects on the queue\<close>

lemma wake_ups_irrelevant [simp]:
  "queued bytes (d\<lparr>wake_ups := n\<rparr>) = queued bytes d" "plain (d\<lparr>wake_ups := n\<rparr>) = (plain d)\<lparr>wake_ups := n\<rparr>"
  "drv_inv K bytes ok (d\<lparr>wake_ups := n\<rparr>) = drv_inv K bytes ok d"
  by (simp_all add: queued_def plain_def drv_inv_def)

lemma queued_plain [simp]: "queued bytes (plain d) = queued bytes d" "sensorhub_has_data K (plain d) = sensorhub_has_data K d"
  by (simp_all add: queued_def sensorhub_has_data_def)

lemma push_locked_wake_ups [simp]: "wake_ups (push_locked K s b d) = wake_ups d"
  by (simp add: push_locked_def)

lemma plain_push_locked: "plain (push_locked K s b d) = push_locked K s b (plain d)"
  by (simp add: push_locked_def plain_push) (simp add: plain_def)

lemma plain_read_copy:
  "fst (read_copy K fault count d) = fst (read_copy K fault count (plain d))"
  "plain (snd (read_copy K fault count d)) = snd (read_copy K fault count (plain d))"
  by (simp_all add: plain_def read_copy_def Let_def split: prod.splits)

lemma kernel_queue:
  assumes "kstep K a k = Some k'" "\<not> refined a \<or> (\<exists>r now. a = Cb r now) \<and> cb k \<noteq> Cb_sample"
  shows "fifo (kdev k') = fifo (kdev k) \<or> fifo (kdev k') = kfifo_reset K (fifo (kdev k))"
proof (cases a)
  case (Task i)
  with assms(1) show ?thesis by (auto dest!: plain_task_step arg_cong [where f = fifo] split: if_splits)
next
  case (Cb r now)
  with assms show ?thesis by (cases "cb k") auto
next
  case (Entry ev)
  with assms show ?thesis
  proof (cases ev)
    case (Ioctl_call cmd fault arg)
    with assms Entry show ?thesis by (cases cmd) (auto split: if_splits)
  qed (auto simp: sensorhub_open_def sensorhub_release_def)
qed (use assms in \<open>auto split: if_splits\<close>)

lemma reset_queue:
  assumes "kfifo_api K bytes ok" "drv_inv K bytes ok (plain d)" "fifo d' = kfifo_reset K (fifo d)"
  shows "queued bytes d' = []"
proof -
  have "ok (fifo d)" using assms(2) by (simp add: drv_inv_def)
  with kfifo_api.reset [OF assms(1), of "fifo d"] assms(3) show ?thesis by (simp add: queued_def)
qed

section \<open>No wake-up is lost\<close>

text \<open>A waiter that will look at the queue again, or does not ask for data.\<close>

fun alert :: "caller \<Rightarrow> bool" where
  "alert (Read_wait count due) = due"
| "alert (Poll_waiting events due) = (due \<or> events AND (EPOLLIN OR EPOLLRDNORM) = 0)"
| "alert c = True"

fun sized :: "caller \<Rightarrow> bool" where
  "sized (Read_wait count due) = (sample_size \<le> count)"
| "sized (Read_out count) = (sample_size \<le> count)"
| "sized c = True"

definition waking :: "'f kernel_side \<Rightarrow> bool" where
  "waking w \<longleftrightarrow> cb_waking w \<or> Write_wake \<in> set (callers w)"

definition wait_inv :: "'f kfifo_ops \<Rightarrow> ('f \<Rightarrow> byte list) \<Rightarrow> ('f \<Rightarrow> bool) \<Rightarrow> 'f kernel_side \<Rightarrow> bool" where
  "wait_inv K bytes ok w \<longleftrightarrow> drv_inv K bytes ok (plain (kdev (kern w))) \<and>
     (wqueue bytes w \<noteq> [] \<longrightarrow> waking w \<or> list_all alert (callers w)) \<and> list_all sized (callers w)"

lemma wake_up_alert [simp]: "alert (wake_up c)" "sized (wake_up c) = sized c" "wake_up c = Write_wake \<longleftrightarrow> c = Write_wake"
  by (cases c; simp)+

lemma at_entry_alert: "at_entry c \<Longrightarrow> alert c \<and> sized c \<and> c \<noteq> Write_wake"
  by (cases c) auto

lemma list_all_update: "list_all P xs \<Longrightarrow> P x \<Longrightarrow> list_all P (xs[i := x])"
  by (auto simp: list_all_iff dest!: set_update_subset_insert [THEN subsetD])

lemma poll_data: "sensorhub_has_data K d \<Longrightarrow> sensorhub_poll K d AND events = 0 \<Longrightarrow> events AND (EPOLLIN OR EPOLLRDNORM) = 0"
  by (auto simp: sensorhub_poll_def Let_def bit_eq_iff bit_simps)

context kfifo_api
begin

lemma push_locked_inv: "drv_inv K bytes ok (plain d) \<Longrightarrow> drv_inv K bytes ok (plain (push_locked K s b d))"
  using push_refines(2) [of "plain d" s b] by (simp add: plain_push_locked) (simp add: push_locked_def)

lemma data_queued: "drv_inv K bytes ok (plain d) \<Longrightarrow> sensorhub_has_data K d \<longleftrightarrow> queued bytes d \<noteq> []"
  using has_data_iff [OF kfifo_api_axioms, of "plain d"] by simp

lemma read_out:
  assumes "drv_inv K bytes ok (plain d)"
  shows "fst (read_copy K fault count d) = (if fault \<and> take (spec_batch count) (queued bytes d) \<noteq> [] then Err EFAULT
      else Data (encode_samples (take (spec_batch count) (queued bytes d))))"
    and "queued bytes (snd (read_copy K fault count d)) = drop (spec_batch count) (queued bytes d)"
    and "drv_inv K bytes ok (plain (snd (read_copy K fault count d)))"
proof -
  note r = read_refines [OF assms, of fault count]
  show "fst (read_copy K fault count d) = (if fault \<and> take (spec_batch count) (queued bytes d) \<noteq> [] then Err EFAULT
      else Data (encode_samples (take (spec_batch count) (queued bytes d))))"
    using r(1) plain_read_copy(1) [of K fault count d] by (simp add: spec_read_def Let_def abs_device_def)
  show "queued bytes (snd (read_copy K fault count d)) = drop (spec_batch count) (queued bytes d)"
    using arg_cong [OF r(2), of fifo] arg_cong [OF plain_read_copy(2) [of K fault count d], of "queued bytes"]
    by (simp add: spec_read_def Let_def abs_device_def)
  show "drv_inv K bytes ok (plain (snd (read_copy K fault count d)))"
    using r(3) by (simp add: plain_read_copy(2))
qed

lemma call_step_inv:
  assumes "drv_inv K bytes ok (plain d)" "call_step K fault signal c d = Some (c', d')" "sized c"
  shows "drv_inv K bytes ok (plain d') \<and> sized c' \<and>
    (queued bytes d' \<noteq> [] \<longrightarrow> c' = Write_wake \<or> queued bytes d \<noteq> [] \<and> alert c')"
proof (cases c)
  case (Read_out count)
  with assms read_out [OF assms(1), of fault count] show ?thesis by (auto split: prod.splits)
next
  case (Write_entry bad now buf)
  with assms push_locked_inv [OF assms(1)] show ?thesis by (auto split: if_splits)
next
  case (Poll_waiting events due)
  with assms data_queued [OF assms(1)] poll_data [of K d events] show ?thesis
    by (auto simp: Let_def split: if_splits)
qed (use assms data_queued [OF assms(1)] in \<open>auto split: if_splits\<close>)

lemma kernel_inv:
  assumes "wait_inv K bytes ok w" "kstep K a (kern w) = Some k'"
    "\<not> refined a \<or> (\<exists>r now. a = Cb r now) \<and> cb (kern w) \<noteq> Cb_sample"
  shows "wait_inv K bytes ok (w\<lparr>kern := k'\<rparr>)"
proof -
  have inv: "drv_inv K bytes ok (plain (kdev (kern w)))" using assms(1) by (simp add: wait_inv_def)
  have "queued bytes (kdev k') \<noteq> [] \<Longrightarrow> queued bytes (kdev k') = wqueue bytes w"
    using kernel_queue [OF assms(2,3)] reset_queue [OF kfifo_api_axioms inv] by (auto simp: queued_def)
  with assms(1) kstep_samples [OF kfifo_api_axioms assms(2) inv] show ?thesis by (auto simp: wait_inv_def waking_def)
qed

lemma caller_inv:
  assumes "wait_inv K bytes ok w" "i < length (callers w)"
    and "call_step K fault signal (callers w ! i) (kdev (kern w)) = Some (c, d)"
  shows "drv_inv K bytes ok (plain d) \<and> list_all sized ((callers w)[i := c]) \<and>
    (queued bytes d \<noteq> [] \<longrightarrow> callers w ! i \<noteq> Write_wake \<longrightarrow>
       cb_waking w \<or> Write_wake \<in> set ((callers w)[i := c]) \<or> list_all alert ((callers w)[i := c]))"
proof -
  let ?cs = "(callers w)[i := c]"
  have inv: "drv_inv K bytes ok (plain (kdev (kern w)))" and sized: "sized (callers w ! i)"
    using assms(1,2) by (simp_all add: wait_inv_def list_all_length)
  note n = call_step_inv [OF inv assms(3) sized]
  have "cb_waking w \<or> Write_wake \<in> set ?cs \<or> list_all alert ?cs"
    if q: "queued bytes d \<noteq> []" and i: "callers w ! i \<noteq> Write_wake"
  proof (cases "c = Write_wake")
    case True
    then show ?thesis using assms(2) by (simp add: set_update_memI)
  next
    case False
    with n q have "wqueue bytes w \<noteq> []" and c: "alert c" by auto
    with assms(1) have "waking w \<or> list_all alert (callers w)" by (simp add: wait_inv_def)
    moreover have "Write_wake \<in> set ?cs" if "Write_wake \<in> set (callers w)"
      using that i by (metis in_set_conv_nth length_list_update nth_list_update_neq)
    ultimately show ?thesis using c by (auto simp: waking_def list_all_update)
  qed
  with n assms(1) show ?thesis by (auto simp: wait_inv_def list_all_update)
qed

lemma wstep_inv:
  assumes "wstep K a w = Some w'" "wait_inv K bytes ok w"
  shows "wait_inv K bytes ok w'"
proof (cases a)
  case (Call c)
  with assms at_entry_alert [of c] show ?thesis by (auto simp: wait_inv_def waking_def split: if_splits)
next
  case (Step i fault signal)
  then obtain c d where i: "i < length (callers w)"
    and c: "call_step K fault signal (callers w ! i) (kdev (kern w)) = Some (c, d)"
    and w': "w' = w\<lparr>kern := (kern w)\<lparr>kdev := d\<rparr>,
      callers := (let cs = (callers w)[i := c] in if callers w ! i = Write_wake then map wake_up cs else cs)\<rparr>"
    using assms(1) by (auto split: if_splits)
  from caller_inv [OF assms(2) i c] show ?thesis
    by (auto simp: w' wait_inv_def waking_def Let_def list.pred_map o_def list_all_iff)
next
  case (Callback r now)
  show ?thesis
  proof (cases "cb_waking w \<or> cb (kern w) = Cb_sample")
    case True
    with Callback assms push_locked_inv [of "kdev (kern w)"] show ?thesis
      by (auto simp: wait_inv_def waking_def list.pred_map o_def list_all_iff split: if_splits)
  next
    case False
    with Callback assms kernel_inv [OF assms(2), of "Cb r now"] show ?thesis by auto
  qed
next
  case (Kernel ka)
  with assms kernel_inv [OF assms(2), of ka] show ?thesis by (auto split: if_splits)
qed

lemma wrun_inv: "wrun K as w = Some w' \<Longrightarrow> wait_inv K bytes ok w \<Longrightarrow> wait_inv K bytes ok w'"
  by (induction as arbitrary: w) (auto split: option.splits dest: wstep_inv)

end

section \<open>Wake-ups under way are completed\<close>

lemma length_wakers:
  "length (wakers w) = (if cb_waking w then 1 else 0) + length (filter (\<lambda>c. c = Write_wake) (callers w))"
proof -
  have "filter (\<lambda>c. c = Write_wake) (callers w) = filter (\<lambda>c. c = Write_wake) (map (nth (callers w)) [0..<length (callers w)])"
    by (simp add: map_nth)
  then show ?thesis by (simp add: wakers_def filter_map o_def)
qed

lemma wakers_Nil: "wakers w = [] \<longleftrightarrow> \<not> waking w"
proof -
  have "wakers w = [] \<longleftrightarrow> length (wakers w) = 0" by simp
  then show ?thesis unfolding length_wakers by (auto simp: waking_def filter_empty_conv)
qed

lemma length_filter_update:
  assumes "i < length xs" "P (xs ! i)" "\<not> P x"
  shows "length (filter P (xs[i := x])) < length (filter P xs)"
proof -
  have "filter P xs = filter P (take i xs @ xs ! i # drop (Suc i) xs)" using id_take_nth_drop [OF assms(1)] by simp
  then show ?thesis using assms by (simp add: upd_conv_take_nth_drop)
qed

lemma filter_wake_up: "length (filter (\<lambda>c. c = Write_wake) (map wake_up cs)) = length (filter (\<lambda>c. c = Write_wake) cs)"
  by (simp add: filter_map o_def)

lemma waker_step:
  assumes "a \<in> set (wakers w)"
  shows "\<exists>w'. wstep K a w = Some w' \<and> wqueue bytes w' = wqueue bytes w \<and> length (wakers w') < length (wakers w) \<and>
    list_all alert (callers w')"
proof -
  consider "a = Callback 0 0" "cb_waking w"
    | i where "a = Step i False False" "i < length (callers w)" "callers w ! i = Write_wake"
    using assms by (auto simp: wakers_def split: if_splits)
  then show ?thesis
  proof cases
    case 1
    then show ?thesis by (simp add: length_wakers filter_wake_up list.pred_map o_def list_all_iff)
  next
    case 2
    with length_filter_update [of i "callers w" "\<lambda>c. c = Write_wake" "Call_returned (Ret sample_size)"]
    show ?thesis by (simp add: length_wakers filter_wake_up Let_def list.pred_map o_def list_all_iff)
  qed
qed

text \<open>A woken waiter finds what is queued.\<close>

lemma call_step_other: "i < length (callers w) \<Longrightarrow> callers w ! i \<noteq> Write_wake \<Longrightarrow>
  wstep K (Step i fault signal) w = map_option (\<lambda>(c, d). w\<lparr>kern := (kern w)\<lparr>kdev := d\<rparr>, callers := (callers w)[i := c]\<rparr>)
    (call_step K fault signal (callers w ! i) (kdev (kern w)))"
  by (simp add: Let_def)

lemma idle_side_inv:
  assumes "kfifo_api K bytes ok" "sensorhub_init K ans m = (None, m')" "g_sensorhub m' = Some d0"
  shows "wait_inv K bytes ok (idle_side d0)"
  using init_loaded_inv(1) [OF assms]
  by (simp add: wait_inv_def idle_side_def idle_kernel_def drv_inv_def plain_def settings_ok_def
      interval_in_range_def SENSORHUB_DEFAULT_INTERVAL_MS_def waking_def)

lemma reader_finishes:
  assumes "kfifo_api K bytes ok" "wait_inv K bytes ok w" "i < length (callers w)" "callers w ! i = Read_wait count due"
    "due \<or> signal" "wqueue bytes w \<noteq> []"
  shows "\<exists>w'. wrun K [Step i fault signal, Step i False signal'] w = Some w' \<and>
    callers w' ! i = Call_returned (Data (encode_samples (take (spec_batch count) (wqueue bytes w)))) \<and>
    wqueue bytes w' = drop (spec_batch count) (wqueue bytes w) \<and> 0 < spec_batch count"
proof -
  let ?d = "kdev (kern w)"
  have inv: "drv_inv K bytes ok (plain ?d)" and "sample_size \<le> count"
    using assms(2-4) by (auto simp: wait_inv_def list_all_length)
  then have batch: "0 < spec_batch count" by (simp add: spec_batch_def div_greater_zero_iff)
  have data: "sensorhub_has_data K ?d" using kfifo_api.data_queued [OF assms(1) inv] assms(6) by simp
  obtain r d where rd: "read_copy K False count ?d = (r, d)" by fastforce
  with kfifo_api.read_out(1,2) [OF assms(1) inv, of False count] assms(3-5) data batch show ?thesis
    by (simp add: call_step_other)
qed

lemma poll_reports:
  assumes "kfifo_api K bytes ok" "wait_inv K bytes ok w" "i < length (callers w)" "callers w ! i = Poll_waiting events due"
    "due \<or> signal" "wqueue bytes w \<noteq> []" "events AND EPOLLIN \<noteq> 0"
  shows "\<exists>w' ready. wstep K (Step i fault signal) w = Some w' \<and> callers w' ! i = Poll_ready ready \<and>
    ready AND EPOLLIN \<noteq> 0 \<and> wqueue bytes w' = wqueue bytes w"
proof -
  let ?d = "kdev (kern w)" and ?mask = "sensorhub_poll K (kdev (kern w)) AND events"
  have "drv_inv K bytes ok (plain ?d)" using assms(2) by (simp add: wait_inv_def)
  then have "sensorhub_has_data K ?d" using kfifo_api.data_queued [OF assms(1)] assms(6) by simp
  then have mask: "?mask AND EPOLLIN = events AND EPOLLIN"
    by (auto simp: sensorhub_poll_def Let_def bit_eq_iff bit_simps)
  with assms(7) have "?mask \<noteq> 0" by auto
  with assms(3-5,7) mask show ?thesis by (simp add: call_step_other Let_def)
qed

section \<open>Samples under concurrency\<close>

text \<open>What a step hands to a reader, and what a run hands out, in the order of the copies.\<close>

fun given :: "caller \<Rightarrow> caller \<Rightarrow> byte list" where
  "given (Read_out count) (Call_returned (Data bs)) = bs"
| "given c c1 = []"

fun step_data :: "wait_action \<Rightarrow> 'f kernel_side \<Rightarrow> 'f kernel_side \<Rightarrow> byte list" where
  "step_data (Step i fault signal) w w1 = given (callers w ! i) (callers w1 ! i)"
| "step_data a w w1 = []"

fun handed_out :: "'f kfifo_ops \<Rightarrow> wait_action list \<Rightarrow> 'f kernel_side \<Rightarrow> byte list" where
  "handed_out K [] w = []"
| "handed_out K (a # as) w = (case wstep K a w of None \<Rightarrow> [] | Some w1 \<Rightarrow> step_data a w w1 @ handed_out K as w1)"

text \<open>
  What a step takes out of the FIFO for a reader: the bytes that the copy moves to the local buffer, and whether they
  then reach the reader. A copy to an inaccessible buffer has left the FIFO and is counted as read when
  \<open>copy_to_user\<close> fails.
\<close>

fun copied :: "'f kfifo_ops \<Rightarrow> bool \<Rightarrow> caller \<Rightarrow> 'f sensorhub_device \<Rightarrow> (byte list \<times> bool) list" where
  "copied K fault (Read_out count) d =
     [(fst (kfifo_out K (min (count - count mod sample_size) (64 * sample_size)) (fifo d)), \<not> fault)]"
| "copied K fault c d = []"

fun step_copies :: "'f kfifo_ops \<Rightarrow> wait_action \<Rightarrow> 'f kernel_side \<Rightarrow> (byte list \<times> bool) list" where
  "step_copies K (Step i fault signal) w = copied K fault (callers w ! i) (kdev (kern w))"
| "step_copies K a w = []"

fun copies :: "'f kfifo_ops \<Rightarrow> wait_action list \<Rightarrow> 'f kernel_side \<Rightarrow> (byte list \<times> bool) list" where
  "copies K [] w = []"
| "copies K (a # as) w = (case wstep K a w of None \<Rightarrow> [] | Some w1 \<Rightarrow> step_copies K a w @ copies K as w1)"

lemma copies_append:
  "wrun K as w = Some w1 \<Longrightarrow> copies K (as @ bs) w = copies K as w @ copies K bs w1"
  by (induction as arbitrary: w) (auto split: option.splits)

abbreviation all_bytes :: "(byte list \<times> bool) list \<Rightarrow> byte list" where
  "all_bytes cs \<equiv> concat (map fst cs)"

text \<open>Actions other than \<open>SENSORHUB_IOC_RESET\<close>, which empties the FIFO and clears the counters.\<close>

fun no_reset :: "wait_action \<Rightarrow> bool" where
  "no_reset (Kernel (Entry (Ioctl_call cmd fault arg))) = (cmd \<noteq> SENSORHUB_IOC_RESET)"
| "no_reset a = True"

definition same_data :: "'f sensorhub_device \<Rightarrow> 'f sensorhub_device \<Rightarrow> bool" where
  "same_data d d' \<longleftrightarrow> fifo d' = fifo d \<and> d_generated d' = d_generated d \<and> d_injected d' = d_injected d \<and>
     d_dropped d' = d_dropped d \<and> d_read_bytes d' = d_read_bytes d \<and> next_seq d' = next_seq d"

lemma same_data_refl [simp]: "same_data d d" "same_data d (d\<lparr>wake_ups := n\<rparr>)"
  by (simp_all add: same_data_def)

lemma same_data_plain: "plain d' = plain d \<Longrightarrow> same_data d d'"
  unfolding plain_def by (cases d, cases d') (simp add: same_data_def)

lemma kernel_same_data:
  assumes "kstep K a k = Some k'" "\<not> refined a \<or> (\<exists>r now. a = Cb r now) \<and> cb k \<noteq> Cb_sample"
    and "no_reset (Kernel a)"
  shows "same_data (kdev k) (kdev k')"
proof (cases a)
  case (Task i)
  with assms(1) show ?thesis by (auto dest!: plain_task_step intro: same_data_plain split: if_splits)
next
  case (Cb r now)
  with assms show ?thesis by (cases "cb k") (auto simp: same_data_def)
next
  case (Entry ev)
  with assms show ?thesis
  proof (cases ev)
    case (Ioctl_call cmd fault arg)
    with assms Entry show ?thesis by (cases cmd) (auto split: if_splits)
  qed (auto simp: sensorhub_open_def sensorhub_release_def same_data_def)
qed (use assms in \<open>auto simp: same_data_def split: if_splits\<close>)

text \<open>\<open>progress\<close> of the specification, without the settings.\<close>

definition flow :: "('f \<Rightarrow> byte list) \<Rightarrow> byte list \<Rightarrow> sensorhub_sample list \<Rightarrow> nat \<Rightarrow> 'f sensorhub_device \<Rightarrow> 'f sensorhub_device \<Rightarrow> bool" where
  "flow bytes out acc n d d' \<longleftrightarrow> progress out acc n (abs_device bytes (plain d)) (abs_device bytes (plain d'))"

lemma flow_same:
  assumes "same_data d d'"
  shows "\<exists>acc n. flow bytes [] acc n d d'"
proof -
  have "flow bytes [] [] 0 d d'"
    using assms by (simp add: flow_def progress_def same_data_def abs_device_def queued_def plain_def)
  then show ?thesis by blast
qed

context kfifo_api
begin

lemma push_flow:
  assumes "drv_inv K bytes ok (plain d)"
  shows "\<exists>acc n. flow bytes [] acc n d (push_locked K s b d)"
proof -
  obtain acc where "progress [] acc 1 (abs_device bytes (plain d)) (spec_push s b (abs_device bytes (plain d)))"
    using spec_push_progress by blast
  then have "flow bytes [] acc 1 d (push_locked K s b d)"
    using push_refines(1) [OF assms, of s b]
    by (simp add: flow_def plain_push_locked) (simp add: push_locked_def progress_def abs_device_def)
  then show ?thesis by blast
qed

lemma copied_bytes:
  assumes "drv_inv K bytes ok (plain d)"
  shows "copied K fault (Read_out count) d = [(encode_samples (take (spec_batch count) (queued bytes d)), \<not> fault)]"
proof -
  have "fst (read_copy K False count d) = Data (all_bytes (copied K False (Read_out count) d))"
    by (simp add: read_copy_def Let_def split: prod.splits)
  with read_out(1) [OF assms, of False count] show ?thesis by simp
qed

lemma read_flow:
  assumes "drv_inv K bytes ok (plain d)"
  shows "\<exists>acc n. flow bytes (encode_samples (take (spec_batch count) (queued bytes d))) acc n d (snd (read_copy K fault count d))"
proof -
  have "flow bytes (encode_samples (take (spec_batch count) (queued bytes d))) [] 0 d (snd (read_copy K fault count d))"
    using read_progress [of count "abs_device bytes (plain d)" fault] read_refines(2) [OF assms, of fault count]
    by (simp add: flow_def plain_read_copy(2)) (simp add: abs_device_def)
  then show ?thesis by blast
qed

lemma call_flow:
  assumes "drv_inv K bytes ok (plain d)" "call_step K fault signal c d = Some (c', d')"
  shows "\<exists>acc n. flow bytes (all_bytes (copied K fault c d)) acc n d d'"
    and "given c c' = all_bytes (filter snd (copied K fault c d))"
proof -
  have "(\<exists>acc n. flow bytes (all_bytes (copied K fault c d)) acc n d d') \<and>
      given c c' = all_bytes (filter snd (copied K fault c d))"
  proof (cases c)
    case (Read_out count)
    with assms(2) have c': "c' = Call_returned (fst (read_copy K fault count d))" and d': "d' = snd (read_copy K fault count d)"
      by (auto split: prod.splits)
    have "given c c' = all_bytes (filter snd (copied K fault c d))"
      unfolding Read_out c' copied_bytes [OF assms(1)] read_out(1) [OF assms(1)] by simp
    with read_flow [OF assms(1), of count fault] show ?thesis unfolding Read_out copied_bytes [OF assms(1)] d' by simp
  next
    case (Write_entry bad now buf)
    with assms(2) push_flow [OF assms(1)] flow_same [OF same_data_refl(1), of bytes d] show ?thesis by (auto split: if_splits)
  qed (use assms(2) flow_same [of d d' bytes] in \<open>auto split: if_splits\<close>)
  then show "\<exists>acc n. flow bytes (all_bytes (copied K fault c d)) acc n d d'"
    and "given c c' = all_bytes (filter snd (copied K fault c d))" by blast+
qed

lemma wstep_flow:
  assumes "wait_inv K bytes ok w" "wstep K a w = Some w'" "no_reset a"
  shows "\<exists>acc n. flow bytes (all_bytes (step_copies K a w)) acc n (kdev (kern w)) (kdev (kern w'))"
    and "step_data a w w' = all_bytes (filter snd (step_copies K a w))"
proof -
  have inv: "drv_inv K bytes ok (plain (kdev (kern w)))" using assms(1) by (simp add: wait_inv_def)
  have "(\<exists>acc n. flow bytes (all_bytes (step_copies K a w)) acc n (kdev (kern w)) (kdev (kern w'))) \<and>
      step_data a w w' = all_bytes (filter snd (step_copies K a w))"
  proof (cases a)
    case (Call c)
    with assms(2) have "kdev (kern w') = kdev (kern w)" by (auto split: if_splits)
    with Call flow_same [OF same_data_refl(1), of bytes "kdev (kern w)"] show ?thesis by simp
  next
    case (Step i fault signal)
    then obtain c d where i: "i < length (callers w)"
      and c: "call_step K fault signal (callers w ! i) (kdev (kern w)) = Some (c, d)"
      and w': "w' = w\<lparr>kern := (kern w)\<lparr>kdev := d\<rparr>,
        callers := (let cs = (callers w)[i := c] in if callers w ! i = Write_wake then map wake_up cs else cs)\<rparr>"
      using assms(2) by (auto split: if_splits)
    have "step_data a w w' = given (callers w ! i) c" using i by (simp add: w' Step Let_def)
    with call_flow [OF inv c] show ?thesis by (simp add: w' Step)
  next
    case (Callback r now)
    with assms(2) push_flow [OF inv] flow_same [OF kernel_same_data [of K "Cb r now" "kern w"], of _ bytes]
      flow_same [OF same_data_refl(2), of bytes] show ?thesis by (auto split: if_splits)
  next
    case (Kernel ka)
    with assms(2,3) flow_same [OF kernel_same_data [of K ka "kern w"], of _ bytes] show ?thesis by (auto split: if_splits)
  qed
  then show "\<exists>acc n. flow bytes (all_bytes (step_copies K a w)) acc n (kdev (kern w)) (kdev (kern w'))"
    and "step_data a w w' = all_bytes (filter snd (step_copies K a w))" by blast+
qed

lemma wrun_flow:
  "wait_inv K bytes ok w \<Longrightarrow> wrun K as w = Some w' \<Longrightarrow> list_all no_reset as \<Longrightarrow>
     (\<exists>acc n. flow bytes (all_bytes (copies K as w)) acc n (kdev (kern w)) (kdev (kern w'))) \<and>
     handed_out K as w = all_bytes (filter snd (copies K as w))"
proof (induction as arbitrary: w)
  case Nil
  then show ?case using flow_same [of "kdev (kern w)" "kdev (kern w)" bytes] by auto
next
  case (Cons a as)
  then obtain w1 where w1: "wstep K a w = Some w1" "wrun K as w1 = Some w'" by (auto split: option.splits)
  have a: "no_reset a" using Cons.prems(3) by simp
  obtain a1 n1 where 1: "flow bytes (all_bytes (step_copies K a w)) a1 n1 (kdev (kern w)) (kdev (kern w1))"
    using wstep_flow(1) [OF Cons.prems(1) w1(1) a] by blast
  obtain a2 n2 where 2: "flow bytes (all_bytes (copies K as w1)) a2 n2 (kdev (kern w1)) (kdev (kern w'))"
    and h: "handed_out K as w1 = all_bytes (filter snd (copies K as w1))"
    using Cons.IH [OF wstep_inv [OF w1(1) Cons.prems(1)] w1(2)] Cons.prems(3) by auto
  from progress_trans [OF 1 [unfolded flow_def] 2 [unfolded flow_def]]
  show ?case using wstep_flow(2) [OF Cons.prems(1) w1(1) a] h by (auto simp: w1(1) flow_def)
qed

end

section \<open>One reader\<close>

fun reading :: "caller \<Rightarrow> bool" where
  "reading (Read_entry nonblock count) = True"
| "reading (Read_wait count due) = True"
| "reading (Read_out count) = True"
| "reading c = False"

fun read_call :: "wait_action \<Rightarrow> bool" where
  "read_call (Call c) = reading c"
| "read_call a = False"

text \<open>The copy of caller \<open>i\<close> goes to an inaccessible buffer.\<close>

fun faulting :: "nat \<Rightarrow> wait_action \<Rightarrow> bool" where
  "faulting i (Step j fault signal) = (j = i \<and> fault)"
| "faulting i a = False"

text \<open>What a read may return that has the queue to itself; \<open>faulty\<close>: its buffer may be inaccessible.\<close>

fun read_outcome :: "bool \<Rightarrow> bool \<Rightarrow> nat \<Rightarrow> reply \<Rightarrow> bool" where
  "read_outcome faulty nonblock count (Err e) =
     (if count < sample_size then e = EINVAL
      else e = (if nonblock then EAGAIN else ERESTARTSYS) \<or> faulty \<and> e = EFAULT)"
| "read_outcome faulty nonblock count (Data bs) =
     (sample_size \<le> count \<and> bs \<noteq> [] \<and> (\<exists>q. bs = encode_samples q \<and> length q \<le> spec_batch count))"
| "read_outcome faulty nonblock count r = False"

fun reader_at :: "bool \<Rightarrow> bool \<Rightarrow> nat \<Rightarrow> bool \<Rightarrow> caller \<Rightarrow> bool" where
  "reader_at faulty nonblock count data (Read_entry nb c) = (nb = nonblock \<and> c = count)"
| "reader_at faulty nonblock count data (Read_wait c due) = (c = count \<and> sample_size \<le> count \<and> \<not> nonblock)"
| "reader_at faulty nonblock count data (Read_out c) = (c = count \<and> sample_size \<le> count \<and> data)"
| "reader_at faulty nonblock count data (Call_returned r) = read_outcome faulty nonblock count r"
| "reader_at faulty nonblock count data c = False"

definition lone :: "('f \<Rightarrow> byte list) \<Rightarrow> bool \<Rightarrow> bool \<Rightarrow> nat \<Rightarrow> nat \<Rightarrow> 'f kernel_side \<Rightarrow> bool" where
  "lone bytes faulty nonblock count i w \<longleftrightarrow> i < length (callers w) \<and>
     reader_at faulty nonblock count (wqueue bytes w \<noteq> []) (callers w ! i) \<and>
     (\<forall>j < length (callers w). j \<noteq> i \<longrightarrow> \<not> reading (callers w ! j))"

lemma flow_data: "flow bytes [] acc n d d' \<Longrightarrow> queued bytes d \<noteq> [] \<Longrightarrow> queued bytes d' \<noteq> []"
  by (auto simp: flow_def progress_def abs_device_def encode_samples_eq_Nil)

lemma not_reading_step: "call_step K fault signal c d = Some (c', d') \<Longrightarrow> \<not> reading c \<Longrightarrow> \<not> reading c' \<and> copied K fault c d = []"
  by (cases c) (auto simp: Let_def split: if_splits)

lemma wake_up_reader [simp]: "reader_at fl nb count data (wake_up c) = reader_at fl nb count data c" "reading (wake_up c) = reading c"
  by (cases c; simp)+

lemma reader_at_mono: "reader_at fl nb count data c \<Longrightarrow> (data \<Longrightarrow> data') \<Longrightarrow> reader_at fl nb count data' c"
  by (cases c) auto

context kfifo_api
begin

lemma reader_step:
  assumes "drv_inv K bytes ok (plain d)" "reader_at fl nb count (queued bytes d \<noteq> []) c"
    and "call_step K fault signal c d = Some (c', d')" "fault \<longrightarrow> fl"
  shows "reader_at fl nb count (queued bytes d' \<noteq> []) c'"
proof (cases c)
  case (Read_out n)
  then have n: "n = count" "sample_size \<le> count" "queued bytes d \<noteq> []" using assms(2) by simp_all
  then have "0 < spec_batch count" by (simp add: spec_batch_def div_greater_zero_iff)
  with n assms(4) read_out(1) [OF assms(1), of fault count]
  have "reader_at fl nb count x (Call_returned (fst (read_copy K fault count d)))" for x
    by (auto simp: encode_samples_eq_Nil intro!: exI [of _ "take (spec_batch count) (queued bytes d)"])
  with Read_out n assms(3) show ?thesis by (auto split: prod.splits)
qed (use assms data_queued [OF assms(1)] in \<open>auto split: if_splits\<close>)

lemma lone_step:
  assumes "wait_inv K bytes ok w" "lone bytes fl nb count i w" "wstep K a w = Some w'"
    and "no_reset a" "\<not> read_call a" "faulting i a \<longrightarrow> fl"
  shows "lone bytes fl nb count i w'"
proof -
  note inv = assms(1) [unfolded wait_inv_def, THEN conjunct1]
  have i: "i < length (callers w)" using assms(2) by (simp add: lone_def)
  have stays: "wqueue bytes w' \<noteq> []" if "step_copies K a w = []" "wqueue bytes w \<noteq> []"
    using wstep_flow(1) [OF assms(1,3,4)] that flow_data by fastforce
  show ?thesis
  proof (cases a)
    case (Call c)
    with assms show ?thesis by (auto simp: lone_def nth_append split: if_splits)
  next
    case (Step j fault signal)
    then obtain c d where j: "j < length (callers w)"
      and c: "call_step K fault signal (callers w ! j) (kdev (kern w)) = Some (c, d)"
      and w': "w' = w\<lparr>kern := (kern w)\<lparr>kdev := d\<rparr>,
        callers := (let cs = (callers w)[j := c] in if callers w ! j = Write_wake then map wake_up cs else cs)\<rparr>"
      using assms(3) by (auto split: if_splits)
    show ?thesis
    proof (cases "j = i")
      case True
      with assms(2,6) Step reader_step [OF inv _ c, of fl nb count] show ?thesis
        by (auto simp: lone_def w' Let_def nth_list_update)
    next
      case False
      then have r: "\<not> reading (callers w ! j)" using assms(2) j by (simp add: lone_def)
      note n = not_reading_step [OF c r]
      have "wqueue bytes w' \<noteq> []" if "wqueue bytes w \<noteq> []" using stays that n by (simp add: Step)
      with False assms(2) n j show ?thesis
        by (auto simp: lone_def w' Let_def nth_list_update intro: reader_at_mono)
    qed
  next
    case (Callback r now)
    with assms(2,3) stays show ?thesis
      by (auto simp: lone_def intro: reader_at_mono split: if_splits)
  next
    case (Kernel ka)
    with assms(2,3) stays show ?thesis
      by (auto simp: lone_def intro: reader_at_mono split: if_splits)
  qed
qed

lemma lone_run:
  "wrun K as w = Some w' \<Longrightarrow> wait_inv K bytes ok w \<Longrightarrow> lone bytes fl nb count i w \<Longrightarrow>
     list_all (\<lambda>a. no_reset a \<and> \<not> read_call a) as \<Longrightarrow> list_ex (faulting i) as \<longrightarrow> fl \<Longrightarrow> lone bytes fl nb count i w'"
  by (induction as arbitrary: w) (auto split: option.splits dest: wstep_inv lone_step)

end

section \<open>The atomic entries in steps\<close>

text \<open>
  The steps of a call, put together without interference, are the atomic entries of \<open>Driver\<close>; with other contexts
  between them a read is \<open>sensorhub_read\<close> with these contexts as its arguments.
\<close>

lemma write_in_steps:
  "call_step K fault signal (Write_entry bad now buf) d = Some (c, d1) \<Longrightarrow>
     sensorhub_write K bad now buf d =
       (case c of Call_returned r \<Rightarrow> (r, d1) | _ \<Rightarrow> (Ret sample_size, d1\<lparr>wake_ups := wake_ups d1 + 1\<rparr>))"
  by (auto simp: sensorhub_write_def push_locked_def sensorhub_push_sample_def Let_def split: if_splits prod.splits)

lemma read_in_steps:
  "call_step K f s (Read_entry nonblock count) d = Some (Read_out count, d) \<Longrightarrow>
     call_step K fault s (Read_out count) (between d) = Some (Call_returned r, d1) \<Longrightarrow>
     sensorhub_read K nonblock signal sleep between fault count d = (Some r, d1)"
  "call_step K f s (Read_entry nonblock count) d = Some (Read_wait count True, d) \<Longrightarrow>
     call_step K f signal (Read_wait count True) (sleep d) = Some (Read_out count, sleep d) \<Longrightarrow>
     call_step K fault s (Read_out count) (between (sleep d)) = Some (Call_returned r, d1) \<Longrightarrow>
     sensorhub_read K nonblock signal sleep between fault count d = (Some r, d1)"
  "call_step K f s (Read_entry nonblock count) d = Some (Read_wait count True, d) \<Longrightarrow>
     call_step K f signal (Read_wait count True) (sleep d) = Some (Call_returned r, sleep d) \<Longrightarrow>
     sensorhub_read K nonblock signal sleep between fault count d = (Some r, sleep d)"
  "call_step K f s (Read_entry nonblock count) d = Some (Call_returned r, d) \<Longrightarrow>
     sensorhub_read K nonblock signal sleep between fault count d = (Some r, d)"
  by (auto simp: sensorhub_read_def split: if_splits prod.splits)

context kfifo_api
begin

lemma push_locked_queue:
  assumes "drv_inv K bytes ok (plain d)" "length (queued bytes d) < 2048"
  shows "queued bytes (push_locked K s b d) = queued bytes d @ [s\<lparr>seq := next_seq d\<rparr>]"
proof -
  have "queued bytes (push_locked K s b d) = fifo (spec_push s b (abs_device bytes (plain d)))"
    using arg_cong [OF push_refines(1) [OF assms(1), of s b], of fifo]
    by (simp add: abs_device_def push_locked_def flip: plain_push)
  with assms(2) show ?thesis by (simp add: spec_push_def Let_def abs_device_def) (simp add: plain_def)
qed

end

text \<open>Two blocking readers fall asleep, one sample is written, the readers go on.\<close>

definition two_fall_asleep :: "wait_action list" where
  "two_fall_asleep = [Call (Read_entry False 32), Call (Read_entry False 32), Step 0 False False, Step 0 False False,
     Step 1 False False, Step 1 False False]"

definition one_write :: "u64 \<Rightarrow> byte list \<Rightarrow> wait_action list" where
  "one_write now buf = [Call (Write_entry False now buf), Step 2 False False, Step 2 False False]"

definition both_go_on :: "wait_action list" where
  "both_go_on = [Step 0 False False, Step 1 False False, Step 0 False False, Step 1 False False]"

context kfifo_api
begin

lemma overtaken_run:
  assumes "drv_inv K bytes ok (plain d)" "queued bytes d = []" "length buf = sample_size"
  shows "\<exists>w w1 w2 s. wrun K two_fall_asleep (idle_side d) = Some w \<and>
    callers w = [Read_wait 32 False, Read_wait 32 False] \<and> wqueue bytes w = [] \<and>
    wrun K (one_write now buf) w = Some w1 \<and>
    callers w1 = [Read_wait 32 True, Read_wait 32 True, Call_returned (Ret sample_size)] \<and> wqueue bytes w1 = [s] \<and>
    wrun K both_go_on w1 = Some w2 \<and>
    callers w2 = [Call_returned (Data (encode_samples [s])), Call_returned (Data []), Call_returned (Ret sample_size)]"
proof -
  let ?s = "(decode_sample buf)\<lparr>timestamp_ns := now, stype := SENSORHUB_SAMPLE_USER\<rparr>"
  let ?side = "\<lambda>d cs. \<lparr>kern = idle_kernel d, callers = cs, cb_waking = False\<rparr>"
  define d1 where "d1 = (push_locked K ?s True d)\<lparr>wake_ups := Suc (wake_ups d)\<rparr>"
  have inv: "drv_inv K bytes ok (plain d1)" using push_locked_inv [OF assms(1)] by (simp add: d1_def)
  have q: "queued bytes d1 = [?s\<lparr>seq := next_seq d\<rparr>]" using push_locked_queue [OF assms(1)] assms(2) by (simp add: d1_def)
  obtain r d2 where r: "read_copy K False 32 d1 = (r, d2)" by fastforce
  have batch: "spec_batch 32 = 1" by (simp add: spec_batch_def)
  have r1: "r = Data (encode_samples [?s\<lparr>seq := next_seq d\<rparr>])" "queued bytes d2 = []" "drv_inv K bytes ok (plain d2)"
    using read_out [OF inv, of False 32] q r batch by simp_all
  obtain r' d3 where r2: "read_copy K False 32 d2 = (r', d3)" by fastforce
  then have r': "r' = Data []" using read_out(1) [OF r1(3), of False 32] r1(2) by simp
  have data: "\<not> sensorhub_has_data K d" "sensorhub_has_data K d1"
    using data_queued [OF assms(1)] data_queued [OF inv] assms(2) q by simp_all
  have 1: "wrun K two_fall_asleep (idle_side d) = Some (?side d [Read_wait 32 False, Read_wait 32 False])"
    using data(1) by (simp add: two_fall_asleep_def idle_side_def idle_kernel_def)
  have 2: "wrun K (one_write now buf) (?side d [Read_wait 32 False, Read_wait 32 False]) =
      Some (?side d1 [Read_wait 32 True, Read_wait 32 True, Call_returned (Ret sample_size)])"
    using assms(3) by (simp add: one_write_def idle_kernel_def d1_def)
  have 3: "wrun K both_go_on (?side d1 [Read_wait 32 True, Read_wait 32 True, Call_returned (Ret sample_size)]) =
      Some (?side d3 [Call_returned r, Call_returned r', Call_returned (Ret sample_size)])"
    using data(2) r r2 by (simp add: both_go_on_def idle_kernel_def)
  show ?thesis
    by (rule exI, rule exI, rule exI, rule exI [of _ "?s\<lparr>seq := next_seq d\<rparr>"], intro conjI, rule 1, simp_all only: kernel_side.simps,
        simp add: idle_kernel_def assms(2), rule 2, simp_all only: kernel_side.simps, simp add: idle_kernel_def q, rule 3)
      (simp add: r1(1) r')
qed

end

lemma no_data_loaded_ring: "\<not> sensorhub_has_data ring_ops loaded_ring"
  using has_data_iff [OF ring.kfifo_api_axioms loaded_ring_inv] queued_loaded_ring by simp

lemma loaded_ring_fields:
  "timer loaded_ring = Some 500" "enabled (config loaded_ring) = 1" "wake_ups loaded_ring = 0" "next_seq loaded_ring = 0"
  by (simp_all add: loaded_ring_def fresh_device_def)

lemma plain_loaded_ring: "drv_inv ring_ops ring_bytes ring_ok (plain loaded_ring)"
  using idle_side_inv [OF ring.kfifo_api_axioms init_ring g_sensorhub_ring]
  by (simp add: wait_inv_def idle_side_def idle_kernel_def)

lemma no_data_poll: "\<not> sensorhub_has_data K d \<Longrightarrow> sensorhub_poll K d AND EPOLLIN = 0"
  by (simp add: sensorhub_poll_def EPOLLIN_def EPOLLOUT_def EPOLLWRNORM_def)

lemma timer_irrelevant [simp]:
  "sensorhub_has_data K (d\<lparr>timer := t\<rparr>) = sensorhub_has_data K d" "queued bytes (d\<lparr>timer := t\<rparr>) = queued bytes d"
  by (simp_all add: sensorhub_has_data_def queued_def)

section \<open>Properties\<close>

text \<open>
  Property C8 (no lost wake-up). In every reachable state of the driver in which samples are queued, the wake-ups
  under way can be completed one by one without changing the queue; once none is left, every process that sleeps in
  a blocking read obtains the oldest samples in its next two steps, and every process that waits for input by
  poll is told that the device is readable, whether it was already asleep when the sample came or was just
  going to sleep.
\<close>

theorem driver_no_lost_wakeup:
  assumes "kfifo_api K bytes ok" and "sensorhub_init K ans m = (None, m')" and "g_sensorhub m' = Some d0"
    and "wrun K as (idle_side d0) = Some w" and "wqueue bytes w \<noteq> []"
  shows "(\<forall>a \<in> set (wakers w). \<exists>w'. wstep K a w = Some w' \<and> wqueue bytes w' = wqueue bytes w \<and>
      length (wakers w') < length (wakers w)) \<and>
    (wakers w = [] \<longrightarrow> (\<forall>i < length (callers w).
      (\<forall>count due. callers w ! i = Read_wait count due \<longrightarrow>
         (\<exists>w'. wrun K [Step i False False, Step i False False] w = Some w' \<and>
            callers w' ! i = Call_returned (Data (encode_samples (take (spec_batch count) (wqueue bytes w)))) \<and>
            0 < spec_batch count)) \<and>
      (\<forall>events due. callers w ! i = Poll_waiting events due \<and> events AND EPOLLIN \<noteq> 0 \<longrightarrow>
         (\<exists>w' ready. wstep K (Step i False False) w = Some w' \<and> callers w' ! i = Poll_ready ready \<and>
            ready AND EPOLLIN \<noteq> 0))))"
proof -
  have inv: "wait_inv K bytes ok w"
    by (rule kfifo_api.wrun_inv [OF assms(1,4) idle_side_inv [OF assms(1-3)]])
  have alert: "alert (callers w ! i)" if "wakers w = []" "i < length (callers w)" for i
    using inv that assms(5) by (simp add: wait_inv_def wakers_Nil list_all_length)
  have input: "events AND (EPOLLIN OR EPOLLRDNORM) \<noteq> 0" if "events AND EPOLLIN \<noteq> 0" for events :: u32
    using that by (auto simp: bit_eq_iff bit_simps)
  show ?thesis
  proof (intro conjI ballI impI allI)
    fix a assume "a \<in> set (wakers w)"
    from waker_step [OF this, of K bytes] show "\<exists>w'. wstep K a w = Some w' \<and> wqueue bytes w' = wqueue bytes w \<and>
      length (wakers w') < length (wakers w)" by blast
  next
    fix i count due assume i: "wakers w = []" "i < length (callers w)" and c: "callers w ! i = Read_wait count due"
    from alert [OF i] c have "due" by simp
    with reader_finishes [OF assms(1) inv i(2) c _ assms(5), of False False False]
    show "\<exists>w'. wrun K [Step i False False, Step i False False] w = Some w' \<and>
      callers w' ! i = Call_returned (Data (encode_samples (take (spec_batch count) (wqueue bytes w)))) \<and>
      0 < spec_batch count" by blast
  next
    fix i events due assume i: "wakers w = []" "i < length (callers w)"
      and c: "callers w ! i = Poll_waiting events due \<and> events AND EPOLLIN \<noteq> 0"
    from alert [OF i] c input have "due" by auto
    with poll_reports [OF assms(1) inv i(2) conjunct1 [OF c] _ assms(5) conjunct2 [OF c], of False False]
    show "\<exists>w' ready. wstep K (Step i False False) w = Some w' \<and> callers w' ! i = Poll_ready ready \<and>
      ready AND EPOLLIN \<noteq> 0" by blast
  qed
qed

text \<open>A reader and a poll fall asleep on the empty device; then the timer fires.\<close>

definition asleep_then_sample :: "wait_action list" where
  "asleep_then_sample = [Call (Read_entry False 64), Call (Poll_entry EPOLLIN), Step 0 False False, Step 0 False False,
     Step 1 False False, Step 1 False False, Kernel Expire, Callback 3 9, Callback 3 9, Callback 3 9]"

definition woken :: "ring kernel_side" where
  "woken = \<lparr>kern = \<lparr>kdev = (push_locked ring_ops (timer_sample 3 9) False (loaded_ring\<lparr>timer := None\<rparr>))\<lparr>wake_ups := 1\<rparr>,
     tasks = [], cb = Cb_forward\<rparr>, callers = [Read_wait 64 True, Poll_waiting EPOLLIN True], cb_waking = False\<rparr>"

lemma asleep_then_sample_run:
  "wrun ring_ops asleep_then_sample (idle_side loaded_ring) = Some woken" "wqueue ring_bytes woken = [timer_sample 3 9]"
proof -
  show "wrun ring_ops asleep_then_sample (idle_side loaded_ring) = Some woken"
    using no_data_loaded_ring
    by (simp add: asleep_then_sample_def idle_side_def idle_kernel_def loaded_ring_fields no_data_poll woken_def)
  have "queued ring_bytes (push_locked ring_ops (timer_sample 3 9) False (loaded_ring\<lparr>timer := None\<rparr>)) =
      [(timer_sample 3 9)\<lparr>seq := 0\<rparr>]"
    using ring.push_locked_queue [of "loaded_ring\<lparr>timer := None\<rparr>" "timer_sample 3 9" False] plain_loaded_ring
      queued_loaded_ring by (simp add: loaded_ring_fields)
  then show "wqueue ring_bytes woken = [timer_sample 3 9]" by (simp add: woken_def timer_sample_def zero_sample_def)
qed

theorem driver_no_lost_wakeup_witness:
  "\<exists>w. wrun ring_ops [Step 0 False False, Step 0 False False] woken = Some w \<and>
    callers w ! 0 = Call_returned (Data (encode_samples [timer_sample 3 9]))"
proof -
  have "wqueue ring_bytes woken \<noteq> []" by (simp add: asleep_then_sample_run(2))
  note live = driver_no_lost_wakeup [OF ring.kfifo_api_axioms init_ring g_sensorhub_ring asleep_then_sample_run(1) this, THEN conjunct2]
  have "0 < length (callers woken)" "callers woken ! 0 = Read_wait 64 True" "wakers woken = []"
    by (simp_all add: woken_def wakers_Nil waking_def)
  with live have "\<exists>w. wrun ring_ops [Step 0 False False, Step 0 False False] woken = Some w \<and>
      callers w ! 0 = Call_returned (Data (encode_samples (take (spec_batch 64) (wqueue ring_bytes woken))))"
    by blast
  then show ?thesis by (simp add: spec_batch_def asleep_then_sample_run(2))
qed

text \<open>
  Property C7 (samples under concurrency). Whatever readers, writers, polls, configuration entries and the timer
  callback do at the same time, as long as nobody resets the device by \<open>SENSORHUB_IOC_RESET\<close>: the bytes taken out of the
  FIFO by the copies of the readers, one after the other, followed by what is still queued, are exactly the accepted
  samples, each once and in the order of their sequence numbers. The counters for accepted and dropped samples are
  exact, and every missing sequence number is a sample dropped at the full FIFO. What the readers get is what was
  copied to accessible buffers: a copy to an inaccessible buffer (\<open>EFAULT\<close>) is lost, and \<open>read_bytes\<close> counts it as
  read all the same.
\<close>

theorem concurrent_samples_conserved:
  assumes "kfifo_api K bytes ok" and "sensorhub_init K ans m = (None, m')" and "g_sensorhub m' = Some d0"
    and "wrun K as (idle_side d0) = Some w" and "list_all no_reset as"
  shows "\<exists>acc n is. encode_samples acc = all_bytes (copies K as (idle_side d0)) @ encode_samples (wqueue bytes w) \<and>
    handed_out K as (idle_side d0) = all_bytes (filter snd (copies K as (idle_side d0))) \<and>
    d_generated (kdev (kern w)) + d_injected (kdev (kern w)) = word_of_nat (length acc) \<and>
    length acc \<le> n \<and> d_dropped (kdev (kern w)) = word_of_nat (n - length acc) \<and>
    d_read_bytes (kdev (kern w)) = word_of_nat (length (all_bytes (copies K as (idle_side d0)))) \<and>
    next_seq (kdev (kern w)) = word_of_nat n \<and>
    sorted_wrt (<) is \<and> set is \<subseteq> {..<n} \<and> map seq acc = map word_of_nat is"
proof -
  have fresh: "queued bytes d0 = []" "d_generated d0 = 0" "d_injected d0 = 0" "d_dropped d0 = 0" "d_read_bytes d0 = 0" "next_seq d0 = 0"
    using init_loaded_inv(2) [OF assms(1-3)] init_loaded [OF assms(2,3)]
    by (auto simp: abs_device_def fresh_device_def with_fifo_def)
  note run = kfifo_api.wrun_flow [OF assms(1) idle_side_inv [OF assms(1-3)] assms(4,5)]
  obtain acc n where "flow bytes (all_bytes (copies K as (idle_side d0))) acc n d0 (kdev (kern w))"
    using conjunct1 [OF run] by (auto simp: idle_side_def idle_kernel_def)
  then show ?thesis
    unfolding flow_def progress_def abs_device_def with_fifo_simps queued_plain
    by (auto simp: fresh plain_def conjunct2 [OF run] intro!: exI [of _ acc] exI [of _ n])
qed

text \<open>After the timer the reader copies to a buffer that it cannot access: the sample is gone, and counted.\<close>

definition faulty_reader :: "wait_action list" where
  "faulty_reader = asleep_then_sample @ [Step 0 False False, Step 0 True False]"

lemma faulty_reader_run:
  "\<exists>w. wrun ring_ops faulty_reader (idle_side loaded_ring) = Some w \<and> callers w ! 0 = Call_returned (Err EFAULT) \<and>
    wqueue ring_bytes w = []"
  "copies ring_ops faulty_reader (idle_side loaded_ring) = [(encode_sample (timer_sample 3 9), False)]"
proof -
  let ?d = "kdev (kern woken)"
  have inv: "drv_inv ring_ops ring_bytes ring_ok (plain ?d)"
    using ring.wrun_inv [OF asleep_then_sample_run(1) idle_side_inv [OF ring.kfifo_api_axioms init_ring g_sensorhub_ring]]
    by (simp add: wait_inv_def)
  have data: "sensorhub_has_data ring_ops ?d" using ring.data_queued [OF inv] asleep_then_sample_run(2) by simp
  obtain r d where rd: "read_copy ring_ops True 64 ?d = (r, d)" by fastforce
  have batch: "take (spec_batch 64) [timer_sample 3 9] = [timer_sample 3 9]" "drop (spec_batch 64) [timer_sample 3 9] = []"
    by (simp_all add: spec_batch_def)
  have r: "r = Err EFAULT" "queued ring_bytes d = []"
    using ring.read_out(1,2) [OF inv, of True 64] rd asleep_then_sample_run(2) batch by simp_all
  let ?w1 = "woken\<lparr>callers := [Read_out 64, Poll_waiting EPOLLIN True]\<rparr>"
  let ?w2 = "woken\<lparr>kern := (kern woken)\<lparr>kdev := d\<rparr>, callers := [Call_returned r, Poll_waiting EPOLLIN True]\<rparr>"
  have cs: "callers woken = [Read_wait 64 True, Poll_waiting EPOLLIN True]" by (simp add: woken_def)
  have s1: "wstep ring_ops (Step 0 False False) woken = Some ?w1" using data by (simp add: cs)
  have s2: "wstep ring_ops (Step 0 True False) ?w1 = Some ?w2" using rd by simp
  show "\<exists>w. wrun ring_ops faulty_reader (idle_side loaded_ring) = Some w \<and> callers w ! 0 = Call_returned (Err EFAULT) \<and>
    wqueue ring_bytes w = []"
    by (rule exI [of _ ?w2]) (simp add: faulty_reader_def wrun_append asleep_then_sample_run(1) s1 s2 r del: wstep.simps)
  have "copies ring_ops asleep_then_sample (idle_side loaded_ring) = []"
    using no_data_loaded_ring
    by (simp add: asleep_then_sample_def idle_side_def idle_kernel_def loaded_ring_fields no_data_poll)
  moreover have "copied ring_ops True (Read_out 64) ?d = [(encode_sample (timer_sample 3 9), False)]"
    using ring.copied_bytes [OF inv, of True 64] asleep_then_sample_run(2) batch(1) by simp
  ultimately show "copies ring_ops faulty_reader (idle_side loaded_ring) = [(encode_sample (timer_sample 3 9), False)]"
    by (simp add: faulty_reader_def copies_append asleep_then_sample_run(1) s1 s2 cs del: wstep.simps copied.simps)
      (simp add: woken_def)
qed

theorem concurrent_samples_conserved_witness:
  "\<exists>w. wrun ring_ops faulty_reader (idle_side loaded_ring) = Some w \<and> callers w ! 0 = Call_returned (Err EFAULT) \<and>
    wqueue ring_bytes w = [] \<and> handed_out ring_ops faulty_reader (idle_side loaded_ring) = [] \<and>
    d_read_bytes (kdev (kern w)) = 32 \<and> d_generated (kdev (kern w)) + d_injected (kdev (kern w)) = 1"
proof -
  obtain w where w: "wrun ring_ops faulty_reader (idle_side loaded_ring) = Some w" "callers w ! 0 = Call_returned (Err EFAULT)"
    "wqueue ring_bytes w = []" using faulty_reader_run(1) by blast
  have "list_all no_reset faulty_reader" by (simp add: faulty_reader_def asleep_then_sample_def)
  moreover have "length acc = 1" if "encode_samples acc = encode_sample (timer_sample 3 9)" for acc
    using arg_cong [OF that, of length] by simp
  ultimately show ?thesis
    using concurrent_samples_conserved [OF ring.kfifo_api_axioms init_ring g_sensorhub_ring w(1)] w
    by (fastforce simp: faulty_reader_run(2))
qed

text \<open>
  Property C30 (a reader can come away with nothing). A read that is alone on the device, beside any writers,
  polls, configuration entries and the timer, and while nobody resets the device, returns at least one whole sample and
  at most what its buffer holds, or \<open>EINVAL\<close> for a buffer below one sample, \<open>EAGAIN\<close> in non-blocking mode,
  \<open>ERESTARTSYS\<close> after a signal, \<open>EFAULT\<close> if its buffer is inaccessible; never an empty result. With two blocking readers
  this is lost: both sleep on the empty device, a single written sample wakes both, one reader gets it, and the other
  one neither gets \<open>EAGAIN\<close> nor sleeps on but returns 0 bytes, which its caller takes for the end of the file.
\<close>

theorem read_returns_data_unless_overtaken:
  assumes "kfifo_api K bytes ok" and "sensorhub_init K ans m = (None, m')" and "g_sensorhub m' = Some d0"
    and "length buf = sample_size"
  shows "(\<forall>as w bs w' nonblock count r. wrun K as (idle_side d0) = Some w \<longrightarrow> list_all (\<lambda>c. \<not> reading c) (callers w) \<longrightarrow>
      list_all (\<lambda>a. no_reset a \<and> \<not> read_call a) bs \<longrightarrow>
      wrun K (Call (Read_entry nonblock count) # bs) w = Some w' \<longrightarrow>
      callers w' ! length (callers w) = Call_returned r \<longrightarrow>
      read_outcome (list_ex (faulting (length (callers w))) bs) nonblock count r) \<and>
    (\<exists>w w1 w2 s. wrun K two_fall_asleep (idle_side d0) = Some w \<and>
      callers w = [Read_wait 32 False, Read_wait 32 False] \<and> wqueue bytes w = [] \<and>
      wrun K (one_write now buf) w = Some w1 \<and>
      callers w1 = [Read_wait 32 True, Read_wait 32 True, Call_returned (Ret sample_size)] \<and> wqueue bytes w1 = [s] \<and>
      wrun K both_go_on w1 = Some w2 \<and>
      callers w2 = [Call_returned (Data (encode_samples [s])), Call_returned (Data []), Call_returned (Ret sample_size)])"
proof (intro conjI allI impI)
  fix as w bs w' nonblock count r
  assume run: "wrun K as (idle_side d0) = Some w" "list_all (\<lambda>c. \<not> reading c) (callers w)"
    "list_all (\<lambda>a. no_reset a \<and> \<not> read_call a) bs" "wrun K (Call (Read_entry nonblock count) # bs) w = Some w'"
    "callers w' ! length (callers w) = Call_returned r"
  let ?i = "length (callers w)" and ?w = "w\<lparr>callers := callers w @ [Read_entry nonblock count]\<rparr>"
  have inv: "wait_inv K bytes ok w"
    by (rule kfifo_api.wrun_inv [OF assms(1) run(1) idle_side_inv [OF assms(1-3)]])
  have "wait_inv K bytes ok ?w"
    using kfifo_api.wstep_inv [OF assms(1) _ inv, of "Call (Read_entry nonblock count)"] by simp
  moreover have "lone bytes (list_ex (faulting ?i) bs) nonblock count ?i ?w"
    using run(2) by (auto simp: lone_def nth_append list_all_length)
  ultimately have "lone bytes (list_ex (faulting ?i) bs) nonblock count ?i w'"
    using kfifo_api.lone_run [OF assms(1) _ _ _ run(3)] run(4) by simp
  then show "read_outcome (list_ex (faulting ?i) bs) nonblock count r" using run(5) by (simp add: lone_def)
next
  have inv: "drv_inv K bytes ok (plain d0)" using idle_side_inv [OF assms(1-3)] by (simp add: wait_inv_def idle_side_def idle_kernel_def)
  have "queued bytes d0 = []" using init_loaded_inv(2) [OF assms(1-3)] by (simp add: abs_device_def with_fifo_def fresh_device_def)
  from kfifo_api.overtaken_run [OF assms(1) inv this assms(4)]
  show "\<exists>w w1 w2 s. wrun K two_fall_asleep (idle_side d0) = Some w \<and>
      callers w = [Read_wait 32 False, Read_wait 32 False] \<and> wqueue bytes w = [] \<and>
      wrun K (one_write now buf) w = Some w1 \<and>
      callers w1 = [Read_wait 32 True, Read_wait 32 True, Call_returned (Ret sample_size)] \<and> wqueue bytes w1 = [s] \<and>
      wrun K both_go_on w1 = Some w2 \<and>
      callers w2 = [Call_returned (Data (encode_samples [s])), Call_returned (Data []), Call_returned (Ret sample_size)]" .
qed

theorem read_returns_data_unless_overtaken_witness:
  "\<exists>w s. wrun ring_ops (two_fall_asleep @ one_write 7 (replicate 32 0) @ both_go_on) (idle_side loaded_ring) = Some w \<and>
    callers w = [Call_returned (Data (encode_samples [s])), Call_returned (Data []), Call_returned (Ret sample_size)]"
proof -
  have "length (replicate 32 0 :: byte list) = sample_size" by simp
  from read_returns_data_unless_overtaken [OF ring.kfifo_api_axioms init_ring g_sensorhub_ring this, THEN conjunct2, of 7]
  show ?thesis by (auto simp: wrun_append)
qed

end
