(* ===== verification/Spec2Isabelle.thy ===== *)
theory Spec2Isabelle
  imports Shutdown Fd_Vector Driver_Wakeup
begin

text \<open>
  Verification of SensorHub: a Linux sensor driver, a daemon that reads, stores and distributes the
  samples, and three command line tools.

  \<^bold>\<open>The program.\<close> The kernel driver (\<open>kernel/sensorhub_drv.c\<close>) produces samples on a timer or takes them
  from \<open>write\<close>, keeps them in a kernel FIFO and hands them to \<open>read\<close>; it is configured by ioctl and sysfs.
  The daemon (\<open>userspace/src/main.cpp\<close>) runs an epoll loop with four fixed event sources: the device (or a
  simulated one on a timer descriptor), a signal descriptor, a Unix control socket and a TCP port. The
  device callback pushes every sample into a bounded queue; worker threads pop it, append a line to a
  rotating log, send the line by UDP and broadcast it to the TCP subscribers. Control connections carry
  one command each (\<open>stats\<close>, \<open>reload\<close>, \<open>shutdown\<close>). \<open>sensorctl\<close>, \<open>sensor_subscribe\<close> and \<open>sensor_inject\<close> are
  the clients of the control socket, of the TCP port and of the device.

  \<^bold>\<open>Theories and sources.\<close>
  \<^item> \<open>Sensorhub_Prelude\<close>: machine integers, error values, answers of system calls, decimal numerals,
    little-endian encodings; the collections \<open>step_simps\<close>, \<open>inv_intros\<close>, \<open>list_find\<close>.
  \<^item> \<open>Cpp_Std\<close>: \<open>isspace\<close>, \<open>getline\<close>, \<open>stoi\<close>, \<open>stoul\<close> of the C++ library.
  \<^item> \<open>Uapi\<close>: \<open>include/sensorhub_uapi.h\<close>; records and byte layouts with their round trips.
  \<^item> \<open>Config\<close>: \<open>config.cpp\<close>; \<open>load_config_file\<close> over a file system map.
  \<^item> \<open>Bounded_Queue\<close>: \<open>bounded_queue.hpp\<close>; the locale \<open>lossy_fifo\<close> (contract of a bounded queue that counts
    its losses), interpreted on the queue and, in \<open>Driver_Refinement\<close>, on the driver.
  \<^item> \<open>Unique_Fd\<close>: \<open>fd.hpp\<close>; wrapper objects as cells of a store, so that moves between objects and
    self-assignment are visible.
  \<^item> \<open>Logger\<close>: \<open>logger.cpp\<close>. \<open>Log_Writer\<close>: \<open>log_writer.cpp\<close>; text form of a sample, log file and rotation, and the
    specification \<open>log_after\<close> of the texts of archive and log on a file system that does not fail.
  \<^item> \<open>Epoll_Loop\<close>: \<open>epoll_loop.cpp\<close>; the locale \<open>reactor\<close> is the contract between the loop and its
    callbacks, interpreted on the daemon's callbacks in \<open>Daemon_Properties\<close>.
  \<^item> \<open>Control_Server\<close>: \<open>control_server.cpp\<close>; the state machine of a control connection.
  \<^item> \<open>Tcp_Broadcaster\<close>: \<open>tcp_broadcaster.cpp\<close>. \<open>Fd_Vector\<close>: its client vector as wrapper objects, with the moves
    that \<open>erase\<close> and the reallocation in \<open>emplace_back\<close> make.
  \<^item> \<open>Kfifo\<close>: the kernel FIFO as a parameter (\<open>kfifo_ops\<close>) with its documented laws (locale
    \<open>kfifo_api\<close>), and a ring buffer that satisfies them.
  \<^item> \<open>Driver\<close>: \<open>sensorhub_drv.c\<close>, one definition per kernel function, init and exit included.
    \<open>Driver_Refinement\<close>: the driver's specification, a bounded queue of samples, and the refinement, with every entry
    (whole reads and polls included) as one event.
    \<open>Driver_Concurrency\<close>: the configuration entries and the timer callback as the separate accesses to
    \<open>dev->config\<close> and the timer that they make without the lock, for any number of concurrent writers.
    \<open>Driver_Wakeup\<close>: any number of concurrent \<open>read\<close>, \<open>write\<close> and \<open>poll\<close> calls on top of that, each split at its locked
    sections and its operations on the wait queue.
  \<^item> \<open>Sensor_Device\<close>: \<open>sensor_device.cpp\<close>; the device reader composed with the driver model, and the
    simulated device.
  \<^item> \<open>Pipeline\<close>: the worker threads of \<open>main.cpp\<close> as interleaved atomic sections (\<open>act\<close>), with the condition
    variable, and the reachable states (\<open>reach\<close>).
  \<^item> \<open>Daemon\<close>: the functions and callbacks of \<open>main.cpp\<close>, start-up, main loop, shutdown.
    \<open>Daemon_Properties\<close>: the invariant of the main loop and what the daemon guarantees.
  \<^item> \<open>Tools\<close>: \<open>userspace/tools\<close>.
  \<^item> \<open>Delivery\<close>: the way of a sample through the pipeline seen from its two ends, for the properties of
    this theory, which span components.
  \<^item> \<open>Descriptors\<close>: the descriptors that the daemon obtains and closes, over all components.
  \<^item> \<open>Shutdown\<close>: the end of the daemon by command, from the bytes on a control connection to the end of \<open>main\<close>.

  \<^bold>\<open>State and effects.\<close> Every class or structure is a record and every method a function that returns the
  new state. Components also record what the outside sees (bytes on the wire, closed descriptors, log
  writes, datagrams), so that theorems can speak about it. \<open>logged\<close> records the calls of \<open>write_sample\<close> that returned;
  the code does not check the stream, so what the files hold is stated separately, for a file system that took every
  line (\<open>all_healthy\<close>). Exceptions are values of \<open>exn\<close> in a sum type,
  kernel errors values of \<open>errno\<close>. The answers of the operating system are arguments: for a loop that
  makes system calls, a list with one answer per call. Such a function returns \<open>None\<close> when the list ends
  before the loop does, and the termination theorems say which lists suffice: \<open>control_loops_return\<close> for
  the control server, 33 reads for the device reader (the FIFO holds 2048 samples, a read returns 64, and
  one more read reports that nothing is left), \<open>pipeline_shutdown_terminates\<close> and \<open>daemon_exit_reached\<close> for
  the workers. Atomic sections are what the code executes under one lock; everything else may be
  interleaved: the schedules of the workers (while the main thread waits, before each callback, between
  the pushes of a batch, the accepts of a batch and the lines of a report, before and after the queue is closed) are arguments. An exception in a worker
  ends the process in the middle of whatever the main thread does, with the outcome \<open>Terminate\<close>.

  \<^bold>\<open>Parameters.\<close> Not part of the repository and therefore arguments: the kernel FIFO, \<open>kstrtouint\<close> and
  \<open>kstrtobool\<close>, the signals pending for a caller, the thread that gets a signal sent to the process, the growth of a vector's storage, random numbers and clocks (for the log the
  broken-down time that \<open>localtime_r\<close> gives), the configuration files as they are when a command reads them, \<open>strerror\<close>, \<open>inet_pton\<close>, the ioctl entry of the device (instantiated
  by the driver model where a property is about both).

  \<^bold>\<open>What is shown.\<close>
  \<^item> Driver: it refines a bounded queue of whole samples for every sequence of entries (\<open>driver_refines\<close>);
    under any interleaving of calls without a reset samples leave the FIFO once and in order, drops are counted and only
    copies to inaccessible buffers are lost otherwise (\<open>concurrent_samples_conserved\<close>), no wake-up of a sleeping reader or poll is lost
    (\<open>driver_no_lost_wakeup\<close>), and without a reset a read returns nothing only when another reader overtook it; init and exit
    balance their resources. Settings stay in range under concurrent writers, one writer at a time is atomic
    (\<open>single_writer_atomic\<close>), two can interfere (\<open>config_writers_interfere\<close>).
  \<^item> Daemon: a graceful exit has processed every accepted sample exactly once (\<open>daemon_graceful_exit\<close>), with the log texts of the specification on a healthy file system, and
    the exit is reached; what an abnormal end can lose; the main loop keeps connections, callbacks and counters consistent; \<open>reload\<close> and
    \<open>stats\<close> through to the driver; \<open>shutdown\<close> through to the end of \<open>main\<close> (\<open>shutdown_command_ends_daemon\<close>); errors at start-up;
    the signal masks of the threads and what they mean for \<open>SIGINT\<close> and \<open>SIGTERM\<close>.
  \<^item> Pipeline: completeness for every interleaving, no lost wake-up, termination after close, order with
    one worker.
  \<^item> Control server and broadcaster: commands and replies are independent of how the byte streams are cut,
    bounds on requests and connections, termination of the loops, whole lines only for subscribers; the
    vector of wrappers refines the list of descriptors.
  \<^item> Configuration, log and text form: round trips, validation, error messages, history and size of the log,
    time stamps that determine the time they print.
  \<^item> Across components: from the driver's FIFO and from the simulated timer to the worker queue, from the command
    line of \<open>sensor_inject\<close> to the log, the datagrams and the broadcasts (\<open>injected_value_published\<close>), from the broadcast to the subscriber's
    output, from \<open>sensorctl\<close> to the command handler and back; no descriptor is leaked or closed twice.

  \<^bold>\<open>Not modelled.\<close> The contents of the UDP address
  after parsing; the result of \<open>sendto\<close>, which the code ignores; descriptors of a process that is
  terminated (the system closes them) and the one inside the log's file stream; \<open>SIGPIPE\<close> in \<open>sensorctl\<close>; weak memory effects of the
  driver's unlocked accesses to its configuration (they are interleaved in \<open>Driver_Concurrency\<close>, but in program
  order); the wait queue and poll of the kernel below their documented behaviour (a waiter is registered before
  it tests, a wake-up makes every waiter test again); tests, scripts and build files.
\<close>

section \<open>Properties across components\<close>

text \<open>
  Property C13 (from the kernel to the workers). When the event loop handles a readable device, every sample
  queued in the driver is received exactly once and in order, and is either accepted into the worker
  queue or counted as rejected, whatever the workers do meanwhile, unless an exception of theirs ends the
  process; the driver's queue is empty afterwards.
\<close>

theorem driver_to_pipeline:
  assumes "kfifo_api K bytes ok" and "drv_inv K bytes ok dev" and "\<not> simulate a"
    and "dev_reads io = fst (drv_reads K 33 dev)" and "source_callback io a = Some (Inr (), a1)"
  shows "queued bytes (snd (drv_reads K 33 dev)) = [] \<and>
    (\<exists>ks. subseq ks (queued bytes dev) \<and> accepted (qt (pipe a1)) = accepted (qt (pipe a)) @ ks \<and>
       rejected (qt (pipe a1)) + length ks = rejected (qt (pipe a)) + length (queued bytes dev) \<and>
       received (pipe a1) = received (pipe a) + word_of_nat (length (queued bytes dev)))"
proof -
  obtain q where q: "queued bytes dev = q" "length q \<le> 2048"
    using kfifo_api.inv_samples [OF assms(1,2)] by blast
  have rd: "read_available (fst (drv_reads K 33 dev)) [] = Some (Inr q)" "queued bytes (snd (drv_reads K 33 dev)) = []"
    using read_available_driver [OF assms(1,2), of 32 "[]"] q by (simp_all del: drv_reads.simps)
  then obtain p where "push_samples q (push_sched io) (pipe a) = Some p" "\<not> terminated p" "a1 = a\<lparr>pipe := p\<rparr>"
    using assms(3-5) by (auto simp: source_callback_def read_samples_def alive_def split: if_splits)
  with push_samples_queue [of q "push_sched io" "pipe a" p] rd q(1) show ?thesis by simp
qed

theorem driver_to_pipeline_witness:
  "\<exists>p. produce (timer_sample 3 9) None demo_pipe = Some p \<and> accepted (qt p) = [timer_sample 3 9] \<and>
     received p = 1 \<and> queued ring_bytes (snd (drv_reads ring_ops 33 sampled_ring)) = []"
proof -
  let ?a = "app demo_daemon"
  let ?io = "demo_io\<lparr>dev_reads := fst (drv_reads ring_ops 33 sampled_ring), push_sched := [([], None)]\<rparr>"
  obtain p where p: "produce (timer_sample 3 9) None demo_pipe = Some p"
    "accepted (qt p) = [timer_sample 3 9]" "\<not> terminated p"
    by (simp add: produce_def Let_def demo_pipe_def new_pipeline_def push_def new_queue_def queue_step.simps)
  then have "source_callback ?io ?a = Some (Inr (), ?a\<lparr>pipe := p\<rparr>)"
    using read_available_driver [OF ring.kfifo_api_axioms sampled_ring_inv, of 32 "[]"] queued_sampled_ring
    by (simp add: source_callback_def read_samples_def alive_def demo_daemon demo_produce(2) del: drv_reads.simps)
  from driver_to_pipeline [OF ring.kfifo_api_axioms sampled_ring_inv _ _ this] p show ?thesis
    by (simp add: queued_sampled_ring demo_daemon demo_pipe_def new_pipeline_def del: drv_reads.simps)
qed

text \<open>
  Property C15 (simulated samples). In simulation mode, a timer that expired \<open>k\<close> times puts \<open>k\<close> samples into the
  worker queue or its drop counter, in order and whatever the workers do meanwhile: their sequence numbers
  continue those of the previous event without a gap (modulo 2^64), their type is temperature and their
  values are between 25000 and 32999.
\<close>

theorem simulated_to_pipeline:
  assumes "simulate a" and "timer_read io = Inr k" and "source_callback io a = Some (Inr (), a1)"
  shows "sim_seq (sim_device a1) = sim_seq (sim_device a) + k \<and>
    (\<exists>ss ks. map seq ss = map (\<lambda>j. sim_seq (sim_device a) + word_of_nat j) [0..<unat k] \<and> map timestamp_ns ss = map (clock io) [0..<unat k] \<and>
       (\<forall>s \<in> set ss. stype s = SENSORHUB_SAMPLE_TEMP \<and> 25000 \<le> sint (value0 s) \<and> sint (value0 s) < 33000) \<and>
       subseq ks ss \<and> accepted (qt (pipe a1)) = accepted (qt (pipe a)) @ ks \<and>
       rejected (qt (pipe a1)) + length ks = rejected (qt (pipe a)) + unat k \<and>
       received (pipe a1) = received (pipe a) + k)"
proof -
  let ?n = "sim_seq (sim_device a)"
  define ss where "ss = map (\<lambda>j. sim_sample (?n + word_of_nat j) (clock io j)) [0..<unat k]"
  have r: "read_samples io a = Some (Inr ss, a\<lparr>sim_device := (sim_device a)\<lparr>sim_seq := ?n + k\<rparr>\<rparr>)"
    using assms(1,2) by (simp add: read_samples_def sim_read_available_def sim_loop_spec ss_def)
  then obtain p where p: "push_samples ss (push_sched io) (pipe a) = Some p" "\<not> terminated p"
    "pipe a1 = p" "sim_seq (sim_device a1) = ?n + k"
    using assms(3) by (auto simp: source_callback_def alive_def split: if_splits)
  have "map seq ss = map (\<lambda>j. ?n + word_of_nat j) [0..<unat k]" "length ss = unat k" by (simp_all add: ss_def)
  moreover have "\<forall>s \<in> set ss. stype s = SENSORHUB_SAMPLE_TEMP \<and> 25000 \<le> sint (value0 s) \<and> sint (value0 s) < 33000"
    using sim_value_range by (auto simp: ss_def)
  moreover have "map timestamp_ns ss = map (clock io) [0..<unat k]" by (simp add: ss_def)
  moreover obtain ks where "subseq ks ss" "accepted (qt p) = accepted (qt (pipe a)) @ ks"
    "rejected (qt p) + length ks = rejected (qt (pipe a)) + length ss" "received p = received (pipe a) + word_of_nat (length ss)"
    using push_samples_queue [OF p(1,2)] by blast
  ultimately show ?thesis using p(3,4) by (intro conjI exI [of _ ss] exI [of _ ks]) simp_all
qed

theorem simulated_to_pipeline_witness:
  "\<exists>p. produce (sim_sample 0 4) None demo_pipe = Some p \<and> received p = 1 \<and>
     rejected (qt p) + length (accepted (qt p)) = 1"
proof -
  let ?a = "driver_app\<lparr>simulate := True\<rparr>"
  let ?io = "demo_io\<lparr>timer_read := Inr 1, clock := (\<lambda>_. 4), push_sched := [([], None)]\<rparr>"
  obtain p where p: "produce (sim_sample 0 4) None demo_pipe = Some p" "\<not> terminated p"
    by (simp add: produce_def Let_def demo_pipe_def new_pipeline_def push_def new_queue_def queue_step.simps)
  then have "source_callback ?io ?a = Some (Inr (), ?a\<lparr>pipe := p, sim_device := new_simulated_device\<lparr>sim_seq := 1\<rparr>\<rparr>)"
    by (simp add: source_callback_def read_samples_def sim_read_available_def sim_loop_spec new_simulated_device_def
        alive_def driver_app_def demo_produce(2))
  from simulated_to_pipeline [OF _ _ this] p(1) show ?thesis
    by (auto simp: driver_app_def demo_pipe_def new_pipeline_def)
qed

text \<open>
  Property C16 (from the command line to the log). If the driver has room, a number given to \<open>sensor_inject\<close> becomes a line of user type
  with exactly this number, the driver's time and the driver's next sequence number; when the daemon has read the device without
  dropping a sample and its workers have finished, whatever they did meanwhile, this line has been sent in a datagram,
  broadcast, and handed to the log writer. If the file system took every line and rotation, the log files hold
  exactly what the rotation rule leaves of the lines of all samples in the order of the writes (a log at the limit replaces the
  rotated file); without a limit, the line stands in the log file.
\<close>

theorem injected_value_published:
  assumes "kfifo_api K bytes ok" and "drv_inv K bytes ok dev" and "length (queued bytes dev) < 2048"
    and "stoi v = Inr n" and "inj_open ans = Inr f"
    and "sensor_inject strerror (drv_write K now) ans e (dpath # v # rest) dev = (run, dev')"
    and "\<not> simulate a" and "reach (new_pipeline cap k (new_log_writer lp limit lfs) t) (pipe a)" and "dev_reads io = fst (drv_reads K 33 dev')"
    and "source_callback io a = Some (Inr (), a1)" and "rejected (qt (pipe a1)) = rejected (qt (pipe a))"
    and "reach (pipe a1) p" and "\<not> terminated p" and "workers p \<noteq> []" and "set (workers p) = {Exited}"
    and "line = ''seq='' @ dec (unat (next_seq dev)) @ '' ts_ns='' @ dec (unat now) @ '' type=user v0='' @ dec_int n @ '' v1=0 v2=0''"
  shows "exit_code run = 0 \<and> line \<in> set (udp_sent p) \<and> line \<in> set (map snd (published p)) \<and>
    line \<in> set (map (\<lambda>x. sample_to_line (snd x)) (logged p)) \<and>
    (all_healthy p \<longrightarrow>
      log_texts (writer p) = log_after limit (map snd (logged p)) (log_texts (new_log_writer lp limit lfs))) \<and>
    (all_healthy p \<longrightarrow> limit = 0 \<longrightarrow> (\<exists>before after. content (writer p) = before @ line @ [nl] @ after))"
proof -
  let ?w = "new_log_writer lp limit lfs"
  let ?s = "\<lparr>seq = next_seq dev, timestamp_ns = now, stype = SENSORHUB_SAMPLE_USER, value0 = word_of_int n, value1 = 0, value2 = 0\<rparr>"
  have inj: "exit_code run = 0" "queued bytes dev' = queued bytes dev @ [?s]"
    using inject_reaches_queue [OF assms(1,2,4,5,6)] assms(3) by simp_all
  have inv: "drv_inv K bytes ok dev'" using inject_inv [OF assms(1,2,4,5,6)] .
  obtain q where q: "queued bytes dev' = q" "length q \<le> 2048" using kfifo_api.inv_samples [OF assms(1) inv] by blast
  have "read_available (fst (drv_reads K 33 dev')) [] = Some (Inr q)"
    using read_available_driver [OF assms(1) inv, of 32 "[]"] q by (simp del: drv_reads.simps)
  then have push: "push_samples q (push_sched io) (pipe a) = Some (pipe a1)" "\<not> terminated (pipe a1)"
    using assms(7,9,10) by (auto simp: source_callback_def read_samples_def alive_def split: if_splits)
  have "?s \<in> set (accepted (qt (pipe a1)))"
    using push_samples_all [OF push assms(11)] inj(2) [unfolded q(1)] by simp
  then have acc: "?s \<in> set (accepted (qt p))" using reach_accepted [OF assms(12)] by (auto dest: set_mono_prefix)
  have reach: "reach (new_pipeline cap k ?w t) p"
    by (rule reach_trans [OF push_samples_reach [OF push(1) assms(8)] assms(12)])
  note pinv = pipe_inv_reach [OF reach pipe_inv_new]
  note complete = complete_from_inv [OF pinv assms(13-15)]
  have texts: "log_texts (writer p) = log_after limit (map snd (logged p)) (log_texts ?w)" if "all_healthy p"
    using log_texts_from_inv(1) [OF pinv ready_new that assms(13)] by (simp add: new_log_writer_def)
  have zero: "dec_int 0 = ''0''" by code_simp
  have line: "line = sample_to_line ?s"
    using sint_stoi [OF assms(4)] zero assms(16) by (simp add: sample_to_line_def sample_type_name_def sample_type_defs)
  have "snd ` set (logged p) = set (accepted (qt p))" "set (udp_sent p) = set (map sample_to_line (accepted (qt p)))"
    "set (map snd (published p)) = set (map sample_to_line (accepted (qt p)))"
    using complete by (metis set_mset_mset set_map)+
  moreover from this(1) have "set (map (\<lambda>x. sample_to_line (snd x)) (logged p)) = sample_to_line ` set (accepted (qt p))"
    by (simp add: image_image [symmetric])
  moreover have "\<exists>before after. content (writer p) = before @ line @ [nl] @ after" if "all_healthy p" "limit = 0"
  proof -
    from acc \<open>snd ` set (logged p) = set (accepted (qt p))\<close> obtain xs ys where "map snd (logged p) = xs @ ?s # ys"
      by (metis list.set_map split_list)
    then have "content (writer p) = content ?w @ concat (map line_text xs) @ line @ [nl] @ concat (map line_text ys)"
      using texts [OF that(1)] that(2) line by (simp add: log_texts_def log_after_unlimited line_text_def)
    then show ?thesis by (metis append.assoc)
  qed
  ultimately show ?thesis using inj(1) acc line texts by simp
qed

text \<open>The number 7 is injected into an empty driver; the first worker handles the sample, then both exit.\<close>

definition publish_actions :: "action list" where
  "publish_actions = [Pop_at 0, Close_queue, Write_at 0 good_log, Pop_at 1, Udp_at 0, Tcp_at 0 (\<lambda>_. Room 200),
     Count_processed_at 0, Count_exported_at 0, Pop_at 0]"

theorem injected_value_published_witness:
  "\<exists>p. run_actions publish_actions (pushed \<lparr>seq = 0, timestamp_ns = 9, stype = SENSORHUB_SAMPLE_USER, value0 = 7,
        value1 = 0, value2 = 0\<rparr> demo_pipe) = Some p \<and>
     ''seq='' @ dec 0 @ '' ts_ns='' @ dec 9 @ '' type=user v0='' @ dec_int 7 @ '' v1=0 v2=0'' \<in> set (udp_sent p)"
proof -
  let ?s = "\<lparr>seq = 0, timestamp_ns = 9, stype = SENSORHUB_SAMPLE_USER, value0 = 7, value1 = 0, value2 = 0\<rparr>"
  let ?ans = "\<lparr>inj_open = Inr 3, inj_now = 1\<rparr>" and ?p1 = "pushed ?s demo_pipe"
  obtain run dev' where inj: "sensor_inject (\<lambda>_. []) (drv_write ring_ops 9) ?ans EINVAL [''/dev/sensorhub0'', ''7''] loaded_ring = (run, dev')"
    by (cases "sensor_inject (\<lambda>_. []) (drv_write ring_ops 9) ?ans EINVAL [''/dev/sensorhub0'', ''7''] loaded_ring")
  have "dec 7 = ''7''" by code_simp
  then have n: "stoi ''7'' = Inr 7" using stoi_dec [of 7] by simp
  have q: "queued ring_bytes dev' = [?s]"
    using inject_reaches_queue [OF ring.kfifo_api_axioms loaded_ring_inv n _ inj] queued_loaded_ring next_seq_loaded_ring by simp
  have inv: "drv_inv ring_ops ring_bytes ring_ok dev'"
    using inject_inv [OF ring.kfifo_api_axioms loaded_ring_inv n _ inj] by simp
  let ?io = "demo_io\<lparr>dev_reads := fst (drv_reads ring_ops 33 dev'), push_sched := [([], None)]\<rparr>"
  have p1: "produce ?s None demo_pipe = Some ?p1" "\<not> terminated ?p1" "rejected (qt ?p1) = rejected (qt demo_pipe)"
    by (simp_all add: pushed_def produce_def demo_pipe_def new_pipeline_def Let_def push_def new_queue_def replicate_two)
  then have src: "source_callback ?io driver_app = Some (Inr (), driver_app\<lparr>pipe := ?p1\<rparr>)"
    using read_available_driver [OF ring.kfifo_api_axioms inv, of 32 "[]"] q
    by (simp add: source_callback_def read_samples_def alive_def driver_app_def demo_produce(2) del: drv_reads.simps)
  obtain p where p: "run_actions publish_actions ?p1 = Some p" "\<not> terminated p" "workers p = [Exited, Exited]"
    by (simp add: publish_actions_def pushed_def demo_pipe_def demo_fs_def demo_defs)
  have start: "reach (new_pipeline 1024 2 (new_log_writer ''logs/sensorhub.log'' (1024 * 1024) demo_fs)
      (new_tcp_broadcaster\<lparr>listen_fd := 4\<rparr>)) (pipe driver_app)"
    by (simp add: driver_app_def demo_pipe_def reach.start)
  have "''seq='' @ dec (unat (next_seq loaded_ring)) @ '' ts_ns='' @ dec (unat (9 :: u64)) @ '' type=user v0='' @ dec_int 7 @ '' v1=0 v2=0''
      \<in> set (udp_sent p)"
    by (rule injected_value_published [OF ring.kfifo_api_axioms loaded_ring_inv _ n _ inj _ start _ src _ _ p(2) _ _ refl,
          THEN conjunct2, THEN conjunct1])
      (use p p1 reach_run [OF reach.start p(1)] queued_loaded_ring in \<open>simp_all add: driver_app_def del: drv_reads.simps\<close>)
  with p(1) next_seq_loaded_ring show ?thesis by simp
qed

text \<open>
  Property C22 (from the workers to the subscriber). A subscriber whose connection never fails prints exactly
  the broadcast lines that its socket had room for, in order, however the network cuts the stream: no
  line is split, merged or repeated.
\<close>

theorem subscriber_sees_broadcast:
  assumes "distinct (tcp_clients s)" "f \<in> set (tcp_clients s)" "tcp_wire s f = []"
    and "\<forall>(ans, line) \<in> set bs. stays (line @ [nl]) (ans f) \<and> nl \<notin> set line"
    and "sub_args args ''config/sensorhub.conf'' 5 = Inr (cpath, limit)" "load_config_file fs cpath = Inr cfg"
    and "0 \<le> sub_socket ans" "sub_connect ans = None" "sub_reads ans = xs @ [Got []]" "0 \<le> limit"
    and "\<forall>x \<in> set xs. \<exists>buf. x = Got buf \<and> buf \<noteq> []" "data_of xs = tcp_wire (broadcast_all bs s) f"
  shows "subseq (lines_for f bs) (map snd bs) \<and>
    sensor_subscribe strerror ans fs args =
      Some \<lparr>exit_code = (if limit \<le> int (length (lines_for f bs)) then 0 else 1),
            std_out = unlines (take (nat limit) (lines_for f bs)), std_err = []\<rparr>"
proof -
  have st: "\<forall>(ans, line) \<in> set bs. stays (line @ [nl]) (ans f)" using assms(4) by auto
  have d: "data_of xs = unlines (lines_for f bs) @ []"
    using broadcast_all_stay [OF assms(1,2) st] assms(3,12) by simp
  have nonl: "\<forall>l \<in> set (lines_for f bs). nl \<notin> set l" using assms(4) by (auto simp: lines_for_def)
  have "sensor_subscribe strerror ans fs args =
      Some \<lparr>exit_code = (if limit \<le> int (length (lines_for f bs)) then 0 else 1),
            std_out = unlines (take (nat limit) (lines_for f bs)), std_err = []\<rparr>"
    by (rule subscriber_run [OF assms(5,6,7,8,9,10,11) d nonl]) simp
  then show ?thesis using subseq_lines_for by blast
qed

theorem subscriber_sees_broadcast_witness:
  "sensor_subscribe (\<lambda>_. []) \<lparr>sub_socket = 3, sub_socket_errno = EINVAL, sub_connect = None,
       sub_reads = [Got ''a'', Got (nl # ''b''), Got [nl]] @ [Got []]\<rparr> demo_conf [] =
     Some \<lparr>exit_code = 1, std_out = ''a'' @ [nl] @ ''b'' @ [nl], std_err = []\<rparr>"
proof -
  let ?bs = "[(\<lambda>_. Room 9, ''a''), (\<lambda>_. Out_err EAGAIN, ''x''), (\<lambda>_. Room 2, ''b'')]"
  have d: "data_of [Got ''a'', Got (nl # ''b''), Got [nl]] = tcp_wire (broadcast_all ?bs two_subscribers) 5"
    by (simp add: broadcast_line_def two_subscribers_def new_tcp_broadcaster_def)
  have "lines_for 5 ?bs = [''a'', ''b'']" by (simp add: takes_all_def)
  moreover have "sensor_subscribe (\<lambda>_. []) \<lparr>sub_socket = 3, sub_socket_errno = EINVAL, sub_connect = None,
       sub_reads = [Got ''a'', Got (nl # ''b''), Got [nl]] @ [Got []]\<rparr> demo_conf [] =
      Some \<lparr>exit_code = (if 5 \<le> int (length (lines_for 5 ?bs)) then 0 else 1),
            std_out = unlines (take (nat 5) (lines_for 5 ?bs)), std_err = []\<rparr>"
    by (rule subscriber_sees_broadcast [OF _ _ _ _ _ demo_conf _ _ _ _ _ d, THEN conjunct2])
      (simp_all add: two_subscribers_def new_tcp_broadcaster_def send_defs)
  ultimately show ?thesis by (simp add: unlines_def)
qed

text \<open>
  Property C17 (from the queue to the subscriber's terminal). With one worker, a subscriber that connects at some
  moment of the run and whose socket takes every line broadcast from then on prints, up to the number of lines it was
  asked for, exactly the lines of the samples that are broadcast from then on: consecutive accepted samples in the order of their
  acceptance, whatever the other threads do, whoever else connects, and however the network cuts the
  stream. (A socket without room for a line misses it; this case is part of the property about broadcasts.)
\<close>

theorem samples_reach_subscriber:
  assumes "run_actions as1 (new_pipeline cap 1 w t) = Some p1" and "run_actions as2 p1 = Some p2"
    and "fresh_accepts as2 p1" "distinct (tcp_clients (tcp p1))"
    and "f \<in> set (tcp_clients (tcp p1))" "tcp_wire (tcp p1) f = []"
    and "n = length (published p1)" "m = length (published p2) - n"
    and "\<forall>(ans, line) \<in> set (drop n (published p2)). takes_all (line @ [nl]) (ans f)"
    and "sub_args args ''config/sensorhub.conf'' 5 = Inr (cpath, limit)" "load_config_file fs cpath = Inr cfg"
    and "0 \<le> sub_socket ans" "sub_connect ans = None" "sub_reads ans = xs @ [Got []]" "0 \<le> limit"
    and "\<forall>x \<in> set xs. \<exists>buf. x = Got buf \<and> buf \<noteq> []" "data_of xs = tcp_wire (tcp p2) f"
  shows "length (take m (drop n (accepted (qt p2)))) = m \<and>
    sensor_subscribe strerror ans fs args =
      Some \<lparr>exit_code = (if limit \<le> int m then 0 else 1),
            std_out = unlines (take (nat limit) (map sample_to_line (take m (drop n (accepted (qt p2)))))), std_err = []\<rparr>"
proof -
  obtain bs where bs: "published p2 = published p1 @ bs"
    "(\<forall>(ans, l) \<in> set bs. stays (l @ [nl]) (ans f)) \<longrightarrow> tcp_wire (tcp p2) f = unlines (lines_for f bs)"
    using run_subscriber [OF assms(2-5)] assms(6) by auto
  have n: "n \<le> length (published p2)" and m: "drop n (published p2) = bs" using bs(1) assms(7) by simp_all
  have "reach (new_pipeline cap 1 w t) p2"
    by (rule reach_run [OF reach_run [OF reach.start assms(1)] assms(2)])
  note pre = single_worker_prefix [OF this]
  let ?ls = "map sample_to_line (take m (drop n (accepted (qt p2))))"
  have ls: "map snd bs = ?ls" "length (take m (drop n (accepted (qt p2)))) = m"
    using published_segment [OF pre n] by (simp_all only: m assms(8) [symmetric])
  have all: "lines_for f bs = map snd bs" using assms(9) m by (auto simp: lines_for_def intro!: arg_cong [of _ _ "map snd"] filter_True)
  have "\<forall>(ans, l) \<in> set bs. stays (l @ [nl]) (ans f)" using assms(9) m takes_all_stays by fastforce
  then have d: "data_of xs = unlines ?ls @ []" using bs(2) assms(17) all ls(1) by simp
  have "sensor_subscribe strerror ans fs args =
      Some \<lparr>exit_code = (if limit \<le> int (length ?ls) then 0 else 1), std_out = unlines (take (nat limit) ?ls), std_err = []\<rparr>"
    by (rule subscriber_run [OF assms(10,11,12,13,14,15,16) d]) (auto simp: sample_to_line_no_nl)
  then show ?thesis using ls(2) by simp
qed

text \<open>The subscriber with descriptor 5 connects first, then one sample goes through the pipeline.\<close>

theorem samples_reach_subscriber_witness:
  "sensor_subscribe (\<lambda>_. []) \<lparr>sub_socket = 3, sub_socket_errno = EINVAL, sub_connect = None,
       sub_reads = [Got (sample_to_line sample7), Got [nl]] @ [Got []]\<rparr> demo_conf [] =
     Some \<lparr>exit_code = 1, std_out = sample_to_line sample7 @ [nl], std_err = []\<rparr>"
proof -
  let ?p0 = "new_pipeline 4 1 log0 new_tcp_broadcaster"
  obtain p1 where r1: "run_actions [Accept_tcp [Inr 5, Inl EAGAIN]] ?p0 = Some p1"
    and p1: "tcp_clients (tcp p1) = [5]" "tcp_wire (tcp p1) 5 = []" "published p1 = []"
    by (simp add: new_pipeline_def new_tcp_broadcaster_def)
  have "solo_actions = [Accept_tcp [Inr 5, Inl EAGAIN]] @ tl solo_actions" by (simp add: solo_actions_def)
  then have r2: "run_actions (tl solo_actions) p1 = Some solo_run"
    using solo_run(1) r1 run_actions_append by (metis option.simps(5))
  have fresh: "fresh_accepts (tl solo_actions) p1" by (simp add: solo_actions_def split: option.splits)
  have ne: "sample_to_line sample7 \<noteq> []" by (simp add: sample_to_line_def)
  have "sensor_subscribe (\<lambda>_. []) \<lparr>sub_socket = 3, sub_socket_errno = EINVAL, sub_connect = None,
       sub_reads = [Got (sample_to_line sample7), Got [nl]] @ [Got []]\<rparr> demo_conf [] =
      Some \<lparr>exit_code = (if 5 \<le> int 1 then 0 else 1),
        std_out = unlines (take (nat 5) (map sample_to_line (take 1 (drop 0 (accepted (qt solo_run)))))), std_err = []\<rparr>"
    by (rule samples_reach_subscriber [OF r1 r2 fresh, where f = 5 and xs = "[Got (sample_to_line sample7), Got [nl]]", OF _ _ _ _ _ _ _ demo_conf, THEN conjunct2])
      (use length_sample_to_line [of sample7] in \<open>simp_all add: solo_run p1 ne takes_all_def\<close>)
  then show ?thesis by (simp add: solo_run unlines_def)
qed

text \<open>
  Property C23 (a command and its reply). \<open>sensorctl\<close> writes its command with a line break. When these bytes
  reach a fresh connection of the daemon, in any pieces, the daemon executes the command once, sends the
  reply and closes the connection; and \<open>sensorctl\<close>, reading these bytes in any pieces up to the end of the
  stream, prints exactly the reply and exits with 0.
\<close>

theorem sensorctl_round_trip:
  assumes "ctl_parse args = (cpath, cmd)" "load_config_file fs cpath = Inr cfg" "length (control_socket cfg) < 108"
    and "ctl_socket ans = Inr k" "ctl_connect ans = None"
    and "server_inv s" "map_of (clients s) f = Some new_client"
    and "\<forall>(ev, xs) \<in> set ws. \<not> broken ev \<and> (\<forall>x \<in> set xs. delivers x)" "\<forall>x \<in> set xs. delivers x" "data_of xs \<noteq> []"
    and "data_events ws @ data_of xs = cmd @ [nl]" "nl \<notin> set cmd" "length cmd \<le> 127"
    and "handle_control_command strerror ioctl gaps cmd a = (Inr reply, a1)"
    and "\<forall>x \<in> set outs. accepts x" "length reply \<le> room_of outs"
  shows "\<exists>s1. session (handle_control_command strerror ioctl gaps) f (map receive_event ws @ [finish_event (ev, xs, outs)]) (s, a) =
      Some (Inr (), s1, a1) \<and> connection_done f reply s1 \<and>
    (\<forall>ys. (\<forall>y \<in> set ys. \<exists>buf. y = Got buf \<and> buf \<noteq> []) \<longrightarrow> data_of ys = wire s1 f \<longrightarrow> ctl_reads ans = ys @ [Got []] \<longrightarrow>
       sensorctl strerror ans fs args =
         Some (\<lparr>exit_code = 0, std_out = reply, std_err = []\<rparr>, Some (data_events ws @ data_of xs)))"
proof -
  have "length (data_events ws) + length (data_of xs) = Suc (length cmd)"
    using arg_cong [OF assms(11), of length] by simp
  then have len: "length (data_events ws) \<le> length cmd" using assms(10) by (cases "data_of xs") auto
  obtain s1 where s1: "session (handle_control_command strerror ioctl gaps) f
      (map receive_event ws @ [finish_event (ev, xs, outs)]) (s, a) = Some (Inr (), s1, a1)" "connection_done f reply s1"
    using command_served [where h = "handle_control_command strerror ioctl gaps" and rest = "[]", OF assms(6-9) _ assms(12,13) len assms(14-16)]
      assms(11) by auto
  have "ctl_read (ys @ [Got []]) [] = Some reply"
    if "\<forall>y \<in> set ys. \<exists>buf. y = Got buf \<and> buf \<noteq> []" "data_of ys = wire s1 f" for ys
    using ctl_read_spec [OF that(1), of "[]" "[]"] that(2) s1(2) by (simp add: connection_done_def)
  with s1 assms(1-5,11) show ?thesis by (auto simp: sensorctl_def)
qed

theorem sensorctl_round_trip_witness:
  "sensorctl (\<lambda>_. []) \<lparr>ctl_socket = Inr 3, ctl_connect = None, ctl_reads = [Got ''o'', Got (''k'' @ [nl])] @ [Got []]\<rparr> demo_conf [''shutdown''] =
     Some (\<lparr>exit_code = 0, std_out = ''ok'' @ [nl], std_err = []\<rparr>, Some (''shutdown'' @ [nl]))"
proof -
  have h: "handle_control_command (\<lambda>_. []) no_ioctl (\<lambda>_. []) ''shutdown'' (app demo_daemon) =
      (Inr (''ok'' @ [nl]), (app demo_daemon)\<lparr>running := False\<rparr>)"
    by (simp add: handle_control_command_def strip_command_def cmd_blank_def)
  have "\<exists>s1. session (handle_control_command (\<lambda>_. []) no_ioctl (\<lambda>_. [])) 9
      (map receive_event [(1, [Got ''shut'', In_err EINTR])] @ [finish_event (1, [Got (''down'' @ [nl])], [Room 9])]) (one_client, app demo_daemon) =
      Some (Inr (), s1, (app demo_daemon)\<lparr>running := False\<rparr>) \<and> connection_done 9 (''ok'' @ [nl]) s1 \<and>
      (\<forall>ys. (\<forall>y \<in> set ys. \<exists>buf. y = Got buf \<and> buf \<noteq> []) \<longrightarrow> data_of ys = wire s1 9 \<longrightarrow>
         [Got ''o'', Got (''k'' @ [nl])] @ [Got []] = ys @ [Got []] \<longrightarrow>
       sensorctl (\<lambda>_. []) \<lparr>ctl_socket = Inr 3, ctl_connect = None, ctl_reads = [Got ''o'', Got (''k'' @ [nl])] @ [Got []]\<rparr> demo_conf [''shutdown''] =
         Some (\<lparr>exit_code = 0, std_out = ''ok'' @ [nl], std_err = []\<rparr>,
           Some (data_events [(1, [Got ''shut'', In_err EINTR])] @ data_of [Got (''down'' @ [nl])])))"
    using sensorctl_round_trip [where ans = "\<lparr>ctl_socket = Inr 3, ctl_connect = None, ctl_reads = [Got ''o'', Got (''k'' @ [nl])] @ [Got []]\<rparr>",
        OF _ demo_conf _ _ _ one_client_inv _ _ _ _ _ _ h, where ws = "[(1, [Got ''shut'', In_err EINTR])]" and
        xs = "[Got (''down'' @ [nl])]" and outs = "[Room 9]" and args = "[''shutdown'']" and k = 3]
    by (simp add: ctl_parse_def known_command_def default_config_def broken_def EPOLLERR_def EPOLLHUP_def delivers_def
        accepts_def data_events_def)
  then show ?thesis by (auto simp: connection_done_def data_events_def)
qed

end
